(* ===== verification/Xv6_Prelude.thy ===== *)
theory Xv6_Prelude
  imports Main "HOL-Library.Word"
begin

text \<open>
  The prelude of the development: machine types, the result type and the sequencing
  combinators in which the kernel's stateful code is written, and the generic lemmas on
  words, lists and functions that the component theories share.

  A kernel routine is a function \<open>es \<Rightarrow> s \<Rightarrow> kres\<close>. The state \<open>s\<close> is a record (each
  component extends the record of the components below it). The list \<open>es\<close> says what the
  rest of the system does at each point where the running thread gives up the CPU in
  \<open>sleep\<close>: the head of the list is the effect, on the shared state, of everything that
  runs until this thread is scheduled again. A routine that never sleeps hands the list on
  unchanged. There are three outcomes: \<open>Ok\<close> with the returned value, the new state and the
  remaining environment steps; \<open>Panic\<close> with the message of the C \<open>panic()\<close>; and \<open>Asleep\<close>,
  the thread is asleep and nothing more of the environment is given.
\<close>

unbundle bit_operations_syntax

section \<open>Machine types\<close>

type_synonym byte = "8 word"
type_synonym uint16 = "16 word"
type_synonym uint32 = "32 word"
type_synonym uint64 = "64 word"
type_synonym addr = "64 word"
type_synonym memory = "addr \<Rightarrow> byte"

section \<open>Results and sequencing\<close>

datatype (dead 's, 'a) kres =
    Ok 'a 's "('s \<Rightarrow> 's) list"
  | Panic string
  | Asleep 's

type_synonym ('s, 'a) km = "('s \<Rightarrow> 's) list \<Rightarrow> 's \<Rightarrow> ('s, 'a) kres"

named_theorems kmonad \<open>unfolding of the sequencing combinators\<close>

definition kret :: "'a \<Rightarrow> ('s, 'a) km" where
  "kret x es s = Ok x s es"

definition kpanic :: "string \<Rightarrow> ('s, 'a) km" where
  "kpanic msg es s = Panic msg"

definition kbind :: "('s, 'a) km \<Rightarrow> ('a \<Rightarrow> ('s, 'b) km) \<Rightarrow> ('s, 'b) km" where
  "kbind m f es s =
     (case m es s of Ok x s' es' \<Rightarrow> f x es' s' | Panic msg \<Rightarrow> Panic msg | Asleep s' \<Rightarrow> Asleep s')"

definition kthen :: "('s, 'a) km \<Rightarrow> ('s, 'b) km \<Rightarrow> ('s, 'b) km" where
  "kthen m n = kbind m (\<lambda>_. n)"

definition kget :: "('s \<Rightarrow> 'a) \<Rightarrow> ('s, 'a) km" where
  "kget f es s = Ok (f s) s es"

definition kmod :: "('s \<Rightarrow> 's) \<Rightarrow> ('s, unit) km" where
  "kmod f es s = Ok () (f s) es"

text \<open>A guard that panics: \<open>if(c) panic(msg);\<close>\<close>

definition kpanic_if :: "('s \<Rightarrow> bool) \<Rightarrow> string \<Rightarrow> ('s, unit) km" where
  "kpanic_if c msg es s = (if c s then Panic msg else Ok () s es)"

text \<open>A conditional statement.\<close>

definition kif :: "bool \<Rightarrow> ('s, 'a) km \<Rightarrow> ('s, 'a) km \<Rightarrow> ('s, 'a) km" where
  "kif c m n es s = (if c then m es s else n es s)"

text \<open>A \<open>for\<close> loop over the elements of a list, in order.\<close>

primrec kfor :: "'b list \<Rightarrow> ('b \<Rightarrow> ('s, unit) km) \<Rightarrow> ('s, unit) km" where
  "kfor [] f = kret ()"
| "kfor (x # xs) f = kthen (f x) (kfor xs f)"

lemma kret_eq [simp, kmonad]: "kret x es s = Ok x s es"
  by (simp add: kret_def)

lemma kpanic_eq [simp, kmonad]: "kpanic msg es s = Panic msg"
  by (simp add: kpanic_def)

lemma kget_eq [simp, kmonad]: "kget f es s = Ok (f s) s es"
  by (simp add: kget_def)

lemma kmod_eq [simp, kmonad]: "kmod f es s = Ok () (f s) es"
  by (simp add: kmod_def)

lemma kbind_Ok [simp]: "m es s = Ok x s' es' \<Longrightarrow> kbind m f es s = f x es' s'"
  by (simp add: kbind_def)

lemma kbind_Panic [simp]: "m es s = Panic p \<Longrightarrow> kbind m f es s = Panic p"
  by (simp add: kbind_def)

lemma kbind_Asleep [simp]: "m es s = Asleep s' \<Longrightarrow> kbind m f es s = Asleep s'"
  by (simp add: kbind_def)

lemma kthen_Ok [simp]: "m es s = Ok x s' es' \<Longrightarrow> kthen m n es s = n es' s'"
  by (simp add: kthen_def)

lemma kthen_Panic [simp]: "m es s = Panic p \<Longrightarrow> kthen m n es s = Panic p"
  by (simp add: kthen_def)

lemma kthen_Asleep [simp]: "m es s = Asleep s' \<Longrightarrow> kthen m n es s = Asleep s'"
  by (simp add: kthen_def)

lemma kpanic_if_False [simp]: "\<not> c s \<Longrightarrow> kpanic_if c msg es s = Ok () s es"
  by (simp add: kpanic_if_def)

lemma kpanic_if_True [simp]: "c s \<Longrightarrow> kpanic_if c msg es s = Panic msg"
  by (simp add: kpanic_if_def)

lemma kif_simps [simp]: "c \<Longrightarrow> kif c m n es s = m es s" "\<not> c \<Longrightarrow> kif c m n es s = n es s"
  by (simp_all add: kif_def)

text \<open>Congruence rules: a recursive call in a continuation may use that what precedes it returned.\<close>

lemma kbind_cong [fundef_cong]:
  assumes "m es s = m' es s" "\<And>x s' es'. m es s = Ok x s' es' \<Longrightarrow> f x es' s' = f' x es' s'"
  shows "kbind m f es s = kbind m' f' es s"
  using assms by (auto simp: kbind_def split: kres.splits)

lemma kthen_cong [fundef_cong]:
  assumes "m es s = m' es s" "\<And>x s' es'. m es s = Ok x s' es' \<Longrightarrow> n es' s' = n' es' s'"
  shows "kthen m n es s = kthen m' n' es s"
  unfolding kthen_def by (rule kbind_cong) (use assms in simp_all)

lemma kif_cong [fundef_cong]:
  assumes "c = c'" "c' \<Longrightarrow> m es s = m' es s" "\<not> c' \<Longrightarrow> n es s = n' es s"
  shows "kif c m n es s = kif c' m' n' es s"
  using assms by (simp add: kif_def)

lemma kif_OkE:
  assumes "kif c m n es s = Ok x s' es'"
  obtains "c" "m es s = Ok x s' es'" | "\<not> c" "n es s = Ok x s' es'"
  using assms by (auto simp: kif_def split: if_splits)

lemma kbind_OkE:
  assumes "kbind m f es s = Ok y s'' es''"
  obtains x s' es' where "m es s = Ok x s' es'" "f x es' s' = Ok y s'' es''"
  using assms by (auto simp: kbind_def split: kres.splits)

lemma kthen_OkE:
  assumes "kthen m n es s = Ok y s'' es''"
  obtains x s' es' where "m es s = Ok x s' es'" "n es' s' = Ok y s'' es''"
  using assms by (auto simp: kthen_def elim: kbind_OkE)

lemma kpanic_if_OkE:
  assumes "kpanic_if c msg es s = Ok x s' es'"
  obtains "\<not> c s" "s' = s" "es' = es"
  using assms by (auto simp: kpanic_if_def split: if_splits)

lemmas kmonadE = kbind_OkE kthen_OkE kpanic_if_OkE kif_OkE

subsection \<open>Triples\<close>

text \<open>
  \<open>ktriple P m Q\<close>: from every state that satisfies \<open>P\<close>, routine \<open>m\<close> returns (it neither
  panics nor stays asleep) and the value and state it returns satisfy \<open>Q\<close>, with no
  environment step used. \<open>kinv P m\<close>: whenever \<open>m\<close> returns from a \<open>P\<close> state, it returns in a
  \<open>P\<close> state.
\<close>

definition ktriple :: "('s \<Rightarrow> bool) \<Rightarrow> ('s, 'a) km \<Rightarrow> ('a \<Rightarrow> 's \<Rightarrow> bool) \<Rightarrow> bool" where
  "ktriple P m Q \<longleftrightarrow> (\<forall>es s. P s \<longrightarrow> (\<exists>x s'. m es s = Ok x s' es \<and> Q x s'))"

definition kinv :: "('s \<Rightarrow> bool) \<Rightarrow> ('s, 'a) km \<Rightarrow> bool" where
  "kinv P m \<longleftrightarrow> (\<forall>es s x s' es'. P s \<longrightarrow> m es s = Ok x s' es' \<longrightarrow> P s')"

lemma ktripleI:
  assumes "\<And>es s. P s \<Longrightarrow> \<exists>x s'. m es s = Ok x s' es \<and> Q x s'"
  shows "ktriple P m Q"
  using assms by (simp add: ktriple_def)

lemma ktripleE:
  assumes "ktriple P m Q" "P s"
  obtains x s' where "m es s = Ok x s' es" "Q x s'"
  using assms unfolding ktriple_def by blast

lemma ktriple_bind:
  assumes "ktriple P m R" and "\<And>x. ktriple (R x) (f x) Q"
  shows "ktriple P (kbind m f) Q"
proof (rule ktripleI)
  fix es s assume "P s"
  with assms(1) obtain x s' where m: "m es s = Ok x s' es" and R: "R x s'" by (rule ktripleE)
  from assms(2) R obtain y s'' where "f x es s' = Ok y s'' es" "Q y s''" by (rule ktripleE)
  with m show "\<exists>x s'. kbind m f es s = Ok x s' es \<and> Q x s'" by simp
qed

lemma ktriple_then:
  assumes "ktriple P m (\<lambda>_. R)" and "ktriple R n Q"
  shows "ktriple P (kthen m n) Q"
  unfolding kthen_def by (rule ktriple_bind [OF assms(1)]) (rule assms(2))

lemma ktriple_conseq:
  assumes "ktriple P m Q" and "\<And>s. P' s \<Longrightarrow> P s" and "\<And>x s. Q x s \<Longrightarrow> Q' x s"
  shows "ktriple P' m Q'"
  using assms by (fastforce simp: ktriple_def)

lemma kinvI:
  assumes "\<And>es s x s' es'. P s \<Longrightarrow> m es s = Ok x s' es' \<Longrightarrow> P s'"
  shows "kinv P m"
  using assms by (auto simp: kinv_def)

lemma kinvD: "kinv P m \<Longrightarrow> P s \<Longrightarrow> m es s = Ok x s' es' \<Longrightarrow> P s'"
  unfolding kinv_def by blast

lemma kinv_kret [intro!]: "kinv P (kret x)"
  by (simp add: kinv_def)

lemma kinv_kpanic [intro!]: "kinv P (kpanic p)"
  by (simp add: kinv_def)

lemma kinv_kget [intro!]: "kinv P (kget f)"
  by (simp add: kinv_def)

lemma kinv_kpanic_if [intro!]: "kinv P (kpanic_if c p)"
  by (auto simp: kinv_def kpanic_if_def)

lemma kinv_kmod: "(\<And>s. P s \<Longrightarrow> P (f s)) \<Longrightarrow> kinv P (kmod f)"
  by (simp add: kinv_def)

lemma kinv_bind: "kinv P m \<Longrightarrow> (\<And>x. kinv P (f x)) \<Longrightarrow> kinv P (kbind m f)"
  by (rule kinvI) (erule kbind_OkE, blast dest: kinvD)

lemma kinv_then: "kinv P m \<Longrightarrow> kinv P n \<Longrightarrow> kinv P (kthen m n)"
  by (simp add: kthen_def kinv_bind)

lemma kinv_kif: "(c \<Longrightarrow> kinv P m) \<Longrightarrow> (\<not> c \<Longrightarrow> kinv P n) \<Longrightarrow> kinv P (kif c m n)"
  by (simp add: kinv_def kif_def)

lemma kinv_kfor: "(\<And>x. x \<in> set xs \<Longrightarrow> kinv P (f x)) \<Longrightarrow> kinv P (kfor xs f)"
  by (induction xs) (auto intro: kinv_then)

section \<open>Words\<close>

lemma unat_diff_less_iff:
  fixes a d :: "'a::len word"
  assumes "n \<le> 2 ^ LENGTH('a)"
  shows "unat (a - d) < n \<longleftrightarrow> (\<exists>i<n. a = d + of_nat i)"
proof
  assume "unat (a - d) < n"
  moreover have "a = d + of_nat (unat (a - d))" by simp
  ultimately show "\<exists>i<n. a = d + of_nat i" by blast
next
  assume "\<exists>i<n. a = d + of_nat i"
  then obtain i where "i < n" "a = d + of_nat i" by blast
  with assms show "unat (a - d) < n"
    by (simp add: unat_of_nat)
qed

lemma of_nat_word_inj:
  assumes "i < 2 ^ LENGTH('a)" "j < 2 ^ LENGTH('a)"
  shows "(of_nat i :: 'a::len word) = of_nat j \<longleftrightarrow> i = j"
  using assms by (metis mod_less unat_of_nat)

lemma unat_add_of_nat:
  fixes a :: "'a::len word"
  assumes "unat a + n < 2 ^ LENGTH('a)"
  shows "unat (a + of_nat n) = unat a + n"
  using assms by (simp add: unat_word_ariths unat_of_nat)

lemma eq_add_of_nat_iff:
  fixes a d :: "'a::len word"
  assumes "i < 2 ^ LENGTH('a)"
  shows "a = d + of_nat i \<longleftrightarrow> unat (a - d) = i"
proof
  assume "a = d + of_nat i"
  with assms show "unat (a - d) = i" by (simp add: unat_of_nat)
next
  assume *: "unat (a - d) = i"
  have "a = d + of_nat (unat (a - d))" by simp
  then show "a = d + of_nat i" by (simp only: *)
qed

lemma unat_minus_one_word:
  fixes x :: "'a::len word"
  assumes "x \<noteq> 0"
  shows "unat (x - 1) = unat x - 1"
  using assms by (simp add: unat_minus_one)

lemma unat_minus_one_max: "unat (- 1 :: uint64) = 2 ^ 64 - 1"
  by (simp add: unsigned_minus_1_eq_mask mask_eq_exp_minus_1)

lemma unat32_less: "unat (n :: uint32) < 2 ^ 32"
  using unsigned_less [of n, where 'a = nat] by simp

lemma unat32_less64: "unat (n :: uint32) < 2 ^ 64"
  using unat32_less [of n] by simp

lemma unat64_less: "unat (n :: uint64) < 2 ^ 64"
  using unsigned_less [of n, where 'a = nat] by simp

lemma unat_ucast32_64 [simp]: "unat (ucast (n :: uint32) :: uint64) = unat n"
  using unat32_less64 [of n] by (simp add: unsigned_ucast_eq take_bit_nat_eq_self_iff)

end
