(* ===== verification/Xv6_String.thy ===== *)
theory Xv6_String
  imports Xv6_Prelude
begin

text \<open>
  The byte and string routines of \<open>kernel/string.c\<close> and their user-level twins of
  \<open>user/ulib.c\<close>. Routines that write take the byte memory and return the new one; pointers
  are 64-bit addresses and pointer arithmetic wraps. Routines that only read take the
  sequence of bytes that a pointer points at (\<open>cstr\<close>), obtained from memory by \<open>at\<close> or from
  a byte array by \<open>arr\<close>. The loop counters of the C code are the unsigned \<open>n\<close> it counts down.
  \<open>char\<close> is unsigned in the RISC-V ABI, so the \<open>uchar\<close> casts of the kernel and the plain
  \<open>char\<close> reads of the user library agree.
\<close>

type_synonym cstr = "nat \<Rightarrow> byte"

definition at :: "memory \<Rightarrow> addr \<Rightarrow> cstr" where
  "at m p = (\<lambda>i. m (p + of_nat i))"

definition arr :: "byte list \<Rightarrow> cstr" where
  "arr xs = (\<lambda>i. if i < length xs then xs ! i else 0)"

section \<open>memset\<close>

function memset_loop :: "memory \<Rightarrow> addr \<Rightarrow> byte \<Rightarrow> nat \<Rightarrow> nat \<Rightarrow> memory" where
  "memset_loop m dst c i n =
     (if i < n then memset_loop (m(dst + of_nat i := c)) dst c (Suc i) n else m)"
  by pat_completeness auto
termination by (relation "measure (\<lambda>(m, dst, c, i, n). n - i)") auto

declare memset_loop.simps [simp del]

definition memset :: "memory \<Rightarrow> addr \<Rightarrow> uint32 \<Rightarrow> uint32 \<Rightarrow> memory" where
  "memset m dst c n = memset_loop m dst (ucast c) 0 (unat n)"

section \<open>memcmp\<close>

fun memcmp :: "cstr \<Rightarrow> cstr \<Rightarrow> nat \<Rightarrow> int" where
  "memcmp s1 s2 0 = 0"
| "memcmp s1 s2 (Suc n) =
     (if s1 0 \<noteq> s2 0 then uint (s1 0) - uint (s2 0)
      else memcmp (\<lambda>i. s1 (Suc i)) (\<lambda>i. s2 (Suc i)) n)"

section \<open>memmove\<close>

fun copy_down :: "memory \<Rightarrow> addr \<Rightarrow> addr \<Rightarrow> nat \<Rightarrow> memory" where
  \<comment> \<open>\<open>while(n-- > 0) *--d = *--s;\<close>\<close>
  "copy_down m d s 0 = m"
| "copy_down m d s (Suc n) = copy_down (m(d - 1 := m (s - 1))) (d - 1) (s - 1) n"

fun copy_up :: "memory \<Rightarrow> addr \<Rightarrow> addr \<Rightarrow> nat \<Rightarrow> memory" where
  \<comment> \<open>\<open>while(n-- > 0) *d++ = *s++;\<close>\<close>
  "copy_up m d s 0 = m"
| "copy_up m d s (Suc n) = copy_up (m(d := m s)) (d + 1) (s + 1) n"

definition memmove :: "memory \<Rightarrow> addr \<Rightarrow> addr \<Rightarrow> uint32 \<Rightarrow> memory" where
  "memmove m dst src n =
     (if n = 0 then m
      else if src < dst \<and> src + ucast n > dst
      then copy_down m (dst + ucast n) (src + ucast n) (unat n)
      else copy_up m dst src (unat n))"

definition memcpy :: "memory \<Rightarrow> addr \<Rightarrow> addr \<Rightarrow> uint32 \<Rightarrow> memory" where
  "memcpy m dst src n = memmove m dst src n"

text \<open>The user library's \<open>memmove\<close> takes a signed count and tests \<open>src > dst\<close> only.\<close>

definition umemmove :: "memory \<Rightarrow> addr \<Rightarrow> addr \<Rightarrow> int \<Rightarrow> memory" where
  "umemmove m dst src n =
     (if src > dst then copy_up m dst src (nat n)
      else copy_down m (dst + of_int n) (src + of_int n) (nat n))"

section \<open>strncmp, strcmp, strchr, strlen\<close>

fun strncmp :: "cstr \<Rightarrow> cstr \<Rightarrow> nat \<Rightarrow> int" where
  "strncmp p q 0 = 0"
| "strncmp p q (Suc n) =
     (if p 0 \<noteq> 0 \<and> p 0 = q 0 then strncmp (\<lambda>i. p (Suc i)) (\<lambda>i. q (Suc i)) n
      else uint (p 0) - uint (q 0))"

partial_function (option) strcmp_from :: "cstr \<Rightarrow> cstr \<Rightarrow> nat \<Rightarrow> int option" where
  "strcmp_from p q i =
     (if p i \<noteq> 0 \<and> p i = q i then strcmp_from p q (Suc i)
      else Some (uint (p i) - uint (q i)))"

definition strcmp :: "cstr \<Rightarrow> cstr \<Rightarrow> int option" where
  "strcmp p q = strcmp_from p q 0"

partial_function (option) strlen_from :: "cstr \<Rightarrow> nat \<Rightarrow> nat option" where
  "strlen_from s n = (if s n = 0 then Some n else strlen_from s (Suc n))"

definition strlen :: "cstr \<Rightarrow> nat option" where
  "strlen s = strlen_from s 0"

section \<open>strncpy, safestrcpy\<close>

fun zero_loop :: "memory \<Rightarrow> addr \<Rightarrow> nat \<Rightarrow> memory" where
  \<comment> \<open>\<open>while(n-- > 0) *s++ = 0;\<close>\<close>
  "zero_loop m s 0 = m"
| "zero_loop m s (Suc n) = zero_loop (m(s := 0)) (s + 1) n"

fun strncpy_loop :: "memory \<Rightarrow> addr \<Rightarrow> addr \<Rightarrow> nat \<Rightarrow> memory" where
  \<comment> \<open>\<open>while(n-- > 0 && (*s++ = *t++) != 0);\<close> and then the zero filling\<close>
  "strncpy_loop m s t 0 = m"
| "strncpy_loop m s t (Suc n) =
     (let m' = m(s := m t) in
      if m' s \<noteq> 0 then strncpy_loop m' (s + 1) (t + 1) n else zero_loop m' (s + 1) n)"

definition strncpy :: "memory \<Rightarrow> addr \<Rightarrow> addr \<Rightarrow> int \<Rightarrow> memory" where
  "strncpy m s t n = strncpy_loop m s t (nat n)"

fun safestrcpy_loop :: "memory \<Rightarrow> addr \<Rightarrow> addr \<Rightarrow> nat \<Rightarrow> memory" where
  \<comment> \<open>\<open>while(--n > 0 && (*s++ = *t++) != 0); *s = 0;\<close> on entry \<open>n\<close> is at least 1\<close>
  "safestrcpy_loop m s t n =
     (if n > 1
      then (let m' = m(s := m t) in
            if m' s \<noteq> 0 then safestrcpy_loop m' (s + 1) (t + 1) (n - 1)
            else m'(s + 1 := 0))
      else m(s := 0))"

declare safestrcpy_loop.simps [simp del]

definition safestrcpy :: "memory \<Rightarrow> addr \<Rightarrow> addr \<Rightarrow> int \<Rightarrow> memory" where
  "safestrcpy m s t n = (if n \<le> 0 then m else safestrcpy_loop m s t (nat n))"

section \<open>What the copy loops compute\<close>

lemma memset_loop_apply:
  assumes "n \<le> 2 ^ 64"
  shows "memset_loop m dst c i n a =
    (if i \<le> unat (a - dst) \<and> unat (a - dst) < n then c else m a)"
proof (induction "n - i" arbitrary: m i)
  case 0
  then show ?case by (auto simp: memset_loop.simps [of m dst c i n])
next
  case (Suc k)
  then have "i < n" and k: "k = n - Suc i" by simp_all
  have "memset_loop m dst c i n a = memset_loop (m(dst + of_nat i := c)) dst c (Suc i) n a"
    using \<open>i < n\<close> by (subst memset_loop.simps) simp
  also have "\<dots> = (if Suc i \<le> unat (a - dst) \<and> unat (a - dst) < n then c
      else (m(dst + of_nat i := c)) a)"
    by (rule Suc.hyps(1) [OF k])
  also have "a = dst + of_nat i \<longleftrightarrow> unat (a - dst) = i"
    using less_le_trans [OF \<open>i < n\<close> assms] by (intro eq_add_of_nat_iff) simp
  then have "(if Suc i \<le> unat (a - dst) \<and> unat (a - dst) < n then c
      else (m(dst + of_nat i := c)) a) =
    (if i \<le> unat (a - dst) \<and> unat (a - dst) < n then c else m a)"
    using \<open>i < n\<close> by auto
  finally show ?case .
qed

lemma memset_apply:
  "memset m dst c n a = (if unat (a - dst) < unat n then ucast c else m a)"
  using less_imp_le [OF unat32_less64, of n] by (simp add: memset_def memset_loop_apply)

lemma copy_up_apply:
  assumes "n \<le> 2 ^ 64"
    and "\<And>i j. i < j \<Longrightarrow> j < n \<Longrightarrow> d + of_nat i \<noteq> s + of_nat j"
  shows "copy_up m d s n a = (if unat (a - d) < n then m (s + (a - d)) else m a)"
  using assms
proof (induction m d s n rule: copy_up.induct)
  case (1 m d s)
  then show ?case by simp
next
  case (2 m d s n)
  let ?m = "m(d := m s)"
  have "(d + 1) + of_nat i \<noteq> (s + 1) + of_nat j" if "i < j" "j < n" for i j
    using "2.prems"(2) [of "Suc i" "Suc j"] that by (simp add: algebra_simps)
  then have IH: "copy_up ?m (d + 1) (s + 1) n a =
      (if unat (a - (d + 1)) < n then ?m ((s + 1) + (a - (d + 1))) else ?m a)"
    using "2.prems"(1) by (intro "2.IH") simp_all
  show ?case
  proof (cases "a = d")
    case True
    have "\<not> unat (a - (d + 1)) < n"
      using "2.prems"(1) by (simp add: True unat_minus_one_max)
    then show ?thesis using IH True by simp
  next
    case False
    then have k: "unat (a - (d + 1)) = unat (a - d) - 1" "0 < unat (a - d)"
      using unat_minus_one_word [of "a - d"] by (simp_all add: algebra_simps unat_gt_0)
    have "s + (a - d) \<noteq> d" if "unat (a - d) < Suc n"
      using "2.prems"(2) [of 0 "unat (a - d)"] k that by auto
    then show ?thesis using IH False k by (auto simp: algebra_simps)
  qed
qed

lemma copy_down_apply:
  assumes "n \<le> 2 ^ 64"
    and "\<And>i j. i < j \<Longrightarrow> j < n \<Longrightarrow> d + of_nat j \<noteq> s + of_nat i"
  shows "copy_down m (d + of_nat n) (s + of_nat n) n a =
    (if unat (a - d) < n then m (s + (a - d)) else m a)"
  using assms
proof (induction n arbitrary: m)
  case 0
  then show ?case by simp
next
  case (Suc n)
  let ?m = "m(d + of_nat n := m (s + of_nat n))"
  have IH: "copy_down ?m (d + of_nat n) (s + of_nat n) n a =
      (if unat (a - d) < n then ?m (s + (a - d)) else ?m a)"
    using Suc.prems by (intro Suc.IH) auto
  have "a = d + of_nat n \<longleftrightarrow> unat (a - d) = n"
    using Suc.prems(1) by (intro eq_add_of_nat_iff) simp
  moreover have "s + (a - d) \<noteq> d + of_nat n" if "unat (a - d) < n"
    using Suc.prems(2) [of "unat (a - d)" n] that by auto
  ultimately show ?case using IH by (auto simp: algebra_simps less_Suc_eq)
qed

text \<open>The bytes of a region in order, and writing a byte list into memory.\<close>

definition bytes_at :: "memory \<Rightarrow> addr \<Rightarrow> nat \<Rightarrow> byte list" where
  "bytes_at m p n = map (\<lambda>i. m (p + of_nat i)) [0..<n]"

definition write_bytes :: "memory \<Rightarrow> addr \<Rightarrow> byte list \<Rightarrow> memory" where
  "write_bytes m p xs = (\<lambda>a. if unat (a - p) < length xs then xs ! unat (a - p) else m a)"

lemma length_bytes_at [simp]: "length (bytes_at m p n) = n"
  by (simp add: bytes_at_def)

lemma nth_bytes_at [simp]: "i < n \<Longrightarrow> bytes_at m p n ! i = m (p + of_nat i)"
  by (simp add: bytes_at_def)

lemma bytes_at_write_bytes_same:
  "length xs \<le> 2 ^ 64 \<Longrightarrow> bytes_at (write_bytes m p xs) p (length xs) = xs"
  by (rule nth_equalityI) (simp_all add: write_bytes_def unat_of_nat)

lemma memmove_write_bytes:
  assumes "unat src + unat n < 2 ^ 64" and "unat dst + unat n \<le> 2 ^ 64"
  shows "memmove m dst src n = write_bytes m dst (bytes_at m src (unat n))"
proof
  fix a
  have n64: "unat n \<le> 2 ^ 64" using unat32_less64 [of n] by simp
  have nosrc: "unat (src + of_nat i) = unat src + i" if "i \<le> unat n" for i
    using that assms(1) by (intro unat_add_of_nat) simp
  have nodst: "unat (dst + of_nat i) = unat dst + i" if "i < unat n" for i
    using that assms(2) by (intro unat_add_of_nat) simp
  have "memmove m dst src n a = (if unat (a - dst) < unat n then m (src + (a - dst)) else m a)"
  proof (cases "src < dst \<and> src + ucast n > dst")
    case True
    have "dst + of_nat j \<noteq> src + of_nat i" if "i < j" "j < unat n" for i j
    proof -
      have "unat src < unat dst" using True by (simp add: word_less_nat_alt)
      then have "unat (dst + of_nat j) \<noteq> unat (src + of_nat i)"
        using that by (simp add: nosrc nodst)
      then show ?thesis by metis
    qed
    then show ?thesis
      using True copy_down_apply [OF n64, of dst src m a] by (simp add: memmove_def)
  next
    case False
    then have "unat dst \<le> unat src \<or> unat src + unat n \<le> unat dst"
      using nosrc [OF order_refl] by (auto simp: word_less_nat_alt)
    then have "dst + of_nat i \<noteq> src + of_nat j" if "i < j" "j < unat n" for i j
    proof -
      have "unat (dst + of_nat i) \<noteq> unat (src + of_nat j)"
        using that \<open>unat dst \<le> unat src \<or> unat src + unat n \<le> unat dst\<close>
        by (auto simp: nosrc nodst)
      then show ?thesis by metis
    qed
    moreover have "memmove m dst src n = copy_up m dst src (unat n)"
      using False by (auto simp: memmove_def)
    ultimately show ?thesis
      using copy_up_apply [OF n64, of dst src m a] by simp
  qed
  then show "memmove m dst src n a = write_bytes m dst (bytes_at m src (unat n)) a"
    by (simp add: write_bytes_def)
qed

lemma umemmove_write_bytes:
  assumes "0 \<le> n" and "unat src + nat n \<le> 2 ^ 64" and "unat dst + nat n \<le> 2 ^ 64"
  shows "umemmove m dst src n = write_bytes m dst (bytes_at m src (nat n))"
proof
  fix a
  have n64: "nat n \<le> 2 ^ 64" using assms(2) by simp
  have ofn: "(of_int n :: addr) = of_nat (nat n)" using assms(1) by simp
  have nosrc: "unat (src + of_nat i) = unat src + i" if "i < nat n" for i
    using that assms(2) by (intro unat_add_of_nat) simp
  have nodst: "unat (dst + of_nat i) = unat dst + i" if "i < nat n" for i
    using that assms(3) by (intro unat_add_of_nat) simp
  have ne: "dst + of_nat i \<noteq> src + of_nat j"
    if "i < nat n" "j < nat n" "unat dst + i \<noteq> unat src + j" for i j
    using that nosrc [OF that(2)] nodst [OF that(1)] by metis
  have "umemmove m dst src n a = (if unat (a - dst) < nat n then m (src + (a - dst)) else m a)"
  proof (cases "src > dst")
    case True
    then have "unat dst < unat src" by (simp add: word_less_nat_alt)
    then have "dst + of_nat i \<noteq> src + of_nat j" if "i < j" "j < nat n" for i j
      using that by (intro ne) simp_all
    then show ?thesis
      using True copy_up_apply [OF n64, of dst src m a] by (simp add: umemmove_def)
  next
    case False
    then have "unat src \<le> unat dst" by (simp add: word_less_nat_alt)
    then have "dst + of_nat j \<noteq> src + of_nat i" if "i < j" "j < nat n" for i j
      using that by (intro ne) simp_all
    then show ?thesis
      using False copy_down_apply [OF n64, of dst src m a] by (simp add: umemmove_def ofn)
  qed
  then show "umemmove m dst src n a = write_bytes m dst (bytes_at m src (nat n)) a"
    by (simp add: write_bytes_def)
qed

section \<open>What the string loops compute\<close>

text \<open>The C string at the start of a sequence, cut off after \<open>n\<close> bytes.\<close>

definition cprefix :: "cstr \<Rightarrow> nat \<Rightarrow> byte list" where
  "cprefix p n = takeWhile (\<lambda>c. c \<noteq> 0) (map p [0..<n])"

lemma cprefix_0 [simp]: "cprefix p 0 = []"
  by (simp add: cprefix_def)

lemma cprefix_Suc:
  "cprefix p (Suc n) = (if p 0 = 0 then [] else p 0 # cprefix (\<lambda>i. p (Suc i)) n)"
  unfolding cprefix_def map_upt_Suc by simp

lemma length_cprefix_le: "length (cprefix p n) \<le> n"
  using length_takeWhile_le [of _ "map p [0..<n]"] by (simp add: cprefix_def)

lemma uint_diff_eq_0 [simp]: "uint a - uint b = 0 \<longleftrightarrow> a = b"
  by (simp add: word_uint_eq_iff)

lemma strncmp_eq_0_iff: "strncmp p q n = 0 \<longleftrightarrow> cprefix p n = cprefix q n"
  by (induction p q n rule: strncmp.induct) (auto simp: cprefix_Suc uint_0_iff simp del: right_minus_eq)

lemma memcmp_eq_0_iff: "memcmp s1 s2 n = 0 \<longleftrightarrow> (\<forall>i<n. s1 i = s2 i)"
  by (induction s1 s2 n rule: memcmp.induct) (auto simp: less_Suc_eq_0_disj simp del: right_minus_eq)

lemma strlen_from_least:
  assumes "i \<le> k" "s k = 0" "\<And>j. i \<le> j \<Longrightarrow> j < k \<Longrightarrow> s j \<noteq> 0"
  shows "strlen_from s i = Some k"
  using assms
proof (induction "k - i" arbitrary: i)
  case 0
  then show ?case by (subst strlen_from.simps) simp
next
  case (Suc d)
  then have "strlen_from s (Suc i) = Some k" by (intro Suc.hyps(1)) simp_all
  moreover have "s i \<noteq> 0" using Suc.hyps(2) Suc.prems by simp
  ultimately show ?case by (subst strlen_from.simps) simp
qed

lemma strlen_from_sound:
  assumes "strlen_from s i = Some k"
  shows "s k = 0 \<and> i \<le> k \<and> (\<forall>j. i \<le> j \<longrightarrow> j < k \<longrightarrow> s j \<noteq> 0)"
proof (rule strlen_from.raw_induct [where
      P = "\<lambda>s i k. s k = 0 \<and> i \<le> k \<and> (\<forall>j. i \<le> j \<longrightarrow> j < k \<longrightarrow> s j \<noteq> 0)", OF _ assms])
  fix f and s :: cstr and i k
  assume IH: "\<And>s i k. f s i = Some k \<Longrightarrow> s k = 0 \<and> i \<le> k \<and> (\<forall>j. i \<le> j \<longrightarrow> j < k \<longrightarrow> s j \<noteq> 0)"
    and eq: "(if s i = 0 then Some i else f s (Suc i)) = Some k"
  show "s k = 0 \<and> i \<le> k \<and> (\<forall>j. i \<le> j \<longrightarrow> j < k \<longrightarrow> s j \<noteq> 0)"
  proof (cases "s i = 0")
    case True
    with eq show ?thesis by auto
  next
    case False
    with eq IH [of s "Suc i" k]
    have h: "s k = 0" "Suc i \<le> k" "\<And>j. Suc i \<le> j \<Longrightarrow> j < k \<Longrightarrow> s j \<noteq> 0" by auto
    have "s j \<noteq> 0" if "i \<le> j" "j < k" for j
      using h(3) [of j] that False by (cases "j = i") auto
    with h(1,2) show ?thesis by simp
  qed
qed

lemma strlen_eq_iff: "strlen s = Some k \<longleftrightarrow> s k = 0 \<and> (\<forall>i<k. s i \<noteq> 0)"
  unfolding strlen_def
proof
  assume "strlen_from s 0 = Some k"
  then show "s k = 0 \<and> (\<forall>i<k. s i \<noteq> 0)" using strlen_from_sound by blast
next
  assume "s k = 0 \<and> (\<forall>i<k. s i \<noteq> 0)"
  then show "strlen_from s 0 = Some k" by (intro strlen_from_least) simp_all
qed

lemma strlen_None_iff: "strlen s = None \<longleftrightarrow> (\<forall>i. s i \<noteq> 0)"
proof
  assume none: "strlen s = None"
  show "\<forall>i. s i \<noteq> 0"
  proof (rule ccontr)
    assume "\<not> (\<forall>i. s i \<noteq> 0)"
    then obtain k where "s k = 0" "\<forall>i<k. s i \<noteq> 0"
      using exists_least_iff [of "\<lambda>i. s i = 0"] by blast
    then have "strlen s = Some k" by (simp add: strlen_eq_iff)
    with none show False by simp
  qed
next
  assume "\<forall>i. s i \<noteq> 0"
  then show "strlen s = None"
    by (metis not_Some_eq strlen_eq_iff)
qed

lemma zero_loop_apply:
  assumes "n \<le> 2 ^ 64"
  shows "zero_loop m s n a = (if unat (a - s) < n then 0 else m a)"
  using assms
proof (induction m s n rule: zero_loop.induct)
  case (1 m s)
  then show ?case by simp
next
  case (2 m s n)
  have IH: "zero_loop (m(s := 0)) (s + 1) n a =
      (if unat (a - (s + 1)) < n then 0 else (m(s := 0)) a)"
    using "2.prems" by (intro "2.IH") simp
  show ?case
  proof (cases "a = s")
    case True
    then show ?thesis using IH by simp
  next
    case False
    then have "unat (a - (s + 1)) = unat (a - s) - 1" "0 < unat (a - s)"
      using unat_minus_one_word [of "a - s"] by (simp_all add: algebra_simps unat_gt_0)
    then show ?thesis using IH False by auto
  qed
qed

text \<open>
  One step of a copy loop seen from the write list: storing a byte and then a list behind it
  stores the longer list.
\<close>

lemma write_bytes_Cons:
  assumes "length xs < 2 ^ 64"
  shows "write_bytes (m(s := x)) (s + 1) xs = write_bytes m s (x # xs)"
proof
  fix a
  show "write_bytes (m(s := x)) (s + 1) xs a = write_bytes m s (x # xs) a"
  proof (cases "a = s")
    case True
    then show ?thesis using assms by (simp add: write_bytes_def unat_minus_one_max)
  next
    case False
    then have "unat (a - (s + 1)) = unat (a - s) - 1" "0 < unat (a - s)"
      using unat_minus_one_word [of "a - s"] by (simp_all add: algebra_simps unat_gt_0)
    then show ?thesis using False by (auto simp: write_bytes_def nth_Cons')
  qed
qed

lemma write_bytes_Nil [simp]: "write_bytes m s [] = m"
  by (simp add: write_bytes_def)

lemma zero_loop_write_bytes:
  "n \<le> 2 ^ 64 \<Longrightarrow> zero_loop m s n = write_bytes m s (replicate n 0)"
  by (rule ext) (simp add: zero_loop_apply write_bytes_def)

text \<open>A C string padded with zeros to a field of \<open>n\<close> bytes, as in a directory entry.\<close>

definition cpad :: "cstr \<Rightarrow> nat \<Rightarrow> byte list" where
  "cpad p n = cprefix p n @ replicate (n - length (cprefix p n)) 0"

lemma cpad_0 [simp]: "cpad p 0 = []"
  by (simp add: cpad_def)

lemma cpad_Suc:
  "cpad p (Suc n) = (if p 0 = 0 then replicate (Suc n) 0 else p 0 # cpad (\<lambda>i. p (Suc i)) n)"
  by (simp add: cpad_def cprefix_Suc)

lemma length_cpad [simp]: "length (cpad p n) = n"
  using length_cprefix_le [of p n] by (simp add: cpad_def)

definition disjoint_regions :: "addr \<Rightarrow> nat \<Rightarrow> addr \<Rightarrow> nat \<Rightarrow> bool" where
  "disjoint_regions s n t k \<longleftrightarrow> (\<forall>i<n. \<forall>j<k. s + of_nat i \<noteq> t + of_nat j)"

lemma disjoint_regions_Suc:
  assumes "disjoint_regions s (Suc n) t (Suc k)"
  shows "disjoint_regions (s + 1) n (t + 1) k" and "s \<noteq> t"
proof -
  have "(s + 1) + of_nat i \<noteq> (t + 1) + of_nat j" if "i < n" "j < k" for i j
    using assms that unfolding disjoint_regions_def
    by (auto dest!: spec [of _ "Suc i"] spec [of _ "Suc j"] simp: algebra_simps)
  then show "disjoint_regions (s + 1) n (t + 1) k" by (simp add: disjoint_regions_def)
  show "s \<noteq> t" using assms unfolding disjoint_regions_def by (auto dest!: spec [of _ 0])
qed

lemma cprefix_at_upd:
  assumes "disjoint_regions s (Suc n) t (Suc k)"
  shows "cprefix (at (m(s := x)) (t + 1)) k = cprefix (\<lambda>i. at m t (Suc i)) k"
proof -
  have "at (m(s := x)) (t + 1) i = at m t (Suc i)" if "i < k" for i
  proof -
    have "t + 1 + of_nat i \<noteq> s"
      using assms [unfolded disjoint_regions_def, rule_format, of 0 "Suc i"] that
      by (simp add: algebra_simps)
    then show ?thesis by (simp add: at_def algebra_simps)
  qed
  then have "map (at (m(s := x)) (t + 1)) [0..<k] = map (\<lambda>i. at m t (Suc i)) [0..<k]" by simp
  then show ?thesis by (simp only: cprefix_def)
qed

lemma strncpy_loop_write_bytes:
  assumes "n < 2 ^ 64" and "disjoint_regions s n t n"
  shows "strncpy_loop m s t n = write_bytes m s (cpad (at m t) n)"
  using assms
proof (induction m s t n rule: strncpy_loop.induct)
  case (1 m s t)
  then show ?case by simp
next
  case (2 m s t n)
  let ?m = "m(s := m t)"
  have n: "n < 2 ^ 64" using "2.prems"(1) by simp
  note dis = disjoint_regions_Suc [OF "2.prems"(2)]
  show ?case
  proof (cases "m t = 0")
    case True
    then show ?thesis
      using n write_bytes_Cons [of "replicate n 0" m s 0]
      by (simp add: cpad_Suc at_def Let_def zero_loop_write_bytes)
  next
    case False
    then have "strncpy_loop m s t (Suc n) = strncpy_loop ?m (s + 1) (t + 1) n" by (simp add: Let_def)
    also have "\<dots> = write_bytes ?m (s + 1) (cpad (at ?m (t + 1)) n)"
      using False n dis by (intro "2.IH") (simp_all add: fun_upd_def)
    also have "\<dots> = write_bytes m s (m t # cpad (at ?m (t + 1)) n)"
      using n by (intro write_bytes_Cons) simp
    also have "cpad (at ?m (t + 1)) n = cpad (\<lambda>i. at m t (Suc i)) n"
      by (simp add: cpad_def cprefix_at_upd [OF "2.prems"(2)])
    finally show ?thesis
      using False by (simp add: cpad_Suc) (simp add: at_def)
  qed
qed

lemma safestrcpy_loop_write_bytes:
  assumes "0 < n" "n < 2 ^ 64" and "disjoint_regions s n t n"
  shows "\<exists>pad. pad \<le> 1 \<and> length (cprefix (at m t) (n - 1)) + 1 + pad \<le> n \<and>
    safestrcpy_loop m s t n =
      write_bytes m s (cprefix (at m t) (n - 1) @ 0 # replicate pad 0)"
  using assms
proof (induction "n - 1" arbitrary: m s t n)
  case 0
  then have "safestrcpy_loop m s t n = m(s := 0)" by (simp add: safestrcpy_loop.simps [of m s t n])
  also have "\<dots> = write_bytes m s [0]"
    using write_bytes_Cons [of "[]" m s 0] by simp
  finally show ?case using 0 by (intro exI [of _ 0]) simp
next
  case (Suc k)
  then obtain n' where n: "n = Suc (Suc n')" "k = n'"
    by (metis Suc_diff_1 diff_Suc_1)
  let ?m = "m(s := m t)"
  have unf: "safestrcpy_loop m s t n =
     (if m t \<noteq> 0 then safestrcpy_loop ?m (s + 1) (t + 1) (n - 1) else ?m(s + 1 := 0))"
    using n by (subst safestrcpy_loop.simps) (simp add: Let_def)
  note dis = disjoint_regions_Suc [OF Suc.prems(3) [unfolded n]]
  show ?case
  proof (cases "m t = 0")
    case True
    have "safestrcpy_loop m s t n = write_bytes m s [0, 0]"
      using True unf write_bytes_Cons [of "[]" ?m "s + 1" 0] write_bytes_Cons [of "[0]" m s 0] by simp
    then show ?thesis using True n by (intro exI [of _ 1]) (simp add: cprefix_Suc at_def)
  next
    case False
    have "\<exists>pad. pad \<le> 1 \<and> length (cprefix (at ?m (t + 1)) (n - 1 - 1)) + 1 + pad \<le> n - 1 \<and>
      safestrcpy_loop ?m (s + 1) (t + 1) (n - 1) =
      write_bytes ?m (s + 1) (cprefix (at ?m (t + 1)) (n - 1 - 1) @ 0 # replicate pad 0)"
      using Suc.prems(2) n dis by (intro Suc.hyps(1)) simp_all
    moreover have "disjoint_regions s (Suc (Suc n')) t (Suc n')"
      using Suc.prems(3) n by (auto simp: disjoint_regions_def)
    then have "cprefix (at ?m (t + 1)) n' = cprefix (\<lambda>i. at m t (Suc i)) n'"
      by (rule cprefix_at_upd)
    ultimately obtain pad where pad: "pad \<le> 1"
        "length (cprefix (\<lambda>i. at m t (Suc i)) n') + 1 + pad \<le> Suc n'"
      and eq: "safestrcpy_loop ?m (s + 1) (t + 1) (n - 1) =
        write_bytes ?m (s + 1) (cprefix (\<lambda>i. at m t (Suc i)) n' @ 0 # replicate pad 0)"
      using n by auto
    have "length (cprefix (\<lambda>i. at m t (Suc i)) n' @ 0 # replicate pad (0::byte)) < 2 ^ 64"
      using pad(2) Suc.prems(2) n by simp
    from eq write_bytes_Cons [OF this, of m s "m t"] have
      "safestrcpy_loop m s t n =
        write_bytes m s (m t # cprefix (\<lambda>i. at m t (Suc i)) n' @ 0 # replicate pad 0)"
      using unf False by simp
    then show ?thesis
      using pad n False by (intro exI [of _ pad]) (simp add: cprefix_Suc at_def)
  qed
qed

end
