(* ===== verification/Xv6_Memory.thy ===== *)
theory Xv6_Memory
  imports Xv6_String
begin

text \<open>
  Little-endian loads and stores of multi-byte integers in the byte memory, page arithmetic
  (the macros of \<open>kernel/riscv.h\<close> and \<open>kernel/memlayout.h\<close>), and the frame laws of stores on
  aligned addresses and whole pages, which the allocator and the page-table code rely on.
\<close>

section \<open>Integers in memory\<close>

primrec load_le :: "memory \<Rightarrow> addr \<Rightarrow> nat \<Rightarrow> nat" where
  "load_le m a 0 = 0"
| "load_le m a (Suc n) = unat (m a) + 256 * load_le m (a + 1) n"

primrec bytes_le :: "nat \<Rightarrow> nat \<Rightarrow> byte list" where
  "bytes_le 0 v = []"
| "bytes_le (Suc n) v = of_nat v # bytes_le n (v div 256)"

definition load64 :: "memory \<Rightarrow> addr \<Rightarrow> uint64" where
  "load64 m a = of_nat (load_le m a 8)"

definition store64 :: "memory \<Rightarrow> addr \<Rightarrow> uint64 \<Rightarrow> memory" where
  "store64 m a v = write_bytes m a (bytes_le 8 (unat v))"

lemma length_bytes_le [simp]: "length (bytes_le n v) = n"
  by (induction n arbitrary: v) simp_all

lemma load_le_cong:
  assumes "\<And>i. i < n \<Longrightarrow> m (a + of_nat i) = m' (a + of_nat i)"
  shows "load_le m a n = load_le m' a n"
  using assms
proof (induction n arbitrary: a)
  case (Suc n)
  have "m (a + 1 + of_nat i) = m' (a + 1 + of_nat i)" if "i < n" for i
    using Suc.prems [of "Suc i"] that by (simp add: algebra_simps)
  then show ?case using Suc.IH [of "a + 1"] Suc.prems [of 0] by simp
qed simp

lemma load_le_write_same:
  assumes "n < 2 ^ 64"
  shows "load_le (write_bytes m a (bytes_le n v)) a n = v mod 256 ^ n"
  using assms
proof (induction n arbitrary: m a v)
  case (Suc n)
  have w: "write_bytes m a (bytes_le (Suc n) v) =
      write_bytes (m(a := of_nat v)) (a + 1) (bytes_le n (v div 256))"
    using Suc.prems by (simp add: write_bytes_Cons)
  have "write_bytes m a (bytes_le (Suc n) v) a = of_nat v"
    by (simp add: write_bytes_def)
  moreover have "load_le (write_bytes m a (bytes_le (Suc n) v)) (a + 1) n = (v div 256) mod 256 ^ n"
    unfolding w using Suc by simp
  moreover have "v mod 256 + 256 * (v div 256 mod 256 ^ n) = v mod (256 * 256 ^ n)"
    by (simp add: mod_mult2_eq)
  ultimately show ?case by (simp add: unat_of_nat)
qed simp

lemma load64_store64_same [simp]: "load64 (store64 m a v) a = v"
proof -
  have "unat v < 256 ^ 8" using unat64_less [of v] by simp
  then show ?thesis by (simp add: load64_def store64_def load_le_write_same)
qed

lemma write_bytes_outside:
  "\<not> unat (b - a) < length xs \<Longrightarrow> write_bytes m a xs b = m b"
  by (simp add: write_bytes_def)

lemma store64_outside: "\<not> unat (b - a) < 8 \<Longrightarrow> store64 m a v b = m b"
  by (simp add: store64_def write_bytes_outside)

lemma load64_cong:
  "(\<And>i. i < 8 \<Longrightarrow> m (a + of_nat i) = m' (a + of_nat i)) \<Longrightarrow> load64 m a = load64 m' a"
  unfolding load64_def by (simp only: load_le_cong [of 8 m a m'])

subsection \<open>Aligned addresses\<close>

definition aligned :: "nat \<Rightarrow> addr \<Rightarrow> bool" where
  "aligned k a \<longleftrightarrow> unat a mod k = 0"

lemma aligned_add:
  assumes "aligned k a" "k dvd 2 ^ 64" "i < k"
  shows "unat (a + of_nat i) = unat a + i"
proof (rule unat_add_of_nat)
  obtain q where q: "unat a = k * q" using assms(1) by (auto simp: aligned_def)
  obtain r where r: "(2::nat) ^ 64 = k * r" using assms(2) by (elim dvdE)
  have "k * q < k * r" using unat64_less [of a] q r by simp
  then have "Suc q \<le> r" by simp
  then have "k * Suc q \<le> k * r" by (rule mult_le_mono2)
  then have "unat a + k \<le> 2 ^ 64" using q r by simp
  then show "unat a + i < 2 ^ LENGTH(64)" using assms(3) by simp
qed

lemma aligned_block:
  assumes "aligned k a" "k dvd 2 ^ 64" "i < k"
  shows "unat (a + of_nat i) div k = unat a div k"
  using aligned_add [OF assms] assms by (auto simp: aligned_def)

lemma aligned_eq_iff:
  assumes "aligned k a" "aligned k b"
  shows "a = b \<longleftrightarrow> unat a div k = unat b div k"
  using assms by (metis aligned_def word_unat_eq_iff mult_div_mod_eq)

lemma aligned_diff:
  assumes "aligned k p" "k dvd 2 ^ 64"
  shows "unat (a - p) < k \<longleftrightarrow> unat a div k = unat p div k"
proof
  assume "unat (a - p) < k"
  then have "unat (p + of_nat (unat (a - p))) div k = unat p div k"
    by (rule aligned_block [OF assms])
  then show "unat a div k = unat p div k" by simp
next
  assume eq: "unat a div k = unat p div k"
  have k0: "0 < k" using assms(2) by (auto intro: Nat.gr0I)
  have p: "unat p = k * (unat p div k)" using assms(1) by (auto simp: aligned_def)
  have "unat a = k * (unat p div k) + unat a mod k" using eq by (metis mult_div_mod_eq)
  then have "unat a = unat p + unat a mod k" using p by simp
  moreover have "unat a mod k < k" using k0 by simp
  moreover have "p \<le> a" using calculation by (simp add: word_le_nat_alt)
  ultimately show "unat (a - p) < k" by (simp add: unat_sub)
qed

lemma load64_store64_other:
  assumes "aligned 8 a" "aligned 8 b" "a \<noteq> b"
  shows "load64 (store64 m a v) b = load64 m b"
proof (rule load64_cong)
  fix i :: nat assume "i < 8"
  have "unat (b + of_nat i) div 8 = unat b div 8"
    by (rule aligned_block [OF assms(2) _ \<open>i < 8\<close>]) simp
  also have "\<dots> \<noteq> unat a div 8" using aligned_eq_iff [OF assms(1,2)] assms(3) by auto
  finally have "\<not> unat (b + of_nat i - a) < 8"
    by (subst aligned_diff [OF assms(1)]) simp_all
  then show "store64 m a v (b + of_nat i) = m (b + of_nat i)" by (rule store64_outside)
qed

section \<open>Pages\<close>

definition PGSIZE :: nat where "PGSIZE = 4096"

definition KERNBASE :: addr where "KERNBASE = 0x80000000"

definition PHYSTOP :: addr where "PHYSTOP = KERNBASE + 128 * 1024 * 1024"

definition MAXVA :: addr where "MAXVA = push_bit (9 + 9 + 9 + 12 - 1) 1"

definition PGROUNDUP :: "addr \<Rightarrow> addr" where
  "PGROUNDUP sz = (sz + 4096 - 1) AND NOT (4096 - 1)"

definition PGROUNDDOWN :: "addr \<Rightarrow> addr" where
  "PGROUNDDOWN a = a AND NOT (4096 - 1)"

definition page_aligned :: "addr \<Rightarrow> bool" where
  "page_aligned a \<longleftrightarrow> unat a mod PGSIZE = 0"

text \<open>The number of the page an address is in.\<close>

definition page_no :: "addr \<Rightarrow> nat" where
  "page_no a = unat a div PGSIZE"

lemma PHYSTOP_eq: "PHYSTOP = 0x88000000"
  by (simp add: PHYSTOP_def KERNBASE_def)

lemma MAXVA_eq: "MAXVA = 0x4000000000"
  by (simp add: MAXVA_def)

lemma unat_PGROUNDDOWN: "unat (PGROUNDDOWN a) = PGSIZE * (unat a div PGSIZE)"
proof -
  have "PGROUNDDOWN a = a AND NOT (mask 12)" by (simp add: PGROUNDDOWN_def mask_eq_exp_minus_1)
  also have "\<dots> = push_bit 12 (drop_bit 12 a)"
    by (rule bit_eqI) (auto simp: bit_simps)
  finally have eq: "PGROUNDDOWN a = push_bit 12 (drop_bit 12 a)" .
  have "unat (drop_bit 12 a) = unat a div 4096"
    by (simp add: drop_bit_eq_div unat_div)
  moreover have "4096 * (unat a div 4096) < 2 ^ 64"
    using unat64_less [of a] times_div_less_eq_dividend [of 4096 "unat a"]
    by (metis le_less_trans)
  ultimately show ?thesis
    unfolding eq PGSIZE_def
    by (simp add: push_bit_eq_mult unat_word_ariths)
qed

lemma PGROUNDDOWN_aligned [simp]: "page_aligned (PGROUNDDOWN a)"
  by (simp add: page_aligned_def unat_PGROUNDDOWN)

lemma PGROUNDDOWN_page [simp]: "page_no (PGROUNDDOWN a) = page_no a"
  by (simp add: page_no_def unat_PGROUNDDOWN PGSIZE_def)

lemma PGROUNDUP_eq: "PGROUNDUP sz = PGROUNDDOWN (sz + 4095)"
  by (simp add: PGROUNDUP_def PGROUNDDOWN_def algebra_simps)

lemma unat_PGROUNDUP:
  assumes "unat sz + 4095 < 2 ^ 64"
  shows "unat (PGROUNDUP sz) = PGSIZE * ((unat sz + 4095) div PGSIZE)"
proof -
  have "unat (sz + 4095) = unat sz + 4095"
    using assms unat_add_of_nat [of sz 4095] by simp
  then show ?thesis by (simp add: PGROUNDUP_eq unat_PGROUNDDOWN)
qed

lemma PGROUNDUP_aligned [simp]: "page_aligned (PGROUNDUP a)"
  by (simp add: PGROUNDUP_eq)

lemma page_aligned_alt: "page_aligned a \<longleftrightarrow> aligned 4096 a"
  by (simp add: page_aligned_def aligned_def PGSIZE_def)

lemma page_dvd: "(4096::nat) dvd 2 ^ 64"
  by simp

lemma page_aligned_eq_iff: "page_aligned a \<Longrightarrow> page_aligned b \<Longrightarrow> a = b \<longleftrightarrow> page_no a = page_no b"
  unfolding page_aligned_alt page_no_def PGSIZE_def by (rule aligned_eq_iff)

lemma in_page_iff: "page_aligned p \<Longrightarrow> unat (a - p) < 4096 \<longleftrightarrow> page_no a = page_no p"
  unfolding page_aligned_alt page_no_def PGSIZE_def by (rule aligned_diff [OF _ page_dvd])

lemma page_no_add: "page_aligned p \<Longrightarrow> i < 4096 \<Longrightarrow> page_no (p + of_nat i) = page_no p"
  unfolding page_aligned_alt page_no_def PGSIZE_def by (rule aligned_block [OF _ page_dvd])

lemma unat_page_add: "page_aligned p \<Longrightarrow> i < 4096 \<Longrightarrow> unat (p + of_nat i) = unat p + i"
  unfolding page_aligned_alt by (rule aligned_add [OF _ page_dvd])

lemma page_aligned_8: "page_aligned p \<Longrightarrow> aligned 8 p"
proof -
  assume "page_aligned p"
  then have "4096 dvd unat p" by (auto simp: page_aligned_def PGSIZE_def)
  moreover have "(8::nat) dvd 4096" by simp
  ultimately have "8 dvd unat p" by (rule dvd_trans [rotated])
  then show "aligned 8 p" by (simp add: aligned_def)
qed

lemma page_aligned_unique:
  assumes "page_aligned p" shows "unat p = 4096 * page_no p"
  using assms by (auto simp: page_aligned_def page_no_def PGSIZE_def)

subsection \<open>Filling and copying pages\<close>

definition agree_outside :: "nat set \<Rightarrow> memory \<Rightarrow> memory \<Rightarrow> bool" where
  \<comment> \<open>the two memories agree on every page whose number is not in the set\<close>
  "agree_outside P m m' \<longleftrightarrow> (\<forall>a. page_no a \<notin> P \<longrightarrow> m' a = m a)"

lemma agree_outside_refl [simp]: "agree_outside P m m"
  by (simp add: agree_outside_def)

lemma agree_outside_trans:
  "agree_outside P m m' \<Longrightarrow> agree_outside Q m' m'' \<Longrightarrow> agree_outside (P \<union> Q) m m''"
  by (simp add: agree_outside_def)

lemma agree_outside_mono: "agree_outside P m m' \<Longrightarrow> P \<subseteq> Q \<Longrightarrow> agree_outside Q m m'"
  by (auto simp: agree_outside_def)

lemma agree_outside_memset:
  assumes "page_aligned p" "unat n \<le> 4096"
  shows "agree_outside {page_no p} m (memset m p c n)"
  using assms in_page_iff [OF assms(1)] unfolding agree_outside_def memset_apply
  by (metis order_less_le_trans singletonI)

lemma agree_outside_store64:
  assumes "aligned 8 a"
  shows "agree_outside {page_no a} m (store64 m a v)"
  unfolding agree_outside_def
proof (intro allI impI)
  fix b assume "page_no b \<notin> {page_no a}"
  then have "unat b div 8 \<noteq> unat a div 8"
    unfolding page_no_def PGSIZE_def
    by (metis (no_types, lifting) div_mult2_eq numeral_times_numeral semiring_norm(12,13) singletonI)
  then have "\<not> unat (b - a) < 8" by (subst aligned_diff [OF assms]) simp_all
  then show "store64 m a v b = m b" by (rule store64_outside)
qed

lemma page_no_add8:
  assumes "aligned 8 a" "i < 8"
  shows "page_no (a + of_nat i) = page_no a"
proof -
  have "unat (a + of_nat i) div 8 = unat a div 8" by (rule aligned_block [OF assms(1) _ assms(2)]) simp
  then show ?thesis
    unfolding page_no_def PGSIZE_def
    by (metis div_mult2_eq numeral_times_numeral semiring_norm(12,13))
qed

lemma load64_agree:
  assumes "agree_outside P m m'" "aligned 8 a" "page_no a \<notin> P"
  shows "load64 m' a = load64 m a"
  using assms page_no_add8 [OF assms(2)] by (intro load64_cong) (simp add: agree_outside_def)

end
