(* ===== verification/Xv6_Spinlock.thy ===== *)
theory Xv6_Spinlock
  imports Xv6_Prelude
begin

text \<open>
  Spin locks (\<open>kernel/spinlock.c\<close>) at two levels.

  The hart level is the code: the \<open>locked\<close> word and the recording \<open>cpu\<close> field of each lock,
  and the \<open>noff\<close>, \<open>intena\<close> and interrupt-enable flag of each hart. Every hart runs
  \<open>acquire\<close> and \<open>release\<close> one memory operation at a time, interleaved with all the others
  (\<open>smp_step\<close>): mutual exclusion, the correctness of the racy test in \<open>holding()\<close> and the
  discipline on interrupts are invariants of the reachable states.

  The thread level is what the other components use: the list of locks the running thread
  holds. \<open>acquire\<close> and \<open>release\<close> on that list panic exactly where the code panics, and its
  length is the hart's \<open>noff\<close>; the simulation of the hart level is proved here.
\<close>

datatype sleeplock_id = BufSleep nat | InodeSleep nat

datatype lockid =
    PidLock | WaitLock | KmemLock | BcacheLock | LogLock | ItableLock | FtableLock
  | ConsLock | TxLock | VdiskLock | TicksLock | PrLock
  | ProcLock nat | PipeLock addr | SleepLk sleeplock_id

section \<open>Harts and locks\<close>

record spinlock =
  locked :: uint32
  lk_name :: string
  lk_cpu :: "nat option"

record cpu =
  noff :: int
  intena :: bool

record smp =
  cpus :: "nat \<Rightarrow> cpu"
  sie :: "nat \<Rightarrow> bool"
  locks :: "lockid \<Rightarrow> spinlock"

definition initlock :: "lockid \<Rightarrow> string \<Rightarrow> smp \<Rightarrow> smp" where
  "initlock lk nm s =
     s\<lparr>locks := (locks s)(lk := \<lparr>locked = 0, lk_name = nm, lk_cpu = None\<rparr>)\<rparr>"

definition intr_get :: "nat \<Rightarrow> smp \<Rightarrow> bool" where
  "intr_get c s = sie s c"

definition intr_on :: "nat \<Rightarrow> smp \<Rightarrow> smp" where
  "intr_on c s = s\<lparr>sie := (sie s)(c := True)\<rparr>"

definition intr_off :: "nat \<Rightarrow> smp \<Rightarrow> smp" where
  "intr_off c s = s\<lparr>sie := (sie s)(c := False)\<rparr>"

definition holding :: "nat \<Rightarrow> lockid \<Rightarrow> smp \<Rightarrow> bool" where
  "holding c lk s \<longleftrightarrow> locked (locks s lk) \<noteq> 0 \<and> lk_cpu (locks s lk) = Some c"

definition push_off :: "nat \<Rightarrow> smp \<Rightarrow> smp" where
  "push_off c s =
     (let old = intr_get c s;
          s = intr_off c s;
          s = (if noff (cpus s c) = 0
               then s\<lparr>cpus := (cpus s)(c := (cpus s c)\<lparr>intena := old\<rparr>)\<rparr> else s)
      in s\<lparr>cpus := (cpus s)(c := (cpus s c)\<lparr>noff := noff (cpus s c) + 1\<rparr>)\<rparr>)"

definition pop_off :: "nat \<Rightarrow> smp \<Rightarrow> string + smp" where
  "pop_off c s =
     (if intr_get c s then Inl ''pop_off - interruptible''
      else if noff (cpus s c) < 1 then Inl ''pop_off''
      else (let s = s\<lparr>cpus := (cpus s)(c := (cpus s c)\<lparr>noff := noff (cpus s c) - 1\<rparr>)\<rparr>
            in Inr (if noff (cpus s c) = 0 \<and> intena (cpus s c) then intr_on c s else s)))"

text \<open>
  \<open>acquire\<close>: disabling interrupts and the \<open>holding\<close> test, one atomic swap of the spin loop
  (it stores 1 and returns the old value), and the recording of the owner.
\<close>

definition acquire_enter :: "nat \<Rightarrow> lockid \<Rightarrow> smp \<Rightarrow> string + smp" where
  "acquire_enter c lk s =
     (let s = push_off c s in if holding c lk s then Inl ''acquire'' else Inr s)"

definition acquire_swap :: "lockid \<Rightarrow> smp \<Rightarrow> uint32 \<times> smp" where
  "acquire_swap lk s =
     (locked (locks s lk), s\<lparr>locks := (locks s)(lk := (locks s lk)\<lparr>locked := 1\<rparr>)\<rparr>)"

definition acquire_record :: "nat \<Rightarrow> lockid \<Rightarrow> smp \<Rightarrow> smp" where
  "acquire_record c lk s = s\<lparr>locks := (locks s)(lk := (locks s lk)\<lparr>lk_cpu := Some c\<rparr>)\<rparr>"

text \<open>
  The whole of \<open>acquire\<close> by one hart while the others stand still: \<open>Inr None\<close> when the lock
  is taken, for then the swap never returns 0 and the loop spins.
\<close>

definition hart_acquire :: "nat \<Rightarrow> lockid \<Rightarrow> smp \<Rightarrow> string + smp option" where
  "hart_acquire c lk s =
     (case acquire_enter c lk s of
        Inl p \<Rightarrow> Inl p
      | Inr s \<Rightarrow> (case acquire_swap lk s of
          (old, s) \<Rightarrow> if old \<noteq> 0 then Inr None else Inr (Some (acquire_record c lk s))))"

text \<open>\<open>release\<close>: the \<open>holding\<close> test and the clearing of the owner, the store, \<open>pop_off\<close>.\<close>

definition release_clear :: "nat \<Rightarrow> lockid \<Rightarrow> smp \<Rightarrow> string + smp" where
  "release_clear c lk s =
     (if \<not> holding c lk s then Inl ''release''
      else Inr (s\<lparr>locks := (locks s)(lk := (locks s lk)\<lparr>lk_cpu := None\<rparr>)\<rparr>))"

definition release_store :: "lockid \<Rightarrow> smp \<Rightarrow> smp" where
  "release_store lk s = s\<lparr>locks := (locks s)(lk := (locks s lk)\<lparr>locked := 0\<rparr>)\<rparr>"

definition hart_release :: "nat \<Rightarrow> lockid \<Rightarrow> smp \<Rightarrow> string + smp" where
  "hart_release c lk s =
     (case release_clear c lk s of Inl p \<Rightarrow> Inl p | Inr s \<Rightarrow> pop_off c (release_store lk s))"

lemmas hart_defs = intr_get_def intr_on_def intr_off_def push_off_def pop_off_def holding_def
  acquire_enter_def acquire_swap_def acquire_record_def release_clear_def release_store_def

section \<open>Interleaved harts\<close>

text \<open>
  Where each hart is: outside (\<open>Run\<close>), in the swap loop, past the swap and before the
  recording, past the clearing of the owner and before the store, past the store and
  before \<open>pop_off\<close>.
\<close>

datatype pc = Run | Spin lockid | Got lockid | Rel lockid | Unl

inductive smp_step :: "(nat \<Rightarrow> pc) \<times> smp \<Rightarrow> (nat \<Rightarrow> pc) \<times> smp \<Rightarrow> bool" where
  enter: "pcs c = Run \<Longrightarrow> acquire_enter c lk s = Inr s' \<Longrightarrow> smp_step (pcs, s) (pcs(c := Spin lk), s')"
| spin: "pcs c = Spin lk \<Longrightarrow> acquire_swap lk s = (old, s') \<Longrightarrow> old \<noteq> 0 \<Longrightarrow> smp_step (pcs, s) (pcs, s')"
| swap: "pcs c = Spin lk \<Longrightarrow> acquire_swap lk s = (0, s') \<Longrightarrow> smp_step (pcs, s) (pcs(c := Got lk), s')"
| rec: "pcs c = Got lk \<Longrightarrow> smp_step (pcs, s) (pcs(c := Run), acquire_record c lk s)"
| clear: "pcs c = Run \<Longrightarrow> release_clear c lk s = Inr s' \<Longrightarrow> smp_step (pcs, s) (pcs(c := Rel lk), s')"
| store: "pcs c = Rel lk \<Longrightarrow> smp_step (pcs, s) (pcs(c := Unl), release_store lk s)"
| pop: "pcs c = Unl \<Longrightarrow> pop_off c s = Inr s' \<Longrightarrow> smp_step (pcs, s) (pcs(c := Run), s')"
| irq_on: "pcs c = Run \<Longrightarrow> noff (cpus s c) = 0 \<Longrightarrow> smp_step (pcs, s) (pcs, intr_on c s)"
| irq_off: "pcs c = Run \<Longrightarrow> noff (cpus s c) = 0 \<Longrightarrow> smp_step (pcs, s) (pcs, intr_off c s)"

definition smp_init :: "(nat \<Rightarrow> pc) \<times> smp \<Rightarrow> bool" where
  "smp_init ps \<longleftrightarrow> (\<forall>c. fst ps c = Run \<and> noff (cpus (snd ps) c) = 0) \<and>
     (\<forall>lk. locked (locks (snd ps) lk) = 0 \<and> lk_cpu (locks (snd ps) lk) = None)"

inductive smp_reachable :: "(nat \<Rightarrow> pc) \<times> smp \<Rightarrow> bool" where
  init: "smp_init ps \<Longrightarrow> smp_reachable ps"
| step: "smp_reachable ps \<Longrightarrow> smp_step ps ps' \<Longrightarrow> smp_reachable ps'"

text \<open>A hart is inside the critical section from its successful swap to its store of 0.\<close>

definition in_crit :: "nat \<Rightarrow> lockid \<Rightarrow> (nat \<Rightarrow> pc) \<times> smp \<Rightarrow> bool" where
  "in_crit c lk ps \<longleftrightarrow> lk_cpu (locks (snd ps) lk) = Some c \<or> fst ps c = Got lk \<or> fst ps c = Rel lk"

definition held_by :: "nat \<Rightarrow> smp \<Rightarrow> lockid set" where
  "held_by c s = {lk. lk_cpu (locks s lk) = Some c}"

definition pc_extra :: "pc \<Rightarrow> int" where
  "pc_extra p = (if p = Run then 0 else 1)"

definition lock_inv :: "(nat \<Rightarrow> pc) \<times> smp \<Rightarrow> bool" where
  "lock_inv ps \<longleftrightarrow>
     (\<forall>c d lk. in_crit c lk ps \<longrightarrow> in_crit d lk ps \<longrightarrow> c = d) \<and>
     (\<forall>c lk. in_crit c lk ps \<longrightarrow> locked (locks (snd ps) lk) \<noteq> 0) \<and>
     (\<forall>c lk. lk_cpu (locks (snd ps) lk) = Some c \<longrightarrow> fst ps c \<noteq> Got lk \<and> fst ps c \<noteq> Rel lk)"

definition irq_inv :: "(nat \<Rightarrow> pc) \<times> smp \<Rightarrow> bool" where
  "irq_inv ps \<longleftrightarrow>
     (\<forall>c. finite (held_by c (snd ps)) \<and>
          noff (cpus (snd ps) c) = int (card (held_by c (snd ps))) + pc_extra (fst ps c) \<and>
          (noff (cpus (snd ps) c) \<noteq> 0 \<longrightarrow> \<not> sie (snd ps) c))"

lemma lock_inv_init: "smp_init ps \<Longrightarrow> lock_inv ps"
  by (auto simp: lock_inv_def in_crit_def smp_init_def)

text \<open>
  A step keeps the lock invariant when it puts nobody new into a critical section, unlocks no
  lock whose section is occupied, and records no hart that is at \<open>Got\<close> or \<open>Rel\<close>.
\<close>

lemma lock_invI:
  assumes "lock_inv ps"
    and "\<And>d l. in_crit d l ps' \<Longrightarrow> in_crit d l ps"
    and "\<And>d l. in_crit d l ps' \<Longrightarrow> locked (locks (snd ps') l) = 0 \<Longrightarrow> locked (locks (snd ps) l) = 0"
    and "\<And>d l. lk_cpu (locks (snd ps') l) = Some d \<Longrightarrow> fst ps' d \<noteq> Got l \<and> fst ps' d \<noteq> Rel l"
  shows "lock_inv ps'"
  using assms unfolding lock_inv_def by blast

lemma lock_inv_unique: "lock_inv ps \<Longrightarrow> in_crit c lk ps \<Longrightarrow> in_crit d lk ps \<Longrightarrow> c = d"
  unfolding lock_inv_def by blast

lemma lock_inv_locked: "lock_inv ps \<Longrightarrow> in_crit c lk ps \<Longrightarrow> locked (locks (snd ps) lk) \<noteq> 0"
  unfolding lock_inv_def by blast

lemma lock_inv_rec:
  "lock_inv ps \<Longrightarrow> lk_cpu (locks (snd ps) lk) = Some c \<Longrightarrow> fst ps c \<noteq> Got lk \<and> fst ps c \<noteq> Rel lk"
  unfolding lock_inv_def by blast

lemma push_off_locks [simp]: "locks (push_off c s) = locks s"
  by (simp add: push_off_def intr_off_def Let_def)

lemma acquire_enter_locks: "acquire_enter c lk s = Inr s' \<Longrightarrow> locks s' = locks s"
  by (auto simp: acquire_enter_def Let_def split: if_splits)

lemma pop_off_locks: "pop_off c s = Inr s' \<Longrightarrow> locks s' = locks s"
  by (auto simp: pop_off_def intr_on_def Let_def split: if_splits)

lemma lock_inv_step_enter:
  assumes "lock_inv (pcs, s)" "pcs c = p" "\<And>l. p \<noteq> Got l \<and> p \<noteq> Rel l"
    "\<And>l. q \<noteq> Got l \<and> q \<noteq> Rel l" "locks s' = locks s"
  shows "lock_inv (pcs(c := q), s')"
proof (rule lock_invI [OF assms(1)])
  fix d l
  show "in_crit d l (pcs(c := q), s') \<Longrightarrow> in_crit d l (pcs, s)"
    using assms(2-5) by (auto simp: in_crit_def split: if_splits)
  show "locked (locks (snd (pcs(c := q), s')) l) = 0 \<Longrightarrow> locked (locks (snd (pcs, s)) l) = 0"
    using assms(5) by simp
  show "lk_cpu (locks (snd (pcs(c := q), s')) l) = Some d \<Longrightarrow>
      fst (pcs(c := q), s') d \<noteq> Got l \<and> fst (pcs(c := q), s') d \<noteq> Rel l"
    using assms(4,5) lock_inv_rec [OF assms(1), of l d] by auto
qed

lemma lock_inv_step_swap:
  assumes inv: "lock_inv (pcs, s)" and "pcs c = Spin lk" and sw: "acquire_swap lk s = (0, s')"
  shows "lock_inv (pcs(c := Got lk), s')"
proof -
  have free: "\<not> in_crit d lk (pcs, s)" for d
    using lock_inv_locked [OF inv, of d lk] sw by (auto simp: acquire_swap_def)
  have crit: "in_crit d l (pcs(c := Got lk), s') \<longleftrightarrow> in_crit d l (pcs, s) \<or> d = c \<and> l = lk" for d l
    using sw assms(2) by (auto simp: in_crit_def acquire_swap_def split: if_splits)
  have "locked (locks s' l) \<noteq> 0" if "in_crit d l (pcs(c := Got lk), s')" for d l
    using that lock_inv_locked [OF inv, of d l] sw unfolding crit
    by (auto simp: acquire_swap_def split: if_splits)
  moreover have "d = e"
    if "in_crit d l (pcs(c := Got lk), s')" "in_crit e l (pcs(c := Got lk), s')" for d e l
    using that lock_inv_unique [OF inv, of d l e] free unfolding crit by blast
  moreover have "(pcs(c := Got lk)) d \<noteq> Got l \<and> (pcs(c := Got lk)) d \<noteq> Rel l"
    if "lk_cpu (locks s' l) = Some d" for d l
  proof -
    from that sw have old: "lk_cpu (locks s l) = Some d"
      by (auto simp: acquire_swap_def split: if_splits)
    then have "l \<noteq> lk" using free [of d] by (auto simp: in_crit_def)
    then show ?thesis using lock_inv_rec [OF inv, of l d] old by auto
  qed
  ultimately show ?thesis unfolding lock_inv_def by simp
qed

lemma lock_inv_step_rec:
  assumes inv: "lock_inv (pcs, s)" and pc: "pcs c = Got lk"
  shows "lock_inv (pcs(c := Run), acquire_record c lk s)"
proof (rule lock_invI [OF inv])
  fix d l
  show "in_crit d l (pcs(c := Run), acquire_record c lk s) \<Longrightarrow> in_crit d l (pcs, s)"
    using pc by (auto simp: in_crit_def acquire_record_def split: if_splits)
  show "locked (locks (snd (pcs(c := Run), acquire_record c lk s)) l) = 0 \<Longrightarrow>
      locked (locks (snd (pcs, s)) l) = 0"
    by (auto simp: acquire_record_def split: if_splits)
  show "lk_cpu (locks (snd (pcs(c := Run), acquire_record c lk s)) l) = Some d \<Longrightarrow>
      fst (pcs(c := Run), acquire_record c lk s) d \<noteq> Got l \<and>
      fst (pcs(c := Run), acquire_record c lk s) d \<noteq> Rel l"
    using lock_inv_rec [OF inv, of l d] by (auto simp: acquire_record_def split: if_splits)
qed

lemma lock_inv_step_clear:
  assumes inv: "lock_inv (pcs, s)" and pc: "pcs c = Run" and cl: "release_clear c lk s = Inr s'"
  shows "lock_inv (pcs(c := Rel lk), s')"
proof (rule lock_invI [OF inv])
  from cl have h: "lk_cpu (locks s lk) = Some c"
      and s': "s' = s\<lparr>locks := (locks s)(lk := (locks s lk)\<lparr>lk_cpu := None\<rparr>)\<rparr>"
    by (auto simp: release_clear_def holding_def split: if_splits)
  fix d l
  show "in_crit d l (pcs(c := Rel lk), s') \<Longrightarrow> in_crit d l (pcs, s)"
    using pc h s' by (auto simp: in_crit_def split: if_splits)
  show "locked (locks (snd (pcs(c := Rel lk), s')) l) = 0 \<Longrightarrow> locked (locks (snd (pcs, s)) l) = 0"
    using s' by (auto split: if_splits)
  show "lk_cpu (locks (snd (pcs(c := Rel lk), s')) l) = Some d \<Longrightarrow>
      fst (pcs(c := Rel lk), s') d \<noteq> Got l \<and> fst (pcs(c := Rel lk), s') d \<noteq> Rel l"
    using lock_inv_rec [OF inv, of l d] s' by (auto split: if_splits)
qed

lemma lock_inv_step_store:
  assumes inv: "lock_inv (pcs, s)" and pc: "pcs c = Rel lk"
  shows "lock_inv (pcs(c := Unl), release_store lk s)"
proof (rule lock_invI [OF inv])
  fix d l
  have mine: "in_crit c lk (pcs, s)" using pc by (simp add: in_crit_def)
  show crit: "in_crit d l (pcs, s)" if "in_crit d l (pcs(c := Unl), release_store lk s)"
    using that pc by (auto simp: in_crit_def release_store_def split: if_splits)
  show "locked (locks (snd (pcs, s)) l) = 0"
    if c: "in_crit d l (pcs(c := Unl), release_store lk s)"
      and "locked (locks (snd (pcs(c := Unl), release_store lk s)) l) = 0"
  proof (cases "l = lk")
    case True
    then have "d = c" using lock_inv_unique [OF inv mine, of d] crit [OF c] by simp
    with c True lock_inv_rec [OF inv, of lk c] pc show ?thesis
      by (auto simp: in_crit_def release_store_def)
  next
    case False
    with that(2) show ?thesis by (simp add: release_store_def)
  qed
  show "lk_cpu (locks (snd (pcs(c := Unl), release_store lk s)) l) = Some d \<Longrightarrow>
      fst (pcs(c := Unl), release_store lk s) d \<noteq> Got l \<and>
      fst (pcs(c := Unl), release_store lk s) d \<noteq> Rel l"
    using lock_inv_rec [OF inv, of l d] by (auto simp: release_store_def split: if_splits)
qed

lemma lock_inv_step: "smp_step ps ps' \<Longrightarrow> lock_inv ps \<Longrightarrow> lock_inv ps'"
proof (induction rule: smp_step.induct)
  case (enter pcs c lk s s')
  then show ?case by (intro lock_inv_step_enter [where p = Run]) (simp_all add: acquire_enter_locks)
next
  case (spin pcs c lk s old s')
  then show ?case
    by (intro lock_invI [OF spin.prems])
      (auto simp: acquire_swap_def in_crit_def dest: lock_inv_rec split: if_splits)
next
  case (swap pcs c lk s s')
  then show ?case by (intro lock_inv_step_swap)
next
  case (rec pcs c lk s)
  then show ?case by (intro lock_inv_step_rec)
next
  case (clear pcs c lk s s')
  then show ?case by (intro lock_inv_step_clear)
next
  case (store pcs c lk s)
  then show ?case by (intro lock_inv_step_store)
next
  case (pop pcs c s s')
  then show ?case by (intro lock_inv_step_enter [where p = Unl]) (simp_all add: pop_off_locks)
next
  case (irq_on pcs c s)
  then show ?case
    using lock_inv_step_enter [of pcs s c Run Run "intr_on c s"] by (simp add: intr_on_def fun_upd_idem)
next
  case (irq_off pcs c s)
  then show ?case
    using lock_inv_step_enter [of pcs s c Run Run "intr_off c s"] by (simp add: intr_off_def fun_upd_idem)
qed

lemma smp_reachable_lock_inv: "smp_reachable ps \<Longrightarrow> lock_inv ps"
  by (induction rule: smp_reachable.induct) (auto intro: lock_inv_init lock_inv_step)

subsection \<open>The interrupt discipline\<close>

lemma irq_inv_init: "smp_init ps \<Longrightarrow> irq_inv ps"
  by (simp add: irq_inv_def smp_init_def held_by_def pc_extra_def)

lemma irq_invI:
  assumes "irq_inv (pcs, s)"
    and "\<And>d. d \<noteq> c \<Longrightarrow> cpus s' d = cpus s d \<and> sie s' d = sie s d \<and> held_by d s' = held_by d s"
    and "finite (held_by c s')"
    and "noff (cpus s' c) = int (card (held_by c s')) + pc_extra q"
    and "noff (cpus s' c) \<noteq> 0 \<Longrightarrow> \<not> sie s' c"
  shows "irq_inv (pcs(c := q), s')"
  using assms unfolding irq_inv_def by auto

lemma irq_invD:
  assumes "irq_inv (pcs, s)"
  shows "finite (held_by c s)" "noff (cpus s c) = int (card (held_by c s)) + pc_extra (pcs c)"
    "noff (cpus s c) \<noteq> 0 \<Longrightarrow> \<not> sie s c"
  using assms unfolding irq_inv_def by auto

lemma held_by_locks: "locks s' = locks s \<Longrightarrow> held_by c s' = held_by c s"
  by (simp add: held_by_def)

lemma held_by_record:
  assumes "lk_cpu (locks s lk) = None"
  shows "held_by d (acquire_record c lk s) = (if d = c then insert lk (held_by c s) else held_by d s)"
  using assms by (auto simp: held_by_def acquire_record_def split: if_splits)

lemma held_by_clear:
  assumes "release_clear c lk s = Inr s'"
  shows "held_by d s' = (if d = c then held_by c s - {lk} else held_by d s)"
    and "lk \<in> held_by c s" "cpus s' = cpus s" "sie s' = sie s"
  using assms by (auto simp: held_by_def release_clear_def holding_def split: if_splits)

lemma push_off_effect:
  "d \<noteq> c \<Longrightarrow> cpus (push_off c s) d = cpus s d"
  "sie (push_off c s) = (sie s)(c := False)"
  "noff (cpus (push_off c s) c) = noff (cpus s c) + 1"
  by (simp_all add: push_off_def intr_off_def Let_def)

lemma pop_off_effect:
  assumes "pop_off c s = Inr s'"
  shows "\<And>d. d \<noteq> c \<Longrightarrow> cpus s' d = cpus s d \<and> sie s' d = sie s d"
    and "noff (cpus s' c) = noff (cpus s c) - 1"
    and "sie s' c \<Longrightarrow> noff (cpus s' c) = 0"
  using assms by (auto simp: pop_off_def intr_on_def intr_get_def Let_def split: if_splits)

lemma irq_inv_step:
  assumes "smp_step ps ps'" "irq_inv ps" "lock_inv ps"
  shows "irq_inv ps'"
  using assms
proof (induction rule: smp_step.induct)
  case (enter pcs c lk s s')
  then have s': "s' = push_off c s" by (auto simp: acquire_enter_def Let_def split: if_splits)
  show ?case
    using irq_invD [OF enter.prems(1), of c] enter.hyps(1) held_by_locks [of "push_off c s" s]
    by (intro irq_invI [OF enter.prems(1)]) (simp_all add: s' push_off_effect pc_extra_def)
next
  case (spin pcs c lk s old s')
  have hb: "held_by d s' = held_by d s" for d
    using spin.hyps(2) by (auto simp: acquire_swap_def held_by_def split: if_splits)
  have "cpus s' = cpus s" "sie s' = sie s" using spin.hyps(2) by (auto simp: acquire_swap_def)
  then show ?case using spin.prems(1) by (simp add: irq_inv_def hb)
next
  case (swap pcs c lk s s')
  have "held_by d s' = held_by d s" for d
    using swap.hyps(2) by (auto simp: acquire_swap_def held_by_def split: if_splits)
  moreover have "cpus s' = cpus s" "sie s' = sie s" using swap.hyps(2) by (auto simp: acquire_swap_def)
  ultimately show ?case
    using irq_invD [OF swap.prems(1), of c] swap.hyps(1)
    by (intro irq_invI [OF swap.prems(1)]) (simp_all add: pc_extra_def)
next
  case (rec pcs c lk s)
  have mine: "in_crit c lk (pcs, s)" using rec.hyps by (simp add: in_crit_def)
  have none: "lk_cpu (locks s lk) = None"
  proof (cases "lk_cpu (locks s lk)")
    case (Some d)
    then have "in_crit d lk (pcs, s)" by (simp add: in_crit_def)
    then have "d = c" using lock_inv_unique [OF rec.prems(2) mine] by simp
    with Some rec.hyps lock_inv_rec [OF rec.prems(2), of lk c] show ?thesis by simp
  qed simp
  then have "lk \<notin> held_by c s" by (simp add: held_by_def)
  moreover have "cpus (acquire_record c lk s) = cpus s" "sie (acquire_record c lk s) = sie s"
    by (simp_all add: acquire_record_def)
  ultimately show ?case
    using irq_invD [OF rec.prems(1), of c] rec.hyps
    by (intro irq_invI [OF rec.prems(1)]) (simp_all add: held_by_record [OF none] pc_extra_def)
next
  case (clear pcs c lk s s')
  note hc = held_by_clear [OF clear.hyps(2)]
  have "card (held_by c s) = Suc (card (held_by c s - {lk}))"
    by (rule card.remove [OF irq_invD(1) [OF clear.prems(1)] hc(2)])
  then show ?case
    using irq_invD [OF clear.prems(1), of c] clear.hyps(1)
    by (intro irq_invI [OF clear.prems(1)]) (simp_all add: hc(1,3,4) pc_extra_def)
next
  case (store pcs c lk s)
  have "held_by d (release_store lk s) = held_by d s" for d
    by (auto simp: release_store_def held_by_def split: if_splits)
  then show ?case
    using irq_invD [OF store.prems(1), of c] store.hyps
    by (intro irq_invI [OF store.prems(1)]) (simp_all add: release_store_def pc_extra_def)
next
  case (pop pcs c s s')
  note eff = pop_off_effect [OF pop.hyps(2)] and hb = held_by_locks [OF pop_off_locks [OF pop.hyps(2)]]
  show ?case
    using irq_invD [OF pop.prems(1), of c] pop.hyps(1) eff
    by (intro irq_invI [OF pop.prems(1)]) (auto simp: hb pc_extra_def)
next
  case (irq_on pcs c s)
  then show ?case by (auto simp: irq_inv_def intr_on_def held_by_def)
next
  case (irq_off pcs c s)
  then show ?case by (auto simp: irq_inv_def intr_off_def held_by_def)
qed

lemma smp_reachable_irq_inv: "smp_reachable ps \<Longrightarrow> irq_inv ps"
  by (induction rule: smp_reachable.induct)
    (auto intro: irq_inv_init irq_inv_step dest: smp_reachable_lock_inv)

section \<open>The thread's view\<close>

text \<open>
  The base record of the kernel state: the locks the running thread holds, last acquired
  first, and the console log of the kernel's \<open>printf\<close> calls (format and integer arguments).
\<close>

record kthread =
  held :: "lockid list"
  kout :: "(string \<times> int list) list"

definition acquire :: "lockid \<Rightarrow> ('z kthread_scheme, unit) km" where
  "acquire lk =
     kthen (kpanic_if (\<lambda>s. lk \<in> set (held s)) ''acquire'')
           (kmod (\<lambda>s. s\<lparr>held := lk # held s\<rparr>))"

definition release :: "lockid \<Rightarrow> ('z kthread_scheme, unit) km" where
  "release lk =
     kthen (kpanic_if (\<lambda>s. lk \<notin> set (held s)) ''release'')
           (kmod (\<lambda>s. s\<lparr>held := remove1 lk (held s)\<rparr>))"

text \<open>\<open>initlock\<close> as the running thread sees it: the lock is free.\<close>

definition klock_init :: "lockid \<Rightarrow> ('z kthread_scheme, unit) km" where
  "klock_init lk = kmod (\<lambda>s. s\<lparr>held := removeAll lk (held s)\<rparr>)"

definition kprintf :: "string \<Rightarrow> int list \<Rightarrow> ('z kthread_scheme, unit) km" where
  "kprintf fmt args = kmod (\<lambda>s. s\<lparr>kout := kout s @ [(fmt, args)]\<rparr>)"

lemma acquire_Ok [simp]: "lk \<notin> set (held s) \<Longrightarrow> acquire lk es s = Ok () (s\<lparr>held := lk # held s\<rparr>) es"
  by (simp add: acquire_def)

lemma acquire_Panic [simp]: "lk \<in> set (held s) \<Longrightarrow> acquire lk es s = Panic ''acquire''"
  by (simp add: acquire_def)

lemma release_Ok [simp]:
  "lk \<in> set (held s) \<Longrightarrow> release lk es s = Ok () (s\<lparr>held := remove1 lk (held s)\<rparr>) es"
  by (simp add: release_def)

lemma release_Panic [simp]: "lk \<notin> set (held s) \<Longrightarrow> release lk es s = Panic ''release''"
  by (simp add: release_def)

lemma kprintf_Ok [simp]: "kprintf f xs es s = Ok () (s\<lparr>kout := kout s @ [(f, xs)]\<rparr>) es"
  by (simp add: kprintf_def)

lemma acquire_OkE:
  assumes "acquire lk es s = Ok x s' es'"
  obtains "lk \<notin> set (held s)" "s' = s\<lparr>held := lk # held s\<rparr>" "es' = es"
  using assms by (cases "lk \<in> set (held s)") auto

lemma release_OkE:
  assumes "release lk es s = Ok x s' es'"
  obtains "lk \<in> set (held s)" "s' = s\<lparr>held := remove1 lk (held s)\<rparr>" "es' = es"
  using assms by (cases "lk \<in> set (held s)") auto

text \<open>The hart \<open>c\<close> and the thread it runs agree on what is held.\<close>

definition thread_sim :: "nat \<Rightarrow> smp \<Rightarrow> lockid list \<Rightarrow> bool" where
  "thread_sim c s hs \<longleftrightarrow> distinct hs \<and> set hs = {lk. holding c lk s} \<and>
     noff (cpus s c) = int (length hs) \<and> (hs \<noteq> [] \<longrightarrow> \<not> sie s c)"

lemma holding_push_off [simp]: "holding d lk (push_off c s) = holding d lk s"
  by (simp add: holding_def)

lemma thread_sim_acquire:
  assumes "thread_sim c s hs"
  shows "case hart_acquire c lk s of
      Inl p \<Rightarrow> lk \<in> set hs \<and> p = ''acquire''
    | Inr None \<Rightarrow> locked (locks s lk) \<noteq> 0 \<and> lk \<notin> set hs
    | Inr (Some s') \<Rightarrow> lk \<notin> set hs \<and> thread_sim c s' (lk # hs)"
proof (cases "holding c lk s")
  case True
  with assms show ?thesis by (simp add: hart_acquire_def acquire_enter_def thread_sim_def)
next
  case False
  show ?thesis
  proof (cases "locked (locks s lk) = 0")
    case locked0: True
    let ?s = "acquire_record c lk (snd (acquire_swap lk (push_off c s)))"
    have "hart_acquire c lk s = Inr (Some ?s)"
      using False locked0 by (simp add: hart_acquire_def acquire_enter_def acquire_swap_def)
    moreover have "{l. holding c l ?s} = insert lk {l. holding c l s}"
      by (auto simp: holding_def acquire_record_def acquire_swap_def)
    moreover have "noff (cpus ?s c) = noff (cpus s c) + 1" "\<not> sie ?s c"
      by (simp_all add: acquire_record_def acquire_swap_def push_off_effect)
    ultimately show ?thesis using assms False by (simp add: thread_sim_def)
  next
    case locked1: False
    then have "hart_acquire c lk s = Inr None"
      using False by (simp add: hart_acquire_def acquire_enter_def acquire_swap_def)
    with assms False locked1 show ?thesis by (simp add: thread_sim_def)
  qed
qed

lemma thread_sim_release:
  assumes "thread_sim c s hs"
  shows "case hart_release c lk s of
      Inl p \<Rightarrow> lk \<notin> set hs \<and> p = ''release''
    | Inr s' \<Rightarrow> lk \<in> set hs \<and> thread_sim c s' (remove1 lk hs)"
proof (cases "holding c lk s")
  case False
  with assms show ?thesis by (simp add: hart_release_def release_clear_def thread_sim_def)
next
  case True
  let ?r = "release_store lk (s\<lparr>locks := (locks s)(lk := (locks s lk)\<lparr>lk_cpu := None\<rparr>)\<rparr>)"
  have hs: "lk \<in> set hs" "hs \<noteq> []" "distinct hs" and set: "set hs = {l. holding c l s}"
    and noff: "noff (cpus s c) = int (length hs)" and off: "\<not> sie s c"
    using assms True by (auto simp: thread_sim_def)
  have r: "cpus ?r = cpus s" "sie ?r = sie s" by (simp_all add: release_store_def)
  have held: "holding c l ?r \<longleftrightarrow> l \<noteq> lk \<and> holding c l s" for l
    by (simp add: release_store_def holding_def)
  obtain s' where pop: "pop_off c ?r = Inr s'"
    using hs(2) noff off r by (auto simp: pop_off_def intr_get_def Let_def)
  have "hart_release c lk s = Inr s'"
    using True pop by (simp add: hart_release_def release_clear_def)
  moreover have "{l. holding c l s'} = set hs - {lk}"
    using held set pop_off_locks [OF pop] by (auto simp: holding_def)
  moreover have "noff (cpus s' c) = int (length hs) - 1"
    using pop_off_effect(2) [OF pop] r noff by simp
  moreover have "length (remove1 lk hs) = length hs - 1" "length hs > 0"
    using hs by (simp_all add: length_remove1)
  moreover have "remove1 lk hs \<noteq> [] \<longrightarrow> \<not> sie s' c"
    using pop_off_effect(3) [OF pop] calculation(3-5) by auto
  moreover have "int (length hs - 1) = int (length hs) - 1" using hs(2) by (cases hs) simp_all
  ultimately show ?thesis using hs by (simp add: thread_sim_def)
qed

section \<open>Nesting of push\_off and pop\_off\<close>

fun push_offs :: "nat \<Rightarrow> nat \<Rightarrow> smp \<Rightarrow> smp" where
  "push_offs c 0 s = s"
| "push_offs c (Suc n) s = push_offs c n (push_off c s)"

fun pop_offs :: "nat \<Rightarrow> nat \<Rightarrow> smp \<Rightarrow> string + smp" where
  "pop_offs c 0 s = Inr s"
| "pop_offs c (Suc n) s = (case pop_off c s of Inl p \<Rightarrow> Inl p | Inr s' \<Rightarrow> pop_offs c n s')"

lemma push_offs_effect:
  assumes "0 < noff (cpus s c)" "\<not> sie s c"
  shows "noff (cpus (push_offs c n s) c) = noff (cpus s c) + int n \<and>
    \<not> sie (push_offs c n s) c \<and> intena (cpus (push_offs c n s) c) = intena (cpus s c)"
  using assms
proof (induction n arbitrary: s)
  case (Suc n)
  have "intena (cpus (push_off c s) c) = intena (cpus s c)"
    using Suc.prems(1) by (simp add: push_off_def intr_off_def Let_def)
  then show ?case using Suc.IH [of "push_off c s"] Suc.prems by (simp add: push_off_effect)
qed simp

lemma pop_offs_effect:
  assumes "int n \<le> noff (cpus s c)" "\<not> sie s c"
  shows "\<exists>s'. pop_offs c n s = Inr s' \<and> noff (cpus s' c) = noff (cpus s c) - int n \<and>
    sie s' c = (0 < n \<and> int n = noff (cpus s c) \<and> intena (cpus s c)) \<and>
    intena (cpus s' c) = intena (cpus s c)"
  using assms
proof (induction n arbitrary: s)
  case (Suc n)
  then obtain s1 where pop: "pop_off c s = Inr s1"
    by (auto simp: pop_off_def intr_get_def Let_def)
  have s1: "noff (cpus s1 c) = noff (cpus s c) - 1" "intena (cpus s1 c) = intena (cpus s c)"
    "sie s1 c = (noff (cpus s c) = 1 \<and> intena (cpus s c))"
    using pop Suc.prems(2)
    by (auto simp: pop_off_def intr_get_def intr_on_def Let_def split: if_splits)
  show ?case
  proof (cases "n = 0")
    case True
    then show ?thesis using pop s1 by auto
  next
    case False
    then have "int n \<le> noff (cpus s1 c)" "\<not> sie s1 c" using Suc.prems(1) s1 by auto
    from Suc.IH [OF this] show ?thesis using pop s1 False by auto
  qed
qed simp

section \<open>Properties\<close>

text \<open>
  C3: mutual exclusion. However the harts interleave their acquire and release sequences,
  at most one of them is between its successful swap on a lock and its store of 0 to it.
\<close>

theorem spinlock_mutual_exclusion:
  assumes "smp_reachable ps" "in_crit c lk ps" "in_crit d lk ps"
  shows "c = d"
  using smp_reachable_lock_inv [OF assms(1)] assms(2,3) by (rule lock_inv_unique)

definition smp_boot :: "(nat \<Rightarrow> pc) \<times> smp" where
  "smp_boot = (\<lambda>_. Run, \<lparr>cpus = \<lambda>_. \<lparr>noff = 0, intena = False\<rparr>, sie = \<lambda>_. True,
     locks = \<lambda>_. \<lparr>locked = 0, lk_name = ''x'', lk_cpu = None\<rparr>\<rparr>)"

text \<open>Hart 0 has entered and won the swap on the allocator's lock.\<close>

definition smp_won :: "(nat \<Rightarrow> pc) \<times> smp" where
  "smp_won = ((fst smp_boot)(0 := Spin KmemLock, 0 := Got KmemLock),
     snd (acquire_swap KmemLock (push_off 0 (snd smp_boot))))"

lemma smp_won_reachable: "smp_reachable smp_won"
proof -
  have "smp_reachable smp_boot" by (rule smp_reachable.init) (simp add: smp_init_def smp_boot_def)
  moreover have "smp_step (fst smp_boot, snd smp_boot)
      ((fst smp_boot)(0 := Spin KmemLock), push_off 0 (snd smp_boot))"
    by (rule smp_step.enter) (simp_all add: smp_boot_def acquire_enter_def holding_def)
  ultimately have "smp_reachable ((fst smp_boot)(0 := Spin KmemLock), push_off 0 (snd smp_boot))"
    using smp_reachable.step by auto
  then show ?thesis unfolding smp_won_def
    by (rule smp_reachable.step)
      (rule smp_step.swap, simp_all add: acquire_swap_def smp_boot_def)
qed

theorem spinlock_mutual_exclusion_witness:
  "smp_reachable smp_won \<and> in_crit 0 KmemLock smp_won \<and> \<not> in_crit 1 KmemLock smp_won"
proof -
  have c: "in_crit 0 KmemLock smp_won" by (simp add: in_crit_def smp_won_def)
  then show ?thesis
    using smp_won_reachable spinlock_mutual_exclusion [OF smp_won_reachable c, of 1] by auto
qed

text \<open>
  C4: the interrupt discipline. In every reachable state a hart that is inside a critical
  section, or spinning for one, has its interrupts disabled; its \<open>noff\<close> counts the locks it
  holds plus the acquire or release it is in the middle of; and the \<open>pop_off\<close> that ends a
  \<open>release\<close> never panics.
\<close>

theorem spinlock_interrupts_off:
  assumes "smp_reachable ps"
  shows "(in_crit c lk ps \<or> fst ps c \<noteq> Run \<longrightarrow> \<not> sie (snd ps) c) \<and>
    noff (cpus (snd ps) c) = int (card (held_by c (snd ps))) + pc_extra (fst ps c) \<and>
    (fst ps c = Unl \<longrightarrow> (\<exists>s'. pop_off c (snd ps) = Inr s'))"
proof (intro conjI impI)
  have inv: "irq_inv (fst ps, snd ps)" using smp_reachable_irq_inv [OF assms] by simp
  note D = irq_invD [OF inv, of c]
  show "noff (cpus (snd ps) c) = int (card (held_by c (snd ps))) + pc_extra (fst ps c)" by (rule D(2))
  show "\<not> sie (snd ps) c" if "in_crit c lk ps \<or> fst ps c \<noteq> Run"
  proof (cases "fst ps c = Run")
    case True
    with that have "lk \<in> held_by c (snd ps)" by (auto simp: in_crit_def held_by_def)
    then have "0 < card (held_by c (snd ps))" using D(1) card_gt_0_iff by blast
    then have "noff (cpus (snd ps) c) \<noteq> 0" using D(2) True by (simp add: pc_extra_def)
    then show ?thesis by (rule D(3))
  next
    case False
    then show ?thesis using D by (simp add: pc_extra_def)
  qed
  show "\<exists>s'. pop_off c (snd ps) = Inr s'" if "fst ps c = Unl"
    using that D by (auto simp: pop_off_def intr_get_def pc_extra_def Let_def)
qed

theorem spinlock_interrupts_off_witness:
  "smp_reachable smp_won \<and> in_crit 0 KmemLock smp_won \<and> \<not> sie (snd smp_won) 0 \<and>
   noff (cpus (snd smp_won) 0) = int (card (held_by 0 (snd smp_won))) + 1"
proof -
  have c: "in_crit 0 KmemLock smp_won" and p: "pc_extra (fst smp_won 0) = 1"
    by (simp_all add: in_crit_def smp_won_def pc_extra_def)
  then show ?thesis
    using smp_won_reachable spinlock_interrupts_off [OF smp_won_reachable, of 0 KmemLock] by simp
qed

text \<open>
  C5: the thread-level lock operations that the rest of the kernel is modelled with simulate
  the hart-level code. From related states, \<open>acquire\<close> panics exactly when the code does and
  with its message, the code spins only on a lock that another hart has taken, and whenever
  it returns the lock word is set and the thread-level operation returns in a related state; the same
  for \<open>release\<close>, which clears the lock word.
\<close>

theorem lock_operations_refine:
  fixes t :: kthread
  assumes "thread_sim c s (held t)"
  shows "(case hart_acquire c lk s of
      Inl p \<Rightarrow> acquire lk es t = Panic p
    | Inr None \<Rightarrow> locked (locks s lk) \<noteq> 0 \<and> \<not> holding c lk s
    | Inr (Some s') \<Rightarrow> locked (locks s' lk) = 1 \<and> (\<exists>t'. acquire lk es t = Ok () t' es \<and> thread_sim c s' (held t'))) \<and>
    (case hart_release c lk s of
      Inl p \<Rightarrow> release lk es t = Panic p
    | Inr s' \<Rightarrow> locked (locks s' lk) = 0 \<and> (\<exists>t'. release lk es t = Ok () t' es \<and> thread_sim c s' (held t')))"
proof
  have "locked (locks s' lk) = 1" if "hart_acquire c lk s = Inr (Some s')" for s'
    using that by (auto simp: hart_acquire_def hart_defs Let_def split: if_splits sum.splits)
  then show "case hart_acquire c lk s of
      Inl p \<Rightarrow> acquire lk es t = Panic p
    | Inr None \<Rightarrow> locked (locks s lk) \<noteq> 0 \<and> \<not> holding c lk s
    | Inr (Some s') \<Rightarrow> locked (locks s' lk) = 1 \<and> (\<exists>t'. acquire lk es t = Ok () t' es \<and> thread_sim c s' (held t'))"
    using thread_sim_acquire [OF assms, of lk] assms
    by (auto simp: thread_sim_def split: sum.splits option.splits)
  have "locked (locks s' lk) = 0" if "hart_release c lk s = Inr s'" for s'
    using that by (auto simp: hart_release_def hart_defs Let_def split: if_splits sum.splits)
  then show "case hart_release c lk s of
      Inl p \<Rightarrow> release lk es t = Panic p
    | Inr s' \<Rightarrow> locked (locks s' lk) = 0 \<and> (\<exists>t'. release lk es t = Ok () t' es \<and> thread_sim c s' (held t'))"
    using thread_sim_release [OF assms, of lk] by (auto split: sum.splits)
qed

theorem lock_operations_refine_witness:
  "\<exists>t'. acquire KmemLock [] \<lparr>held = [], kout = []\<rparr> = Ok () t' [] \<and>
     thread_sim 0 (acquire_record 0 KmemLock (snd (acquire_swap KmemLock (push_off 0 (snd smp_boot)))))
       (held t')"
proof -
  have sim: "thread_sim 0 (snd smp_boot) (held \<lparr>held = [], kout = []\<rparr>)"
    by (simp add: thread_sim_def smp_boot_def holding_def)
  have "hart_acquire 0 KmemLock (snd smp_boot) =
      Inr (Some (acquire_record 0 KmemLock (snd (acquire_swap KmemLock (push_off 0 (snd smp_boot))))))"
    by (simp add: hart_acquire_def acquire_enter_def acquire_swap_def holding_def smp_boot_def)
  with lock_operations_refine [OF sim, of KmemLock "[]"] show ?thesis by simp
qed



end
