(* ===== verification/Xv6_Kalloc.thy ===== *)
theory Xv6_Kalloc
  imports Xv6_Memory Xv6_Spinlock
begin

text \<open>
  The physical page allocator (\<open>kernel/kalloc.c\<close>). The free list is threaded through the
  free pages themselves: the first eight bytes of a free page hold the address of the next
  one. The model keeps it there, in the byte memory. The invariant \<open>kmem_ok\<close> says that the
  list is a chain of distinct, page-aligned pages between \<open>end\<close> and \<open>PHYSTOP\<close>; the contract
  that the clients use is the locale \<open>page_allocator\<close>.
\<close>

text \<open>
  The kernel state with physical memory: \<open>mem\<close> is RAM, \<open>freelist\<close> is \<open>kmem.freelist\<close>
  (0 is the null pointer), \<open>kend\<close> is the address \<open>end\<close> that the linker script defines.
\<close>

record kmem = kthread +
  mem :: memory
  freelist :: addr
  kend :: addr

lemma kmem_upd_commute [simp]:
  "s\<lparr>freelist := f, mem := m\<rparr> = s\<lparr>mem := m, freelist := f\<rparr>"
  by simp

definition kfree :: "addr \<Rightarrow> ('z kmem_scheme, unit) km" where
  "kfree pa =
     kthen (kpanic_if (\<lambda>s. unat pa mod PGSIZE \<noteq> 0 \<or> pa < kend s \<or> pa \<ge> PHYSTOP) ''kfree'')
    (kthen (kmod (\<lambda>s. s\<lparr>mem := memset (mem s) pa 1 4096\<rparr>))
    (kthen (acquire KmemLock)
    (kthen (kmod (\<lambda>s. s\<lparr>mem := store64 (mem s) pa (freelist s)\<rparr>))
    (kthen (kmod (\<lambda>s. s\<lparr>freelist := pa\<rparr>))
           (release KmemLock)))))"

definition kalloc :: "('z kmem_scheme, addr) km" where
  "kalloc =
     kthen (acquire KmemLock)
    (kbind (kget freelist) (\<lambda>r.
     kthen (if r \<noteq> 0 then kmod (\<lambda>s. s\<lparr>freelist := load64 (mem s) r\<rparr>) else kret ())
    (kthen (release KmemLock)
    (kthen (if r \<noteq> 0 then kmod (\<lambda>s. s\<lparr>mem := memset (mem s) r 5 4096\<rparr>) else kret ())
           (kret r)))))"

lemma kfree_Ok_bound: "kfree p es s = Ok x s' es' \<Longrightarrow> p < PHYSTOP"
  by (auto simp: kfree_def elim!: kthen_OkE kpanic_if_OkE)

text \<open>
  \<open>freerange\<close>: the loop stops because \<open>kfree\<close> panics on any page at or above \<open>PHYSTOP\<close>, long
  before the addition of \<open>PGSIZE\<close> could wrap.
\<close>

lemma freerange_step_less:
  assumes "p < PHYSTOP"
  shows "unat (p + 4096) = unat p + 4096" "unat p + 4096 < 2 ^ 64"
proof -
  have "unat p < unat PHYSTOP" using assms by (simp add: word_less_nat_alt)
  then show "unat p + 4096 < 2 ^ 64" by (simp add: PHYSTOP_eq)
  then show "unat (p + 4096) = unat p + 4096" using unat_add_of_nat [of p 4096] by simp
qed

lemma freerange_measure:
  assumes "p < PHYSTOP"
  shows "2 ^ 64 - unat (p + 4096) < 2 ^ 64 - unat p"
  using freerange_step_less(2) [OF assms] unfolding freerange_step_less(1) [OF assms] by linarith

function freerange_loop :: "addr \<Rightarrow> addr \<Rightarrow> ('z kmem_scheme, unit) km" where
  "freerange_loop p pa_end es s =
     (if p + 4096 \<le> pa_end
      then (case kfree p es s of
              Ok _ s' es' \<Rightarrow> freerange_loop (p + 4096) pa_end es' s'
            | Panic msg \<Rightarrow> Panic msg
            | Asleep s' \<Rightarrow> Asleep s')
      else Ok () s es)"
  by pat_completeness auto
termination
  by (relation "measure (\<lambda>(p, pa_end, es, s). 2 ^ 64 - unat p)")
    (auto dest!: kfree_Ok_bound freerange_measure)

declare freerange_loop.simps [simp del]

definition freerange :: "addr \<Rightarrow> addr \<Rightarrow> ('z kmem_scheme, unit) km" where
  "freerange pa_start pa_end = freerange_loop (PGROUNDUP pa_start) pa_end"

definition kinit :: "('z kmem_scheme, unit) km" where
  "kinit =
     kthen (klock_init KmemLock)
    (kbind (kget kend) (\<lambda>e.
     freerange e PHYSTOP))"

section \<open>The free list as a chain through memory\<close>

fun free_chain :: "memory \<Rightarrow> addr \<Rightarrow> addr list \<Rightarrow> bool" where
  "free_chain m p [] \<longleftrightarrow> p = 0"
| "free_chain m p (x # xs) \<longleftrightarrow> p = x \<and> x \<noteq> 0 \<and> free_chain m (load64 m x) xs"

definition valid_page :: "addr \<Rightarrow> addr \<Rightarrow> bool" where
  "valid_page e x \<longleftrightarrow> page_aligned x \<and> e \<le> x \<and> x < PHYSTOP \<and> x \<noteq> 0"

definition kmem_ok :: "'z kmem_scheme \<Rightarrow> addr list \<Rightarrow> bool" where
  "kmem_ok s xs \<longleftrightarrow> free_chain (mem s) (freelist s) xs \<and> distinct xs \<and>
     (\<forall>x \<in> set xs. valid_page (kend s) x) \<and> KmemLock \<notin> set (held s)"

lemma free_chain_unique: "free_chain m p xs \<Longrightarrow> free_chain m p ys \<Longrightarrow> xs = ys"
proof (induction xs arbitrary: p ys)
  case Nil
  then show ?case by (cases ys) auto
next
  case (Cons x xs)
  then show ?case by (cases ys) auto
qed

lemma free_chain_agree:
  assumes "free_chain m p xs" "agree_outside P m m'"
    and "\<And>x. x \<in> set xs \<Longrightarrow> page_aligned x \<and> page_no x \<notin> P"
  shows "free_chain m' p xs"
  using assms
proof (induction xs arbitrary: p)
  case (Cons x xs)
  have "load64 m' x = load64 m x"
    using Cons.prems by (intro load64_agree) (auto intro: page_aligned_8)
  with Cons show ?case by simp
qed simp

lemma valid_page_aligned: "valid_page e x \<Longrightarrow> page_aligned x"
  by (simp add: valid_page_def)

lemma kmem_ok_unique: "kmem_ok s xs \<Longrightarrow> kmem_ok s ys \<Longrightarrow> xs = ys"
  by (auto simp: kmem_ok_def intro: free_chain_unique)

text \<open>Only the listed parts of the state matter to the invariant.\<close>

lemma kmem_ok_cong:
  assumes "kmem_ok s xs" "freelist t = freelist s" "kend t = kend s"
    "KmemLock \<notin> set (held t)"
    "agree_outside P (mem s) (mem t)" "\<And>x. x \<in> set xs \<Longrightarrow> page_no x \<notin> P"
  shows "kmem_ok t xs"
  using assms by (auto simp: kmem_ok_def intro: free_chain_agree dest: valid_page_aligned)

lemma kfree_effect:
  assumes "kmem_ok s xs" "valid_page (kend s) pa" "pa \<notin> set xs"
  shows "\<exists>s'. kfree pa es s = Ok () s' es \<and> kmem_ok s' (pa # xs) \<and>
    s' = s\<lparr>mem := mem s', freelist := pa\<rparr> \<and> agree_outside {page_no pa} (mem s) (mem s')"
proof -
  let ?m1 = "memset (mem s) pa 1 4096"
  let ?s = "s\<lparr>mem := store64 ?m1 pa (freelist s), freelist := pa\<rparr>"
  have pa: "page_aligned pa" using assms(2) by (rule valid_page_aligned)
  have nl: "KmemLock \<notin> set (held s)" using assms(1) by (simp add: kmem_ok_def)
  have "kfree pa es s = Ok () ?s es"
    using assms(2) nl by (simp add: kfree_def valid_page_def page_aligned_def not_le not_less)
  moreover have ag: "agree_outside {page_no pa} (mem s) (mem ?s)"
  proof -
    have "agree_outside {page_no pa} (mem s) ?m1"
      by (rule agree_outside_memset [OF pa]) simp
    moreover have "agree_outside {page_no pa} ?m1 (store64 ?m1 pa (freelist s))"
      by (rule agree_outside_store64 [OF page_aligned_8 [OF pa]])
    ultimately show ?thesis using agree_outside_trans by fastforce
  qed
  moreover have "kmem_ok ?s (pa # xs)"
  proof -
    have "page_no x \<notin> {page_no pa}" if "x \<in> set xs" for x
    proof -
      have "page_aligned x" "x \<noteq> pa"
        using that assms(1,3) by (auto simp: kmem_ok_def valid_page_aligned)
      then show ?thesis using page_aligned_eq_iff [OF _ pa] by auto
    qed
    then have "free_chain (mem ?s) (freelist s) xs"
      using assms(1) ag by (auto simp: kmem_ok_def intro: free_chain_agree dest: valid_page_aligned)
    then show ?thesis using assms by (simp add: kmem_ok_def valid_page_def)
  qed
  ultimately show ?thesis by (intro exI [of _ ?s]) simp
qed

lemma kalloc_empty:
  assumes "kmem_ok s []"
  shows "kalloc es s = Ok 0 s es"
  using assms by (simp add: kmem_ok_def kalloc_def)

lemma kalloc_effect:
  assumes "kmem_ok s (p # ps)"
  shows "\<exists>s'. kalloc es s = Ok p s' es \<and> kmem_ok s' ps \<and>
    s' = s\<lparr>mem := memset (mem s) p 5 4096, freelist := load64 (mem s) p\<rparr> \<and>
    valid_page (kend s) p \<and> p \<notin> set ps"
proof -
  let ?s = "s\<lparr>mem := memset (mem s) p 5 4096, freelist := load64 (mem s) p\<rparr>"
  have ok: "freelist s = p" "p \<noteq> 0" "free_chain (mem s) (load64 (mem s) p) ps"
      "KmemLock \<notin> set (held s)" and v: "valid_page (kend s) p" "p \<notin> set ps" "distinct ps"
      and vs: "\<forall>x \<in> set ps. valid_page (kend s) x"
    using assms by (auto simp: kmem_ok_def)
  have pa: "page_aligned p" using v(1) by (rule valid_page_aligned)
  have "kalloc es s = Ok p ?s es" using ok by (simp add: kalloc_def)
  moreover have "free_chain (mem ?s) (load64 (mem s) p) ps"
  proof (rule free_chain_agree [OF ok(3)])
    show "agree_outside {page_no p} (mem s) (mem ?s)"
      using agree_outside_memset [OF pa, of 4096] by simp
    fix x assume "x \<in> set ps"
    then show "page_aligned x \<and> page_no x \<notin> {page_no p}"
      using v vs pa page_aligned_eq_iff [of x p] by (auto dest: valid_page_aligned)
  qed
  then have "kmem_ok ?s ps" using ok v vs by (simp add: kmem_ok_def)
  ultimately show ?thesis using v by (intro exI [of _ ?s]) simp
qed

section \<open>The allocator's contract\<close>

text \<open>A script of a client: allocate a page, or free the \<open>i\<close>-th page it owns.\<close>

datatype alloc_op = AllocOp | FreeOp nat

fun alloc_run ::
  "('s, addr) km \<Rightarrow> (addr \<Rightarrow> ('s, unit) km) \<Rightarrow> alloc_op list \<Rightarrow> addr list \<Rightarrow> ('s, addr list) km"
where
  "alloc_run al fr [] own = kret own"
| "alloc_run al fr (AllocOp # ops) own =
     kbind al (\<lambda>p. alloc_run al fr ops (if p = 0 then own else p # own))"
| "alloc_run al fr (FreeOp i # ops) own =
     (if i < length own
      then kthen (fr (own ! i)) (alloc_run al fr ops (take i own @ drop (Suc i) own))
      else alloc_run al fr ops own)"

locale page_allocator =
  fixes alloc :: "('s, addr) km"
    and free :: "addr \<Rightarrow> ('s, unit) km"
    and inv :: "'s \<Rightarrow> bool"
    and pool :: "'s \<Rightarrow> addr set"
    and valid :: "'s \<Rightarrow> addr \<Rightarrow> bool"
    and ram :: "'s \<Rightarrow> memory"
  assumes alloc_none: "inv s \<Longrightarrow> pool s = {} \<Longrightarrow> alloc es s = Ok 0 s es"
    and alloc_some: "inv s \<Longrightarrow> pool s \<noteq> {} \<Longrightarrow>
      \<exists>p s'. alloc es s = Ok p s' es \<and> p \<in> pool s \<and> inv s' \<and> pool s' = pool s - {p} \<and>
        valid s' = valid s \<and> agree_outside {page_no p} (ram s) (ram s')"
    and free_ok: "inv s \<Longrightarrow> valid s p \<Longrightarrow> p \<notin> pool s \<Longrightarrow>
      \<exists>s'. free p es s = Ok () s' es \<and> inv s' \<and> pool s' = insert p (pool s) \<and>
        valid s' = valid s \<and> agree_outside {page_no p} (ram s) (ram s')"
    and pool_valid: "inv s \<Longrightarrow> p \<in> pool s \<Longrightarrow> valid s p"
    and valid_page: "valid s p \<Longrightarrow> p \<noteq> 0 \<and> page_aligned p"
begin

definition owns :: "'s \<Rightarrow> addr list \<Rightarrow> bool" where
  "owns s own \<longleftrightarrow> inv s \<and> distinct own \<and> set own \<inter> pool s = {} \<and> (\<forall>p \<in> set own. valid s p)"

lemma set_remove_nth:
  assumes "distinct own" "i < length own"
  shows "set (take i own @ drop (Suc i) own) = set own - {own ! i}"
    and "distinct (take i own @ drop (Suc i) own)"
proof -
  have own: "own = take i own @ own ! i # drop (Suc i) own" by (rule id_take_nth_drop [OF assms(2)])
  with assms(1) have d: "distinct (take i own @ own ! i # drop (Suc i) own)" by metis
  have "set own = set (take i own @ own ! i # drop (Suc i) own)" using own by metis
  with d show "set (take i own @ drop (Suc i) own) = set own - {own ! i}" by auto
  from d show "distinct (take i own @ drop (Suc i) own)" by simp
qed

lemma alloc_run_partition:
  assumes "owns s own"
  shows "\<exists>own' s'. alloc_run alloc free ops own es s = Ok own' s' es \<and> owns s' own' \<and>
    set own' \<union> pool s' = set own \<union> pool s \<and>
    agree_outside (page_no ` (set own \<union> pool s)) (ram s) (ram s')"
  using assms
proof (induction ops arbitrary: own s)
  case Nil
  then show ?case by simp
next
  case (Cons x ops)
  have inv: "inv s" and dis: "distinct own" "set own \<inter> pool s = {}"
    and val: "\<forall>p \<in> set own. valid s p" using Cons.prems by (auto simp: owns_def)
  show ?case
  proof (cases x)
    case AllocOp
    show ?thesis
    proof (cases "pool s = {}")
      case True
      then show ?thesis
        using AllocOp Cons.IH [OF Cons.prems] alloc_none [OF inv, of es] by simp
    next
      case False
      from alloc_some [OF inv False, of es] obtain p s1
        where al: "alloc es s = Ok p s1 es" and p: "p \<in> pool s" and s1: "inv s1"
          "pool s1 = pool s - {p}" "valid s1 = valid s"
          and ag: "agree_outside {page_no p} (ram s) (ram s1)" by blast
      have "p \<noteq> 0" using pool_valid [OF inv p] valid_page by blast
      have "owns s1 (p # own)"
        using s1 dis val p pool_valid [OF inv p] by (auto simp: owns_def)
      from Cons.IH [OF this] obtain own' s' where
        run: "alloc_run alloc free ops (p # own) es s1 = Ok own' s' es" and o: "owns s' own'"
        and un: "set own' \<union> pool s' = set (p # own) \<union> pool s1"
        and ag2: "agree_outside (page_no ` (set (p # own) \<union> pool s1)) (ram s1) (ram s')" by blast
      have eq: "set (p # own) \<union> pool s1 = set own \<union> pool s" using p s1(2) by auto
      have "agree_outside (page_no ` (set own \<union> pool s)) (ram s) (ram s')"
        using p by (intro agree_outside_mono [OF agree_outside_trans [OF ag ag2 [unfolded eq]]]) auto
      then show ?thesis using AllocOp al run o un eq \<open>p \<noteq> 0\<close> by auto
    qed
  next
    case (FreeOp i)
    show ?thesis
    proof (cases "i < length own")
      case False
      then show ?thesis using FreeOp Cons.IH [OF Cons.prems] by simp
    next
      case True
      let ?p = "own ! i" and ?own = "take i own @ drop (Suc i) own"
      note rem = set_remove_nth [OF dis(1) True]
      have p: "?p \<in> set own" using True by simp
      with dis val have "valid s ?p" "?p \<notin> pool s" by auto
      from free_ok [OF inv this, of es] obtain s1
        where fr: "free ?p es s = Ok () s1 es" and s1: "inv s1" "pool s1 = insert ?p (pool s)"
          "valid s1 = valid s" and ag: "agree_outside {page_no ?p} (ram s) (ram s1)" by blast
      have "owns s1 ?own"
        using s1 dis val rem by (auto simp: owns_def)
      from Cons.IH [OF this] obtain own' s' where
        run: "alloc_run alloc free ops ?own es s1 = Ok own' s' es" and o: "owns s' own'"
        and un: "set own' \<union> pool s' = set ?own \<union> pool s1"
        and ag2: "agree_outside (page_no ` (set ?own \<union> pool s1)) (ram s1) (ram s')" by blast
      have eq: "set ?own \<union> pool s1 = set own \<union> pool s" using p s1(2) rem(1) by auto
      have "agree_outside (page_no ` (set own \<union> pool s)) (ram s) (ram s')"
        using p by (intro agree_outside_mono [OF agree_outside_trans [OF ag ag2 [unfolded eq]]]) auto
      then show ?thesis using FreeOp True fr run o un eq by auto
    qed
  qed
qed

end

definition kmem_inv :: "'z kmem_scheme \<Rightarrow> bool" where
  "kmem_inv s \<longleftrightarrow> (\<exists>xs. kmem_ok s xs)"

definition kpool :: "'z kmem_scheme \<Rightarrow> addr set" where
  "kpool s = {x. \<exists>xs. kmem_ok s xs \<and> x \<in> set xs}"

definition kvalid :: "'z kmem_scheme \<Rightarrow> addr \<Rightarrow> bool" where
  "kvalid s = valid_page (kend s)"

lemma kpool_eq: "kmem_ok s xs \<Longrightarrow> kpool s = set xs"
  by (auto simp: kpool_def dest: kmem_ok_unique)

interpretation kalloc: page_allocator kalloc kfree kmem_inv kpool kvalid mem
proof (unfold_locales, goal_cases)
  case (1 s es)
  then obtain xs where "kmem_ok s xs" by (auto simp: kmem_inv_def)
  with 1 kpool_eq [of s xs] show ?case by (simp add: kalloc_empty)
next
  case (2 s es)
  then obtain xs where xs: "kmem_ok s xs" by (auto simp: kmem_inv_def)
  with 2 kpool_eq [OF xs] obtain p ps where pps: "xs = p # ps" by (cases xs) auto
  from kalloc_effect [OF xs [unfolded pps], of es] obtain s' where
    al: "kalloc es s = Ok p s' es" and ok: "kmem_ok s' ps"
    and s': "s' = s\<lparr>mem := memset (mem s) p 5 4096, freelist := load64 (mem s) p\<rparr>"
    and v: "valid_page (kend s) p" "p \<notin> set ps" by blast
  have "agree_outside {page_no p} (mem s) (mem s')"
    unfolding s' using agree_outside_memset [OF valid_page_aligned [OF v(1)], of 4096] by simp
  moreover have "kvalid s' = kvalid s" by (simp add: kvalid_def s')
  ultimately show ?case
    using al ok v pps kpool_eq [OF xs] kpool_eq [OF ok]
    by (intro exI [of _ p] exI [of _ s']) (auto simp: kmem_inv_def)
next
  case (3 s p es)
  then obtain xs where xs: "kmem_ok s xs" by (auto simp: kmem_inv_def)
  with 3 kpool_eq [OF xs] have "valid_page (kend s) p" "p \<notin> set xs" by (auto simp: kvalid_def)
  from kfree_effect [OF xs this, of es] obtain s' where
    fr: "kfree p es s = Ok () s' es" and ok: "kmem_ok s' (p # xs)"
    and s': "s' = s\<lparr>mem := mem s', freelist := p\<rparr>"
    and ag: "agree_outside {page_no p} (mem s) (mem s')" by blast
  have "kend s' = kend s" by (subst s') simp
  then show ?case
    using fr ag ok kpool_eq [OF xs] kpool_eq [OF ok]
    by (intro exI [of _ s']) (auto simp: kmem_inv_def kvalid_def)
next
  case (4 s p)
  then show ?case by (auto simp: kpool_def kvalid_def kmem_ok_def)
next
  case (5 s p)
  then show ?case by (simp add: kvalid_def valid_page_def)
qed

section \<open>Initialisation\<close>

lemma freerange_loop_pages:
  assumes "kmem_ok s xs" "page_aligned p" "kend s \<le> p" "p \<noteq> 0"
    and "\<And>x. x \<in> set xs \<Longrightarrow> x < p" and "unat p + 4096 * n = unat PHYSTOP"
  shows "\<exists>s' ys. freerange_loop p PHYSTOP es s = Ok () s' es \<and> kmem_ok s' ys \<and>
    set ys = set xs \<union> {x. valid_page p x} \<and> kend s' = kend s"
  using assms
proof (induction n arbitrary: p s xs)
  case 0
  then have "p = PHYSTOP" by (simp add: word_unat_eq_iff)
  then have "\<not> p + 4096 \<le> PHYSTOP" and "{x. valid_page p x} = {}"
    by (auto simp: PHYSTOP_eq valid_page_def)
  with 0 show ?case by (subst freerange_loop.simps) auto
next
  case (Suc n)
  have lt: "p < PHYSTOP" using Suc.prems(6) by (simp add: word_less_nat_alt)
  note up = freerange_step_less(1) [OF lt]
  have le: "p + 4096 \<le> PHYSTOP" using Suc.prems(6) up by (simp add: word_le_nat_alt)
  have v: "valid_page (kend s) p" using Suc.prems lt by (simp add: valid_page_def)
  have "p \<notin> set xs" using Suc.prems(5) by blast
  from kfree_effect [OF Suc.prems(1) v this, of es] obtain s1 where
    fr: "kfree p es s = Ok () s1 es" and ok: "kmem_ok s1 (p # xs)"
    and s1: "s1 = s\<lparr>mem := mem s1, freelist := p\<rparr>" by blast
  have ke: "kend s1 = kend s" by (subst s1) simp
  have al: "page_aligned (p + 4096)"
    using Suc.prems(2) up by (simp add: page_aligned_def PGSIZE_def)
  have pl: "p < p + 4096" using up by (simp add: word_less_nat_alt)
  have "kend s1 \<le> p + 4096" using Suc.prems(3) ke pl by simp
  moreover have "p + 4096 \<noteq> 0" using pl by (metis not_less word_zero_le)
  moreover have "x < p + 4096" if "x \<in> set (p # xs)" for x
    using that Suc.prems(5) [of x] pl by (cases "x = p") (auto dest: less_trans)
  moreover have "unat (p + 4096) + 4096 * n = unat PHYSTOP" using up Suc.prems(6) by simp
  ultimately obtain s' ys where *: "freerange_loop (p + 4096) PHYSTOP es s1 = Ok () s' es"
    "kmem_ok s' ys" "set ys = set (p # xs) \<union> {x. valid_page (p + 4096) x}" "kend s' = kend s1"
    using Suc.IH [OF ok al] by blast
  have "valid_page p x \<longleftrightarrow> x = p \<or> valid_page (p + 4096) x" for x
  proof -
    have "page_aligned x \<Longrightarrow> p \<le> x \<longleftrightarrow> x = p \<or> p + 4096 \<le> x"
      using Suc.prems(2) up by (auto simp: page_aligned_def PGSIZE_def word_le_nat_alt word_unat_eq_iff elim!: dvdE)
    then show ?thesis using v by (auto simp: valid_page_def)
  qed
  then have "set ys = set xs \<union> {x. valid_page p x}" using *(3) by auto
  then show ?case using fr * le ke by (subst freerange_loop.simps) auto
qed

lemma valid_page_PGROUNDUP:
  assumes "e \<le> PHYSTOP" "e \<noteq> 0"
  shows "valid_page (PGROUNDUP e) x = valid_page e x"
    and "e \<le> PGROUNDUP e" and "PGROUNDUP e \<le> PHYSTOP"
proof -
  have e: "unat e \<le> unat PHYSTOP" using assms(1) by (simp add: word_le_nat_alt)
  then have up: "unat (PGROUNDUP e) = 4096 * ((unat e + 4095) div 4096)"
    by (simp add: unat_PGROUNDUP PGSIZE_def PHYSTOP_eq)
  have le: "unat e \<le> unat (PGROUNDUP e)" unfolding up by linarith
  then show "e \<le> PGROUNDUP e" by (simp add: word_le_nat_alt)
  show "PGROUNDUP e \<le> PHYSTOP" using e up by (simp add: word_le_nat_alt PHYSTOP_eq)
  have "page_aligned x \<Longrightarrow> unat e \<le> unat x \<longleftrightarrow> unat (PGROUNDUP e) \<le> unat x"
    unfolding up page_aligned_def PGSIZE_def by auto
  then show "valid_page (PGROUNDUP e) x = valid_page e x"
    by (auto simp: valid_page_def word_le_nat_alt)
qed

text \<open>
  C7: After \<open>kinit\<close>, the allocator's invariant holds and the free list contains exactly the
  page-aligned addresses from \<open>end\<close> up to \<open>PHYSTOP\<close>, each once; \<open>kinit\<close> does not panic.
\<close>

theorem kinit_frees_every_page:
  assumes "kend s \<le> PHYSTOP" "kend s \<noteq> 0" "freelist s = 0"
  shows "\<exists>s' xs. kinit es s = Ok () s' es \<and> kmem_ok s' xs \<and> kend s' = kend s \<and>
    distinct xs \<and> set xs = {x. valid_page (kend s) x}"
proof -
  let ?s = "s\<lparr>held := removeAll KmemLock (held s)\<rparr>"
  note up = valid_page_PGROUNDUP [OF assms(1,2)]
  have ok: "kmem_ok ?s []" using assms(3) by (simp add: kmem_ok_def)
  have nz: "PGROUNDUP (kend s) \<noteq> 0" using up(2) assms(2) by (metis word_le_0_iff)
  have "4096 dvd unat PHYSTOP - unat (PGROUNDUP (kend s))"
    using PGROUNDUP_aligned [of "kend s"] by (auto simp: page_aligned_def PGSIZE_def PHYSTOP_eq intro!: dvd_diff_nat)
  then obtain n where "unat PHYSTOP - unat (PGROUNDUP (kend s)) = 4096 * n" by (rule dvdE)
  then have n: "unat (PGROUNDUP (kend s)) + 4096 * n = unat PHYSTOP"
    using up(3) by (simp add: word_le_nat_alt)
  from freerange_loop_pages [OF ok PGROUNDUP_aligned _ nz _ n, of es] obtain s' ys where
    "freerange_loop (PGROUNDUP (kend s)) PHYSTOP es ?s = Ok () s' es" "kmem_ok s' ys"
    "set ys = {x. valid_page (kend s) x}" "kend s' = kend s" using up by auto
  then show ?thesis
    by (intro exI [of _ s'] exI [of _ ys])
      (simp add: kinit_def klock_init_def freerange_def kmem_ok_def)
qed

definition kmem_boot :: "addr \<Rightarrow> kmem" where
  \<comment> \<open>the state before \<open>kinit\<close> of a kernel whose image ends at the given address\<close>
  "kmem_boot e = \<lparr>held = [], kout = [], mem = (\<lambda>_. 0), freelist = 0, kend = e\<rparr>"

theorem kinit_frees_every_page_witness:
  "\<exists>s' xs. kinit [] (kmem_boot (PHYSTOP - 8200)) = Ok () s' [] \<and> kmem_ok s' xs \<and>
    kend s' = PHYSTOP - 8200 \<and> distinct xs \<and> set xs = {x. valid_page (PHYSTOP - 8200) x}"
  using kinit_frees_every_page [of "kmem_boot (PHYSTOP - 8200)" "[]"]
  by (simp add: kmem_boot_def PHYSTOP_eq)

text \<open>
  C2: Whatever sequence of \<open>kalloc\<close> calls and of \<open>kfree\<close> calls on pages it owns a client makes,
  no call panics, no page is ever in the client's hands twice or at once in its hands and on
  the free list, no page is lost (the owned and the free pages together never change), and
  no byte of memory outside those pages is written.
\<close>

theorem page_allocation_sound:
  assumes "kmem_ok s xs" "distinct own" "set own \<inter> set xs = {}"
    and "\<forall>p \<in> set own. valid_page (kend s) p"
  shows "\<exists>own' s' xs'. alloc_run kalloc kfree ops own es s = Ok own' s' es \<and> kmem_ok s' xs' \<and>
    distinct own' \<and> set own' \<inter> set xs' = {} \<and> set own' \<union> set xs' = set own \<union> set xs \<and>
    (\<forall>p \<in> set own'. valid_page (kend s') p) \<and>
    agree_outside (page_no ` (set own \<union> set xs)) (mem s) (mem s')"
proof -
  have "kalloc.owns s own"
    using assms by (auto simp: kalloc.owns_def kpool_eq kvalid_def kmem_inv_def)
  from kalloc.alloc_run_partition [OF this, of ops es] obtain own' s' where
    *: "alloc_run kalloc kfree ops own es s = Ok own' s' es" "kalloc.owns s' own'"
      "set own' \<union> kpool s' = set own \<union> kpool s"
      "agree_outside (page_no ` (set own \<union> kpool s)) (mem s) (mem s')" by blast
  then obtain xs' where "kmem_ok s' xs'" by (auto simp: kalloc.owns_def kmem_inv_def)
  with * show ?thesis using assms(1)
    by (intro exI [of _ own'] exI [of _ s'] exI [of _ xs'])
      (simp add: kalloc.owns_def kpool_eq kvalid_def)
qed

theorem page_allocation_sound_witness:
  "\<exists>own' s' xs'. alloc_run kalloc kfree [FreeOp 0, AllocOp, FreeOp 1]
      [PHYSTOP - 4096, PHYSTOP - 8192] [] (kmem_boot KERNBASE) = Ok own' s' [] \<and>
    kmem_ok s' xs' \<and> distinct own' \<and> set own' \<inter> set xs' = {} \<and>
    set own' \<union> set xs' = {PHYSTOP - 4096, PHYSTOP - 8192}"
proof -
  have "kmem_ok (kmem_boot KERNBASE) []" by (simp add: kmem_boot_def kmem_ok_def)
  moreover have "\<forall>p \<in> set [PHYSTOP - 4096, PHYSTOP - 8192]. valid_page (kend (kmem_boot KERNBASE)) p"
    by (simp add: kmem_boot_def valid_page_def page_aligned_def PGSIZE_def PHYSTOP_eq KERNBASE_def)
  moreover have "distinct [PHYSTOP - 4096, PHYSTOP - 8192]" by (simp add: PHYSTOP_eq)
  ultimately show ?thesis
    using page_allocation_sound [of "kmem_boot KERNBASE" "[]" "[PHYSTOP - 4096, PHYSTOP - 8192]"
      "[FreeOp 0, AllocOp, FreeOp 1]" "[]"] by fastforce
qed

end
