(* ===== verification/Xv6_Proc.thy ===== *)
theory Xv6_Proc
  imports Xv6_Kalloc
begin

text \<open>
  The process table and the routines that block and wake processes (\<open>kernel/proc.h\<close>, and the
  scheduling part of \<open>kernel/proc.c\<close>), and the sleep locks built on them
  (\<open>kernel/sleeplock.c\<close>).

  The state is that of one kernel thread, the one of process \<open>cur\<close> (or of a hart that runs no
  process, when \<open>cur\<close> is \<open>None\<close>). When the thread calls \<open>sched\<close> it gives up the hart; what all
  other threads, devices and interrupt handlers do until it runs again is the next function
  of the environment list (see \<open>Xv6_Prelude\<close>), applied to the whole state. The thread gets
  its own locks and its identity back, and the scheduler has marked it \<open>RUNNING\<close>.
\<close>

datatype procstate = UNUSED | USED | SLEEPING | RUNNABLE | RUNNING | ZOMBIE

text \<open>Wait channels: the C code uses the address of an object.\<close>

datatype chan =
    ChProc nat | ChTicks | ChSleep sleeplock_id | ChPipeRead addr | ChPipeWrite addr | ChLog
  | ChBuf nat | ChDiskFree | ChConsole | ChTx

text \<open>
  \<open>struct proc\<close>. Pointers into the process, file and inode tables are indices; 0 pointers are
  \<open>None\<close>. The saved registers of \<open>context\<close> are numbered in the order of the structure (0 is
  \<open>ra\<close>, 1 is \<open>sp\<close>). The 16 characters of \<open>name\<close> are a memory of their own, indexed from 0.
\<close>

record proc =
  pstate :: procstate
  pchan :: "chan option"
  pkilled :: bool
  xstate :: uint32
  pid :: uint32
  parent :: "nat option"
  kstack :: addr
  psz :: uint64
  pagetable :: addr
  trapframe :: addr
  pcontext :: "nat \<Rightarrow> uint64"
  ofile :: "nat \<Rightarrow> nat option"
  cwd :: "nat option"
  pname :: memory

record sleeplock =
  slocked :: bool
  slpid :: uint32

text \<open>
  The kernel state with the process table. \<open>trampoline\<close>, \<open>etext\<close> and \<open>forkret_addr\<close> are
  addresses the linker script and the assembler define.
\<close>

record kproc = kmem +
  procs :: "nat \<Rightarrow> proc"
  cur :: "nat option"
  initproc :: "nat option"
  nextpid :: uint32
  slocks :: "sleeplock_id \<Rightarrow> sleeplock"
  kernel_pagetable :: addr
  trampoline :: addr
  etext :: addr
  forkret_addr :: addr

definition NPROC :: nat where "NPROC = 64"
definition NOFILE :: nat where "NOFILE = 16"

definition TRAMPOLINE :: addr where "TRAMPOLINE = MAXVA - 4096"
definition TRAPFRAME :: addr where "TRAPFRAME = TRAMPOLINE - 4096"

definition KSTACK :: "nat \<Rightarrow> addr" where
  "KSTACK p = TRAMPOLINE - (of_nat p + 1) * 2 * 4096"

definition set_proc :: "nat \<Rightarrow> (proc \<Rightarrow> proc) \<Rightarrow> ('z kproc_scheme, unit) km" where
  "set_proc p f = kmod (\<lambda>s. s\<lparr>procs := (procs s)(p := f (procs s p))\<rparr>)"

definition myproc :: "('z kproc_scheme, nat option) km" where
  "myproc = kget cur"

text \<open>
  Dereferencing \<open>myproc()\<close> when it is 0: address 0 is not mapped in the kernel page table, and
  the page fault ends in the \<open>panic\<close> of \<open>kerneltrap\<close>.
\<close>

definition myproc_deref :: "('z kproc_scheme, nat) km" where
  "myproc_deref = kbind myproc (\<lambda>q. case q of Some p \<Rightarrow> kret p | None \<Rightarrow> kpanic ''kerneltrap'')"

definition procinit :: "('z kproc_scheme, unit) km" where
  "procinit =
     kthen (klock_init PidLock)
    (kthen (klock_init WaitLock)
    (kfor [0..<NPROC] (\<lambda>p.
       kthen (klock_init (ProcLock p))
      (kthen (set_proc p (\<lambda>q. q\<lparr>pstate := UNUSED\<rparr>))
             (set_proc p (\<lambda>q. q\<lparr>kstack := KSTACK p\<rparr>))))))"

definition allocpid :: "('z kproc_scheme, uint32) km" where
  "allocpid =
     kthen (acquire PidLock)
    (kbind (kget nextpid) (\<lambda>p.
     kthen (kmod (\<lambda>s. s\<lparr>nextpid := nextpid s + 1\<rparr>))
    (kthen (release PidLock)
           (kret p))))"

section \<open>Giving up the CPU\<close>

text \<open>
  The switch to the scheduler and back. The check that interrupts are off (\<open>intr_get\<close>) cannot
  fail once \<open>noff\<close> is 1: holding a lock keeps them off (\<open>Xv6_Spinlock\<close>).
\<close>

definition resumed :: "nat \<Rightarrow> 'z kproc_scheme \<Rightarrow> 'z kproc_scheme \<Rightarrow> 'z kproc_scheme" where
  "resumed p s t = t\<lparr>held := held s, cur := cur s,
     procs := (procs t)(p := (procs t p)\<lparr>pstate := RUNNING\<rparr>)\<rparr>"

definition swtch_scheduler :: "nat \<Rightarrow> ('z kproc_scheme, unit) km" where
  "swtch_scheduler p es s = (case es of [] \<Rightarrow> Asleep s | e # es' \<Rightarrow> Ok () (resumed p s (e s)) es')"

definition sched :: "('z kproc_scheme, unit) km" where
  "sched =
     kbind myproc_deref (\<lambda>p.
     kthen (kpanic_if (\<lambda>s. ProcLock p \<notin> set (held s)) ''sched p->lock'')
    (kthen (kpanic_if (\<lambda>s. length (held s) \<noteq> 1) ''sched locks'')
    (kthen (kpanic_if (\<lambda>s. pstate (procs s p) = RUNNING) ''sched RUNNING'')
           (swtch_scheduler p))))"

definition yield :: "('z kproc_scheme, unit) km" where
  "yield =
     kbind myproc_deref (\<lambda>p.
     kthen (acquire (ProcLock p))
    (kthen (set_proc p (\<lambda>q. q\<lparr>pstate := RUNNABLE\<rparr>))
    (kthen sched
           (release (ProcLock p)))))"

definition sleep :: "chan \<Rightarrow> lockid \<Rightarrow> ('z kproc_scheme, unit) km" where
  "sleep ch lk =
     kbind myproc_deref (\<lambda>p.
     kthen (acquire (ProcLock p))
    (kthen (release lk)
    (kthen (set_proc p (\<lambda>q. q\<lparr>pchan := Some ch\<rparr>))
    (kthen (set_proc p (\<lambda>q. q\<lparr>pstate := SLEEPING\<rparr>))
    (kthen sched
    (kthen (set_proc p (\<lambda>q. q\<lparr>pchan := None\<rparr>))
    (kthen (release (ProcLock p))
           (acquire lk))))))))"

definition wakeup_one :: "chan \<Rightarrow> nat \<Rightarrow> ('z kproc_scheme, unit) km" where
  "wakeup_one ch p =
     kbind myproc (\<lambda>me.
     kif (Some p \<noteq> me)
       (kthen (acquire (ProcLock p))
       (kthen (kmod (\<lambda>s. if pstate (procs s p) = SLEEPING \<and> pchan (procs s p) = Some ch
                         then s\<lparr>procs := (procs s)(p := (procs s p)\<lparr>pstate := RUNNABLE\<rparr>)\<rparr> else s))
              (release (ProcLock p))))
       (kret ()))"

definition wakeup :: "chan \<Rightarrow> ('z kproc_scheme, unit) km" where
  "wakeup ch = kfor [0..<NPROC] (wakeup_one ch)"

fun kkill_from :: "nat list \<Rightarrow> uint32 \<Rightarrow> ('z kproc_scheme, int) km" where
  "kkill_from [] pd = kret (- 1)"
| "kkill_from (p # ps) pd =
     kthen (acquire (ProcLock p))
    (kbind (kget (\<lambda>s. pid (procs s p) = pd)) (\<lambda>hit.
     kif hit
       (kthen (set_proc p (\<lambda>q. q\<lparr>pkilled := True\<rparr>))
       (kthen (kmod (\<lambda>s. if pstate (procs s p) = SLEEPING
                         then s\<lparr>procs := (procs s)(p := (procs s p)\<lparr>pstate := RUNNABLE\<rparr>)\<rparr> else s))
       (kthen (release (ProcLock p))
              (kret 0))))
       (kthen (release (ProcLock p))
              (kkill_from ps pd))))"

definition kkill :: "uint32 \<Rightarrow> ('z kproc_scheme, int) km" where
  "kkill pd = kkill_from [0..<NPROC] pd"

definition setkilled :: "nat \<Rightarrow> ('z kproc_scheme, unit) km" where
  "setkilled p =
     kthen (acquire (ProcLock p))
    (kthen (set_proc p (\<lambda>q. q\<lparr>pkilled := True\<rparr>))
           (release (ProcLock p)))"

definition killed :: "nat \<Rightarrow> ('z kproc_scheme, bool) km" where
  "killed p =
     kthen (acquire (ProcLock p))
    (kbind (kget (\<lambda>s. pkilled (procs s p))) (\<lambda>k.
     kthen (release (ProcLock p))
           (kret k)))"

section \<open>Sleep locks\<close>

definition initsleeplock :: "sleeplock_id \<Rightarrow> ('z kproc_scheme, unit) km" where
  "initsleeplock lk =
     kthen (klock_init (SleepLk lk))
           (kmod (\<lambda>s. s\<lparr>slocks := (slocks s)(lk := \<lparr>slocked = False, slpid = 0\<rparr>)\<rparr>))"

lemma sched_Ok_length: "sched es s = Ok x s' es' \<Longrightarrow> length es' < length es"
  by (auto simp: sched_def swtch_scheduler_def myproc_deref_def myproc_def
    split: list.splits option.splits elim!: kmonadE)

lemma sleep_Ok_length: "sleep ch lk es s = Ok x s' es' \<Longrightarrow> length es' < length es"
  by (auto simp: sleep_def set_proc_def myproc_deref_def myproc_def split: option.splits
    elim!: kmonadE acquire_OkE release_OkE dest!: sched_Ok_length)

function acquiresleep_loop :: "sleeplock_id \<Rightarrow> ('z kproc_scheme, unit) km" where
  "acquiresleep_loop lk es s =
     kbind (kget (\<lambda>s. slocked (slocks s lk))) (\<lambda>l.
     kif l
       (kthen (sleep (ChSleep lk) (SleepLk lk))
              (acquiresleep_loop lk))
       (kret ())) es s"
  by pat_completeness auto
termination
  by (relation "measure (\<lambda>(lk, es, s). length es)") (auto dest: sleep_Ok_length)

declare acquiresleep_loop.simps [simp del]

definition acquiresleep :: "sleeplock_id \<Rightarrow> ('z kproc_scheme, unit) km" where
  "acquiresleep lk =
     kthen (acquire (SleepLk lk))
    (kthen (acquiresleep_loop lk)
    (kthen (kmod (\<lambda>s. s\<lparr>slocks := (slocks s)(lk := (slocks s lk)\<lparr>slocked := True\<rparr>)\<rparr>))
    (kbind myproc_deref (\<lambda>p.
     kthen (kmod (\<lambda>s. s\<lparr>slocks := (slocks s)(lk := (slocks s lk)\<lparr>slpid := pid (procs s p)\<rparr>)\<rparr>))
           (release (SleepLk lk))))))"

definition releasesleep :: "sleeplock_id \<Rightarrow> ('z kproc_scheme, unit) km" where
  "releasesleep lk =
     kthen (acquire (SleepLk lk))
    (kthen (kmod (\<lambda>s. s\<lparr>slocks := (slocks s)(lk := \<lparr>slocked = False, slpid = 0\<rparr>)\<rparr>))
    (kthen (wakeup (ChSleep lk))
           (release (SleepLk lk))))"

definition holdingsleep :: "sleeplock_id \<Rightarrow> ('z kproc_scheme, bool) km" where
  "holdingsleep lk =
     kthen (acquire (SleepLk lk))
    (kbind (kget (\<lambda>s. slocked (slocks s lk))) (\<lambda>l.
     kbind (if l then kbind myproc_deref (\<lambda>p. kget (\<lambda>s. slpid (slocks s lk) = pid (procs s p)))
            else kret False) (\<lambda>r.
     kthen (release (SleepLk lk))
           (kret r))))"

section \<open>What the routines do when no one has to wait\<close>

lemma set_proc_Ok [simp]: "set_proc p f es s = Ok () (s\<lparr>procs := (procs s)(p := f (procs s p))\<rparr>) es"
  by (simp add: set_proc_def)

lemma myproc_deref_Ok [simp]: "cur s = Some p \<Longrightarrow> myproc_deref es s = Ok p s es"
  by (simp add: myproc_deref_def myproc_def)

lemma myproc_Ok [simp]: "myproc es s = Ok (cur s) s es"
  by (simp add: myproc_def)

definition woken :: "chan \<Rightarrow> proc \<Rightarrow> proc" where
  "woken ch q = (if pstate q = SLEEPING \<and> pchan q = Some ch then q\<lparr>pstate := RUNNABLE\<rparr> else q)"

lemma wakeup_one_Ok:
  assumes "ProcLock p \<notin> set (held s) \<or> cur s = Some p"
  shows "wakeup_one ch p es s =
    Ok () (s\<lparr>procs := (procs s)(p := if cur s = Some p then procs s p else woken ch (procs s p))\<rparr>) es"
  using assms by (auto simp: wakeup_one_def woken_def kif_def)

lemma wakeup_list_Ok:
  assumes "distinct ps" "\<And>p. p \<in> set ps \<Longrightarrow> ProcLock p \<notin> set (held s) \<or> cur s = Some p"
  shows "kfor ps (wakeup_one ch) es s =
    Ok () (s\<lparr>procs := \<lambda>p. if p \<in> set ps \<and> cur s \<noteq> Some p then woken ch (procs s p) else procs s p\<rparr>) es"
  using assms
proof (induction ps arbitrary: s)
  case (Cons a ps)
  define f where "f = (procs s)(a := if cur s = Some a then procs s a else woken ch (procs s a))"
  have step: "wakeup_one ch a es s = Ok () (s\<lparr>procs := f\<rparr>) es"
    unfolding f_def using Cons.prems by (intro wakeup_one_Ok) simp
  have IH: "kfor ps (wakeup_one ch) es (s\<lparr>procs := f\<rparr>) =
      Ok () (s\<lparr>procs := \<lambda>p. if p \<in> set ps \<and> cur s \<noteq> Some p then woken ch (f p) else f p\<rparr>) es"
    using Cons.IH [of "s\<lparr>procs := f\<rparr>"] Cons.prems by (simp cong: if_cong)
  have "(\<lambda>p. if p \<in> set ps \<and> cur s \<noteq> Some p then woken ch (f p) else f p) =
      (\<lambda>p. if p \<in> set (a # ps) \<and> cur s \<noteq> Some p then woken ch (procs s p) else procs s p)"
    using Cons.prems(1) by (auto simp: f_def fun_eq_iff)
  then show ?case using step IH by simp
qed simp

lemma wakeup_Ok:
  assumes "\<And>p. ProcLock p \<notin> set (held s)"
  shows "wakeup ch es s =
    Ok () (s\<lparr>procs := \<lambda>p. if p < NPROC \<and> cur s \<noteq> Some p then woken ch (procs s p) else procs s p\<rparr>) es"
  unfolding wakeup_def using wakeup_list_Ok [of "[0..<NPROC]" s ch es] assms by simp

lemma acquiresleep_Ok:
  assumes "cur s = Some p" "\<not> slocked (slocks s lk)" "SleepLk lk \<notin> set (held s)"
  shows "acquiresleep lk es s =
    Ok () (s\<lparr>slocks := (slocks s)(lk := \<lparr>slocked = True, slpid = pid (procs s p)\<rparr>)\<rparr>) es"
proof -
  have r: "(slocks s lk)\<lparr>slocked := True, slpid := v\<rparr> = \<lparr>slocked = True, slpid = v\<rparr>" for v by simp
  have "acquiresleep_loop lk es (s\<lparr>held := SleepLk lk # held s\<rparr>) = Ok () (s\<lparr>held := SleepLk lk # held s\<rparr>) es"
    using assms(2) by (subst acquiresleep_loop.simps) simp
  then show ?thesis using assms by (simp add: acquiresleep_def r)
qed

lemma holdingsleep_Ok:
  assumes "cur s = Some p" "SleepLk lk \<notin> set (held s)"
  shows "holdingsleep lk es s = Ok (slocked (slocks s lk) \<and> slpid (slocks s lk) = pid (procs s p)) s es"
  using assms by (simp add: holdingsleep_def)

definition woken_all :: "chan \<Rightarrow> nat option \<Rightarrow> (nat \<Rightarrow> proc) \<Rightarrow> nat \<Rightarrow> proc" where
  "woken_all ch me f p = (if p < NPROC \<and> me \<noteq> Some p then woken ch (f p) else f p)"

lemma woken_pid [simp]: "pid (woken ch q) = pid q" "pid (woken_all ch me f p) = pid (f p)"
  by (simp_all add: woken_def woken_all_def)

lemma woken_me [simp]: "woken_all ch (Some p) f p = f p"
  by (simp add: woken_all_def)

lemma releasesleep_Ok:
  assumes "\<And>p. ProcLock p \<notin> set (held s)" "SleepLk lk \<notin> set (held s)"
  shows "releasesleep lk es s = Ok () (s\<lparr>slocks := (slocks s)(lk := \<lparr>slocked = False, slpid = 0\<rparr>),
    procs := woken_all (ChSleep lk) (cur s) (procs s)\<rparr>) es"
  using assms wakeup_Ok [of "s\<lparr>held := SleepLk lk # held s, slocks := (slocks s)(lk := \<lparr>slocked = False, slpid = 0\<rparr>)\<rparr>"
    "ChSleep lk" es]
  by (simp add: releasesleep_def woken_all_def [abs_def] cong: if_cong)

end
