(* ===== verification/Xv6_Vm.thy ===== *)
theory Xv6_Vm
  imports Xv6_Kalloc
begin

text \<open>
  Page tables (\<open>kernel/vm.c\<close> and the Sv39 macros of \<open>kernel/riscv.h\<close>). A page table is three
  levels of pages of 512 entries in the byte memory, allocated with \<open>kalloc\<close>. The theory
  defines the routines on the memory, the tree of page-table pages that a root describes,
  and the view \<open>vpte\<close> of a page table as a function from virtual page numbers to entries. The
  lemmas say what each routine does to the view, which pages it takes from or gives back
  to the allocator, and that it writes nothing else.
\<close>

section \<open>The entries of a page table\<close>

definition PTE_V :: uint64 where "PTE_V = 1"
definition PTE_R :: uint64 where "PTE_R = 2"
definition PTE_W :: uint64 where "PTE_W = 4"
definition PTE_X :: uint64 where "PTE_X = 8"
definition PTE_U :: uint64 where "PTE_U = 16"

definition PA2PTE :: "uint64 \<Rightarrow> uint64" where
  "PA2PTE pa = push_bit 10 (drop_bit 12 pa)"

definition PTE2PA :: "uint64 \<Rightarrow> uint64" where
  "PTE2PA pte = push_bit 12 (drop_bit 10 pte)"

definition PTE_FLAGS :: "uint64 \<Rightarrow> uint64" where
  "PTE_FLAGS pte = pte AND 0x3FF"

definition PX :: "nat \<Rightarrow> uint64 \<Rightarrow> uint64" where
  "PX level va = drop_bit (12 + 9 * level) va AND 0x1FF"

section \<open>The routines\<close>

primrec walk_levels :: "nat \<Rightarrow> addr \<Rightarrow> uint64 \<Rightarrow> bool \<Rightarrow> ('z kmem_scheme, addr) km" where
  "walk_levels 0 pt va al = kret (pt + 8 * PX 0 va)"
| "walk_levels (Suc l) pt va al =
     kbind (kget (\<lambda>s. load64 (mem s) (pt + 8 * PX (Suc l) va))) (\<lambda>pte.
     kif (pte AND PTE_V \<noteq> 0)
       (walk_levels l (PTE2PA pte) va al)
     (kif (\<not> al)
       (kret 0)
       (kbind kalloc (\<lambda>p.
        kif (p = 0)
          (kret 0)
          (kthen (kmod (\<lambda>s. s\<lparr>mem := memset (mem s) p 0 4096\<rparr>))
          (kthen (kmod (\<lambda>s. s\<lparr>mem := store64 (mem s) (pt + 8 * PX (Suc l) va) (PA2PTE p OR PTE_V)\<rparr>))
                 (walk_levels l p va al)))))))"

definition walk :: "addr \<Rightarrow> uint64 \<Rightarrow> bool \<Rightarrow> ('z kmem_scheme, addr) km" where
  "walk pt va al =
     kthen (kpanic_if (\<lambda>_. va \<ge> MAXVA) ''walk'')
           (walk_levels 2 pt va al)"

definition walkaddr :: "addr \<Rightarrow> uint64 \<Rightarrow> ('z kmem_scheme, uint64) km" where
  "walkaddr pt va =
     kif (va \<ge> MAXVA) (kret 0)
    (kbind (walk pt va False) (\<lambda>p.
     kif (p = 0) (kret 0)
    (kbind (kget (\<lambda>s. load64 (mem s) p)) (\<lambda>pte.
     kif (pte AND PTE_V = 0) (kret 0)
    (kif (pte AND PTE_U = 0) (kret 0)
    (kret (PTE2PA pte)))))))"

lemma walk_Ok_bound: "walk pt va al es s = Ok x s' es' \<Longrightarrow> va < MAXVA"
  by (auto simp: walk_def elim!: kmonadE)

lemma page_step_measure:
  assumes "a < MAXVA"
  shows "2 ^ 64 - unat (a + 4096) < 2 ^ 64 - unat a" "unat (a + 4096) = unat a + 4096"
proof -
  have lt: "unat a + 4096 < 2 ^ 64" using assms by (simp add: word_less_nat_alt MAXVA_eq)
  then show eq: "unat (a + 4096) = unat a + 4096" using unat_add_of_nat [of a 4096] by simp
  show "2 ^ 64 - unat (a + 4096) < 2 ^ 64 - unat a" unfolding eq using lt by linarith
qed

function mappages_loop ::
  "addr \<Rightarrow> uint64 \<Rightarrow> uint64 \<Rightarrow> uint64 \<Rightarrow> uint64 \<Rightarrow> ('z kmem_scheme, int) km"
where
  "mappages_loop pt a last_va pa perm es s =
     kbind (walk pt a True) (\<lambda>pte.
     kif (pte = 0) (kret (- 1))
    (kthen (kpanic_if (\<lambda>s. load64 (mem s) pte AND PTE_V \<noteq> 0) ''mappages: remap'')
    (kthen (kmod (\<lambda>s. s\<lparr>mem := store64 (mem s) pte (PA2PTE pa OR perm OR PTE_V)\<rparr>))
    (kif (a = last_va) (kret 0)
      (mappages_loop pt (a + 4096) last_va (pa + 4096) perm))))) es s"
  by pat_completeness auto
termination
  by (relation "measure (\<lambda>(pt, a, last_va, pa, perm, es, s). 2 ^ 64 - unat a)")
    (auto dest!: walk_Ok_bound page_step_measure(1))

declare mappages_loop.simps [simp del]

definition mappages :: "addr \<Rightarrow> uint64 \<Rightarrow> uint64 \<Rightarrow> uint64 \<Rightarrow> uint64 \<Rightarrow> ('z kmem_scheme, int) km" where
  "mappages pt va sz pa perm =
     kthen (kpanic_if (\<lambda>_. unat va mod PGSIZE \<noteq> 0) ''mappages: va not aligned'')
    (kthen (kpanic_if (\<lambda>_. unat sz mod PGSIZE \<noteq> 0) ''mappages: size not aligned'')
    (kthen (kpanic_if (\<lambda>_. sz = 0) ''mappages: size'')
           (mappages_loop pt va (va + sz - 4096) pa perm)))"

definition uvmcreate :: "('z kmem_scheme, addr) km" where
  "uvmcreate =
     kbind kalloc (\<lambda>pt.
     kif (pt = 0) (kret 0)
    (kthen (kmod (\<lambda>s. s\<lparr>mem := memset (mem s) pt 0 4096\<rparr>))
           (kret pt)))"

function uvmunmap_loop :: "addr \<Rightarrow> uint64 \<Rightarrow> uint64 \<Rightarrow> bool \<Rightarrow> ('z kmem_scheme, unit) km" where
  "uvmunmap_loop pt a end_va do_free es s =
     kif (\<not> a < end_va) (kret ())
    (kbind (walk pt a False) (\<lambda>pte.
     kif (pte = 0) (uvmunmap_loop pt (a + 4096) end_va do_free)
    (kbind (kget (\<lambda>s. load64 (mem s) pte)) (\<lambda>v.
     kif (v AND PTE_V = 0) (uvmunmap_loop pt (a + 4096) end_va do_free)
    (kthen (if do_free then kfree (PTE2PA v) else kret ())
    (kthen (kmod (\<lambda>s. s\<lparr>mem := store64 (mem s) pte 0\<rparr>))
           (uvmunmap_loop pt (a + 4096) end_va do_free))))))) es s"
  by pat_completeness auto
termination
  by (relation "measure (\<lambda>(pt, a, end_va, do_free, es, s). 2 ^ 64 - unat a)")
    (auto dest!: walk_Ok_bound page_step_measure(1))

declare uvmunmap_loop.simps [simp del]

definition uvmunmap :: "addr \<Rightarrow> uint64 \<Rightarrow> uint64 \<Rightarrow> bool \<Rightarrow> ('z kmem_scheme, unit) km" where
  "uvmunmap pt va npages do_free =
     kthen (kpanic_if (\<lambda>_. unat va mod PGSIZE \<noteq> 0) ''uvmunmap: not aligned'')
           (uvmunmap_loop pt va (va + npages * 4096) do_free)"

definition uvmdealloc :: "addr \<Rightarrow> uint64 \<Rightarrow> uint64 \<Rightarrow> ('z kmem_scheme, uint64) km" where
  "uvmdealloc pt oldsz newsz =
     kif (newsz \<ge> oldsz) (kret oldsz)
    (kthen (if PGROUNDUP newsz < PGROUNDUP oldsz
            then let npages = scast (ucast ((PGROUNDUP oldsz - PGROUNDUP newsz) div 4096) :: uint32)
                 in uvmunmap pt (PGROUNDUP newsz) npages True
            else kret ())
           (kret newsz))"

lemma mappages_Ok_bound: "mappages pt va sz pa perm es s = Ok x s' es' \<Longrightarrow> va < MAXVA"
  by (auto simp: mappages_def mappages_loop.simps [of pt va] elim!: kthen_OkE kpanic_if_OkE)
    (auto elim!: kbind_OkE dest!: walk_Ok_bound)

function uvmalloc_loop :: "addr \<Rightarrow> uint64 \<Rightarrow> uint64 \<Rightarrow> uint64 \<Rightarrow> uint64 \<Rightarrow> ('z kmem_scheme, uint64) km" where
  "uvmalloc_loop pt a oldsz newsz xperm es s =
     kif (\<not> a < newsz) (kret newsz)
    (kbind kalloc (\<lambda>p.
     kif (p = 0)
       (kthen (uvmdealloc pt a oldsz) (kret 0))
    (kthen (kmod (\<lambda>s. s\<lparr>mem := memset (mem s) p 0 4096\<rparr>))
    (kbind (mappages pt a 4096 p (PTE_R OR PTE_U OR xperm)) (\<lambda>r.
     kif (r \<noteq> 0)
       (kthen (kfree p) (kthen (uvmdealloc pt a oldsz) (kret 0)))
       (uvmalloc_loop pt (a + 4096) oldsz newsz xperm)))))) es s"
  by pat_completeness auto
termination
  by (relation "measure (\<lambda>(pt, a, oldsz, newsz, xperm, es, s). 2 ^ 64 - unat a)")
    (auto dest!: mappages_Ok_bound page_step_measure(1))

declare uvmalloc_loop.simps [simp del]

definition uvmalloc :: "addr \<Rightarrow> uint64 \<Rightarrow> uint64 \<Rightarrow> uint64 \<Rightarrow> ('z kmem_scheme, uint64) km" where
  "uvmalloc pt oldsz newsz xperm =
     kif (newsz < oldsz) (kret oldsz)
         (uvmalloc_loop pt (PGROUNDUP oldsz) (PGROUNDUP oldsz) newsz xperm)"

text \<open>
  \<open>freewalk\<close> recurses once per level of the tree. The first argument bounds the depth of the
  recursion: a deeper one overruns the kernel stack page and faults on the guard page below
  it, which \<open>kerneltrap\<close> reports. The three levels of Sv39 need depth 3.
\<close>

definition freewalk_entry :: "(addr \<Rightarrow> ('z kmem_scheme, unit) km) \<Rightarrow> addr \<Rightarrow> nat \<Rightarrow> ('z kmem_scheme, unit) km" where
  "freewalk_entry recurse pt i =
     kbind (kget (\<lambda>s. load64 (mem s) (pt + 8 * of_nat i))) (\<lambda>pte.
     kif (pte AND PTE_V \<noteq> 0 \<and> pte AND (PTE_R OR PTE_W OR PTE_X) = 0)
       (kthen (recurse (PTE2PA pte))
              (kmod (\<lambda>s. s\<lparr>mem := store64 (mem s) (pt + 8 * of_nat i) 0\<rparr>)))
    (kif (pte AND PTE_V \<noteq> 0) (kpanic ''freewalk: leaf'') (kret ())))"

primrec freewalk :: "nat \<Rightarrow> addr \<Rightarrow> ('z kmem_scheme, unit) km" where
  "freewalk 0 pt = kpanic ''kerneltrap''"
| "freewalk (Suc d) pt =
     kthen (kfor [0..<512] (freewalk_entry (freewalk d) pt))
           (kfree pt)"

definition uvmfree :: "addr \<Rightarrow> uint64 \<Rightarrow> ('z kmem_scheme, unit) km" where
  "uvmfree pt sz =
     kthen (if sz > 0 then uvmunmap pt 0 (PGROUNDUP sz div 4096) True else kret ())
           (freewalk 3 pt)"

function uvmcopy_loop :: "addr \<Rightarrow> addr \<Rightarrow> uint64 \<Rightarrow> uint64 \<Rightarrow> ('z kmem_scheme, int) km" where
  "uvmcopy_loop old new i sz es s =
     kif (\<not> i < sz) (kret 0)
    (kbind (walk old i False) (\<lambda>p.
     kif (p = 0) (uvmcopy_loop old new (i + 4096) sz)
    (kbind (kget (\<lambda>s. load64 (mem s) p)) (\<lambda>pte.
     kif (pte AND PTE_V = 0) (uvmcopy_loop old new (i + 4096) sz)
    (kbind kalloc (\<lambda>page.
     kif (page = 0)
       (kthen (uvmunmap new 0 (i div 4096) True) (kret (- 1)))
    (kthen (kmod (\<lambda>s. s\<lparr>mem := memmove (mem s) page (PTE2PA pte) 4096\<rparr>))
    (kbind (mappages new i 4096 page (PTE_FLAGS pte)) (\<lambda>r.
     kif (r \<noteq> 0)
       (kthen (kfree page) (kthen (uvmunmap new 0 (i div 4096) True) (kret (- 1))))
       (uvmcopy_loop old new (i + 4096) sz)))))))))) es s"
  by pat_completeness auto
termination
  by (relation "measure (\<lambda>(old, new, i, sz, es, s). 2 ^ 64 - unat i)")
    (auto dest!: walk_Ok_bound page_step_measure(1))

declare uvmcopy_loop.simps [simp del]

definition uvmcopy :: "addr \<Rightarrow> addr \<Rightarrow> uint64 \<Rightarrow> ('z kmem_scheme, int) km" where
  "uvmcopy old new sz = uvmcopy_loop old new 0 sz"

definition uvmclear :: "addr \<Rightarrow> uint64 \<Rightarrow> ('z kmem_scheme, unit) km" where
  "uvmclear pt va =
     kbind (walk pt va False) (\<lambda>p.
     kthen (kpanic_if (\<lambda>_. p = 0) ''uvmclear'')
           (kmod (\<lambda>s. s\<lparr>mem := store64 (mem s) p (load64 (mem s) p AND NOT PTE_U)\<rparr>)))"

definition ismapped :: "addr \<Rightarrow> uint64 \<Rightarrow> ('z kmem_scheme, bool) km" where
  "ismapped pt va =
     kbind (walk pt va False) (\<lambda>p.
     kif (p = 0) (kret False)
    (kbind (kget (\<lambda>s. load64 (mem s) p)) (\<lambda>pte.
     kif (pte AND PTE_V \<noteq> 0) (kret True) (kret False))))"

definition kvmmap :: "addr \<Rightarrow> uint64 \<Rightarrow> uint64 \<Rightarrow> uint64 \<Rightarrow> uint64 \<Rightarrow> ('z kmem_scheme, unit) km" where
  "kvmmap kpgtbl va pa sz perm =
     kbind (mappages kpgtbl va sz pa perm) (\<lambda>r.
     kif (r \<noteq> 0) (kpanic ''kvmmap'') (kret ()))"

section \<open>Arithmetic of entries and indices\<close>

lemma and_flag_eq_0_iff:
  fixes v :: uint64
  shows "v AND PTE_V = 0 \<longleftrightarrow> \<not> bit v 0" "v AND PTE_R = 0 \<longleftrightarrow> \<not> bit v 1"
    "v AND PTE_W = 0 \<longleftrightarrow> \<not> bit v 2" "v AND PTE_X = 0 \<longleftrightarrow> \<not> bit v 3"
    "v AND PTE_U = 0 \<longleftrightarrow> \<not> bit v 4"
  using and_exp_eq_0_iff_not_bit [of v 0] and_exp_eq_0_iff_not_bit [of v 1]
    and_exp_eq_0_iff_not_bit [of v 2] and_exp_eq_0_iff_not_bit [of v 3]
    and_exp_eq_0_iff_not_bit [of v 4]
  by (simp_all add: PTE_V_def PTE_R_def PTE_W_def PTE_X_def PTE_U_def)

lemma bit_flag_iff:
  "bit PTE_V n \<longleftrightarrow> n = 0" "bit PTE_R n \<longleftrightarrow> n = 1" "bit PTE_W n \<longleftrightarrow> n = 2" "bit PTE_X n \<longleftrightarrow> n = 3"
  "bit PTE_U n \<longleftrightarrow> n = 4"
proof -
  have e: "PTE_V = 2 ^ 0" "PTE_R = 2 ^ 1" "PTE_W = 2 ^ 2" "PTE_X = 2 ^ 3" "PTE_U = 2 ^ 4"
    by (simp_all add: PTE_V_def PTE_R_def PTE_W_def PTE_X_def PTE_U_def)
  show "bit PTE_V n \<longleftrightarrow> n = 0" "bit PTE_R n \<longleftrightarrow> n = 1" "bit PTE_W n \<longleftrightarrow> n = 2" "bit PTE_X n \<longleftrightarrow> n = 3"
    "bit PTE_U n \<longleftrightarrow> n = 4"
    unfolding e bit_exp_iff by auto
qed

lemma take_bit_self_iff:
  fixes w :: uint64
  assumes "k < 64"
  shows "take_bit k w = w \<longleftrightarrow> w < 2 ^ k"
proof -
  have "take_bit k w = w \<longleftrightarrow> take_bit k (unat w) = unat w"
    by (simp add: word_unat_eq_iff unsigned_take_bit_eq)
  also have "\<dots> \<longleftrightarrow> unat w < 2 ^ k" by (simp add: take_bit_nat_eq_self_iff)
  also have "\<dots> \<longleftrightarrow> w < 2 ^ k"
    using assms power_strict_increasing [of k 64 "2::nat"] unat_of_nat [of "2 ^ k", where 'a = 64]
    by (simp add: word_less_nat_alt)
  finally show ?thesis .
qed

lemma bit_high:
  fixes w :: uint64
  assumes "w < 2 ^ k" "k \<le> n"
  shows "\<not> bit w n"
proof (cases "k < 64")
  case True
  then have "take_bit k w = w" using assms(1) by (simp add: take_bit_self_iff)
  then show ?thesis using assms(2) by (metis bit_take_bit_iff not_le)
next
  case False
  then show ?thesis using assms(2) bit_imp_le_length [of w n] by auto
qed

lemma bit_small:
  fixes w :: uint64
  shows "w < 1024 \<Longrightarrow> 10 \<le> n \<Longrightarrow> \<not> bit w n"
  using bit_high [of w 10 n] by simp

lemma page_aligned_bit:
  assumes "page_aligned pa" "n < 12"
  shows "\<not> bit pa n"
proof -
  have "2 ^ 12 dvd unat pa" using assms(1) by (simp add: page_aligned_def PGSIZE_def mod_eq_0_iff_dvd)
  then have "take_bit 12 (unat pa) = 0" by (simp add: take_bit_eq_0_iff)
  then have "\<not> bit (unat pa) n" using assms(2) by (metis bit_0_eq bit_take_bit_iff bot_apply bot_bool_def)
  then show ?thesis by (simp add: bit_unsigned_iff)
qed

lemma PTE2PA_PA2PTE:
  assumes "page_aligned pa" "pa < 2 ^ 56" "perm < 1024"
  shows "PTE2PA (PA2PTE pa OR perm) = pa"
proof (rule bit_eqI)
  fix n assume "possible_bit TYPE(64 word) n"
  then have "n < 64" by simp
  show "bit (PTE2PA (PA2PTE pa OR perm)) n \<longleftrightarrow> bit pa n"
  proof (cases "n < 12")
    case True
    then show ?thesis using page_aligned_bit [OF assms(1)]
      by (simp add: PTE2PA_def bit_simps)
  next
    case False
    then have e: "10 + (n - 12) = n - 2" "12 + (n - 2 - 10) = n" "10 \<le> n - 2" "n - 2 < 64" "12 \<le> n"
      using \<open>n < 64\<close> by auto
    show ?thesis
    proof (cases "n < 56")
      case True
      then show ?thesis using False \<open>n < 64\<close> bit_small [OF assms(3), of "n - 2"] e
        by (simp add: PTE2PA_def PA2PTE_def bit_simps)
    next
      case False
      then have "\<not> bit pa n" using bit_high [OF assms(2)] by simp
      then show ?thesis using False \<open>n < 64\<close> bit_small [OF assms(3), of "n - 2"] e
        by (simp add: PTE2PA_def PA2PTE_def bit_simps)
    qed
  qed
qed

lemma or_less_1024:
  fixes a b :: uint64
  assumes "a < 1024" "b < 1024"
  shows "a OR b < 1024"
proof -
  have "take_bit 10 a = a" "take_bit 10 b = b" using assms by (simp_all add: take_bit_self_iff)
  then have "take_bit 10 (a OR b) = a OR b" by simp
  then show ?thesis using take_bit_self_iff [of 10 "a OR b"] by (simp del: take_bit_or)
qed

lemma PTE2PA_leaf:
  assumes "page_aligned pa" "pa < 2 ^ 56" "perm < 1024"
  shows "PTE2PA (PA2PTE pa OR perm OR PTE_V) = pa"
  using PTE2PA_PA2PTE [OF assms(1,2) or_less_1024 [OF assms(3), of PTE_V]]
  by (simp add: PTE_V_def or.assoc)

lemma PTE_FLAGS_leaf:
  assumes "perm < 1024"
  shows "PTE_FLAGS (PA2PTE pa OR perm OR PTE_V) = perm OR PTE_V"
proof (rule bit_eqI)
  fix n
  have m: "(0x3FF :: uint64) = mask 10" by (simp add: mask_eq_exp_minus_1)
  show "bit (PTE_FLAGS (PA2PTE pa OR perm OR PTE_V)) n \<longleftrightarrow> bit (perm OR PTE_V) n"
    using bit_small [OF assms, of n] unfolding PTE_FLAGS_def m
    by (cases "n < 10") (auto simp: PA2PTE_def PTE_V_def bit_simps)
qed

lemma PTE_V_nonzero [simp]: "PTE_V \<noteq> 0"
  by (simp add: PTE_V_def)

lemma pte_valid_leaf [simp]: "(PA2PTE pa OR perm OR PTE_V) AND PTE_V \<noteq> 0"
  unfolding and_flag_eq_0_iff by (simp add: bit_simps PTE_V_def)

lemma pte_valid_dir [simp]: "(PA2PTE pa OR PTE_V) AND PTE_V \<noteq> 0"
  unfolding and_flag_eq_0_iff by (simp add: bit_simps PTE_V_def)

lemma PTE2PA_page [simp]: "page_aligned (PTE2PA pte)"
proof -
  have "unat (PTE2PA pte) mod 2 ^ 12 = 0"
    by (simp add: PTE2PA_def push_bit_eq_mult unat_word_ariths mod_mod_cancel flip: take_bit_eq_mod)
  then show ?thesis by (simp add: page_aligned_def PGSIZE_def)
qed

lemma unat_PX: "unat (PX l va) = page_no va div 512 ^ l mod 512"
proof -
  have m: "(0x1FF :: uint64) = mask 9" by (simp add: mask_eq_exp_minus_1)
  have "PX l va = take_bit 9 (drop_bit (12 + 9 * l) va)"
    unfolding PX_def m by (simp add: take_bit_eq_mask)
  then have "unat (PX l va) = take_bit 9 (drop_bit (12 + 9 * l) (unat va))"
    using unat64_less [of va] by (simp add: unsigned_take_bit_eq unsigned_drop_bit_eq take_bit_nat_eq_self)
  also have "\<dots> = unat va div 2 ^ (12 + 9 * l) mod 512"
    by (simp add: take_bit_eq_mod drop_bit_eq_div)
  also have "(2::nat) ^ (12 + 9 * l) = 4096 * 512 ^ l"
    by (simp add: power_add power_mult)
  finally show ?thesis by (simp add: page_no_def PGSIZE_def div_mult2_eq)
qed

section \<open>The tree of page-table pages\<close>

text \<open>Entry \<open>i\<close> of the page-table page at \<open>t\<close>.\<close>

definition slot :: "memory \<Rightarrow> addr \<Rightarrow> nat \<Rightarrow> uint64" where
  "slot m t i = load64 m (t + 8 * of_nat i)"

text \<open>The page-table page that a path of indices leads to from the root.\<close>

primrec pt_node :: "memory \<Rightarrow> addr \<Rightarrow> nat list \<Rightarrow> addr option" where
  "pt_node m t [] = Some t"
| "pt_node m t (i # is) =
     (if i < 512 \<and> slot m t i AND PTE_V \<noteq> 0 then pt_node m (PTE2PA (slot m t i)) is else None)"

definition pt_pages :: "memory \<Rightarrow> addr \<Rightarrow> addr set" where
  "pt_pages m root = {a. \<exists>p. length p \<le> 2 \<and> pt_node m root p = Some a}"

text \<open>
  A well-formed page table: every page-table page is a page the allocator can have handed out
  (\<open>e\<close> is the end of the kernel image), no page is reached on two paths, and the entries of the
  two upper levels carry no permission (\<open>pt_dirs\<close>), which is how \<open>freewalk\<close> tells them from leaves.
\<close>

definition pt_dirs :: "memory \<Rightarrow> addr \<Rightarrow> bool" where
  "pt_dirs m root \<longleftrightarrow> (\<forall>p a i. length p \<le> 1 \<longrightarrow> pt_node m root p = Some a \<longrightarrow> i < 512 \<longrightarrow>
     slot m a i AND PTE_V \<noteq> 0 \<longrightarrow> slot m a i AND (PTE_R OR PTE_W OR PTE_X) = 0)"

definition pt_wf :: "addr \<Rightarrow> memory \<Rightarrow> addr \<Rightarrow> bool" where
  "pt_wf e m root \<longleftrightarrow> (\<forall>a \<in> pt_pages m root. valid_page e a) \<and>
     (\<forall>p q a. length p \<le> 2 \<longrightarrow> length q \<le> 2 \<longrightarrow>
        pt_node m root p = Some a \<longrightarrow> pt_node m root q = Some a \<longrightarrow> p = q) \<and>
     pt_dirs m root"

text \<open>The leaf entry of virtual page number \<open>n\<close>; 0 where the tree has no page for it.\<close>

definition pt_path :: "nat \<Rightarrow> nat list" where
  "pt_path n = [n div 512 ^ 2 mod 512, n div 512 mod 512]"

definition vpte :: "memory \<Rightarrow> addr \<Rightarrow> nat \<Rightarrow> uint64" where
  "vpte m root n =
     (if n < 512 ^ 3
      then case pt_node m root (pt_path n) of None \<Rightarrow> 0 | Some t \<Rightarrow> slot m t (n mod 512)
      else 0)"

lemma slot_unat: "page_aligned t \<Longrightarrow> i < 512 \<Longrightarrow> unat (t + 8 * of_nat i) = unat t + 8 * i"
  using unat_page_add [of t "8 * i"] by simp

lemma slot_in_page:
  assumes "page_aligned t" "i < 512"
  shows "aligned 8 (t + 8 * of_nat i)" "page_no (t + 8 * of_nat i) = page_no t"
proof -
  have "8 * i < 4096" using assms(2) by simp
  then show "page_no (t + 8 * of_nat i) = page_no t"
    using page_no_add [OF assms(1), of "8 * i"] by simp
  show "aligned 8 (t + 8 * of_nat i)"
    using page_aligned_8 [OF assms(1)] slot_unat [OF assms] by (simp add: aligned_def)
qed

lemma slot_store:
  assumes "page_aligned t" "page_aligned a" "i < 512" "j < 512"
  shows "slot (store64 m (t + 8 * of_nat i) v) a j = (if a = t \<and> j = i then v else slot m a j)"
proof (cases "a = t \<and> j = i")
  case False
  have "t + 8 * of_nat i \<noteq> a + 8 * of_nat j"
  proof (cases "a = t")
    case True
    show ?thesis using True False slot_unat [OF assms(1,3)] slot_unat [OF assms(1,4)]
      by (metis add_left_cancel nat_mult_eq_cancel1 zero_less_numeral)
  next
    case False
    then show ?thesis using assms page_aligned_eq_iff [of a t] slot_in_page(2) by metis
  qed
  then show ?thesis using False assms unfolding slot_def
    by (subst load64_store64_other) (auto intro: slot_in_page(1))
qed (auto simp: slot_def)

lemma slot_agree:
  assumes "agree_outside P m m'" "page_aligned t" "page_no t \<notin> P" "i < 512"
  shows "slot m' t i = slot m t i"
  unfolding slot_def using assms
  by (intro load64_agree) (simp_all only: slot_in_page not_False_eq_True)

lemma slot_memset_0:
  assumes "page_aligned t" "i < 512"
  shows "slot (memset m t 0 4096) t i = 0"
proof -
  have "memset m t 0 4096 (t + 8 * of_nat i + of_nat k) = 0" if "k < 8" for k
  proof -
    have "page_no (t + 8 * of_nat i + of_nat k) = page_no t"
      using slot_in_page [OF assms] page_no_add8 that by metis
    then have "unat (t + 8 * of_nat i + of_nat k - t) < 4096" using in_page_iff [OF assms(1)] by blast
    then show ?thesis unfolding memset_apply by simp
  qed
  then have "load64 (memset m t 0 4096) (t + 8 * of_nat i) = load64 (\<lambda>_. 0) (t + 8 * of_nat i)"
    by (intro load64_cong) simp
  also have "\<dots> = 0" by (simp add: load64_def eval_nat_numeral)
  finally show ?thesis by (simp add: slot_def)
qed

lemma pt_node_snoc:
  "pt_node m t (p @ [i]) = (case pt_node m t p of None \<Rightarrow> None
     | Some a \<Rightarrow> if i < 512 \<and> slot m a i AND PTE_V \<noteq> 0 then Some (PTE2PA (slot m a i)) else None)"
  by (induction p arbitrary: t) simp_all

lemma pt_node_append_None: "pt_node m t p = None \<Longrightarrow> pt_node m t (p @ q) = None"
  by (induction p arbitrary: t) (auto split: if_splits)

lemma pt_root_in [simp]: "root \<in> pt_pages m root"
  unfolding pt_pages_def by (auto intro: exI [of _ "[]"])

lemma pt_pagesI: "pt_node m root p = Some a \<Longrightarrow> length p \<le> 2 \<Longrightarrow> a \<in> pt_pages m root"
  by (auto simp: pt_pages_def)

lemma length_pt_path [simp]: "length (pt_path n) = 2"
  by (simp add: pt_path_def)

lemma pt_wf_valid: "pt_wf e m root \<Longrightarrow> pt_node m root p = Some a \<Longrightarrow> length p \<le> 2 \<Longrightarrow> valid_page e a"
  by (auto simp: pt_wf_def pt_pages_def)

lemma pt_wf_inj:
  "pt_wf e m root \<Longrightarrow> pt_node m root p = Some a \<Longrightarrow> pt_node m root q = Some a \<Longrightarrow>
   length p \<le> 2 \<Longrightarrow> length q \<le> 2 \<Longrightarrow> p = q"
  by (auto simp: pt_wf_def)

lemma pt_pages_page: "pt_wf e m root \<Longrightarrow> a \<in> pt_pages m root \<Longrightarrow> page_aligned a"
  by (simp add: pt_wf_def valid_page_def)

lemma page_no_inj: "page_aligned a \<Longrightarrow> page_aligned b \<Longrightarrow> page_no a = page_no b \<Longrightarrow> a = b"
  by (simp add: page_aligned_eq_iff)

text \<open>A page table only depends on the contents of its own pages.\<close>

lemma pt_node_agree:
  assumes "pt_wf e m root" "agree_outside P m m'" "page_no ` pt_pages m root \<inter> P = {}"
  shows "length p \<le> 2 \<Longrightarrow> pt_node m' root p = pt_node m root p"
proof (induction p rule: rev_induct)
  case (snoc i p)
  have "slot m' a i = slot m a i" if "pt_node m root p = Some a" "i < 512" for a
  proof -
    have a: "a \<in> pt_pages m root" using that snoc.prems by (auto intro: pt_pagesI)
    then show ?thesis
      using assms(3) that(2) by (intro slot_agree [OF assms(2) pt_pages_page [OF assms(1) a]]) auto
  qed
  then show ?case using snoc by (auto simp: pt_node_snoc split: option.splits)
qed simp

lemma pt_agree:
  assumes "pt_wf e m root" "agree_outside P m m'" "page_no ` pt_pages m root \<inter> P = {}"
  shows "pt_pages m' root = pt_pages m root" "pt_wf e m' root" "vpte m' root = vpte m root"
proof -
  note node = pt_node_agree [OF assms]
  show pages: "pt_pages m' root = pt_pages m root" using node by (auto simp: pt_pages_def)
  have sl: "slot m' a i = slot m a i" if "pt_node m root q = Some a" "length q \<le> 2" "i < 512" for a q i
    using slot_agree [OF assms(2) pt_pages_page [OF assms(1)], of a i] pt_pagesI [OF that(1,2)] assms(3) that(3)
    by blast
  have "pt_dirs m' root"
    unfolding pt_dirs_def
  proof (intro allI impI)
    fix q a i assume q: "length q \<le> 1" "pt_node m' root q = Some a" "i < 512" "slot m' a i AND PTE_V \<noteq> 0"
    then have "pt_node m root q = Some a" "slot m' a i = slot m a i" using node [of q] sl [of q a i] by auto
    then show "slot m' a i AND (PTE_R OR PTE_W OR PTE_X) = 0"
      using assms(1) q(1,3,4) unfolding pt_wf_def pt_dirs_def by auto
  qed
  then show "pt_wf e m' root" using assms(1) pages node unfolding pt_wf_def by metis
  have "slot m' t (n mod 512) = slot m t (n mod 512)" if "pt_node m root (pt_path n) = Some t" for t n
  proof -
    have t: "t \<in> pt_pages m root" using that by (auto intro: pt_pagesI)
    then show ?thesis
      using assms(3) by (intro slot_agree [OF assms(2) pt_pages_page [OF assms(1) t]]) auto
  qed
  then show "vpte m' root = vpte m root"
    using node [of "pt_path n" for n] by (intro ext) (auto simp: vpte_def split: option.splits)
qed

text \<open>Hanging a zeroed page into the tree.\<close>

lemma pt_extend:
  assumes wf: "pt_wf e m root" and p: "pt_node m root p = Some t" "length p \<le> 1" "i < 512"
    and free: "slot m t i AND PTE_V = 0" and c: "valid_page e c" "c \<notin> pt_pages m root"
    and ag: "agree_outside {page_no c} m m1" and zero: "\<And>j. j < 512 \<Longrightarrow> slot m1 c j = 0"
  defines "m' \<equiv> store64 m1 (t + 8 * of_nat i) (PA2PTE c OR PTE_V)"
  shows "\<And>q. length q \<le> 2 \<Longrightarrow> pt_node m' root q = (if q = p @ [i] then Some c else pt_node m root q)"
    and "pt_wf e m' root" and "pt_pages m' root = insert c (pt_pages m root)"
    and "vpte m' root = vpte m root"
proof -
  have t: "t \<in> pt_pages m root" using p by (auto intro: pt_pagesI)
  then have tc: "t \<noteq> c" and pt: "page_aligned t" "page_aligned c"
    using c wf by (auto simp: pt_pages_page valid_page_aligned)
  have slot_c: "slot m' c j = 0" if "j < 512" for j
    unfolding m'_def using that tc pt p(3) zero by (simp add: slot_store)
  have slot_o: "slot m' a j = (if a = t \<and> j = i then PA2PTE c OR PTE_V else slot m a j)"
    if "a \<in> pt_pages m root" "j < 512" for a j
  proof -
    have a: "page_aligned a" "a \<noteq> c" using that c wf by (auto simp: pt_pages_page)
    then have "slot m1 a j = slot m a j"
      using that page_no_inj [OF a(1) pt(2)] by (intro slot_agree [OF ag]) auto
    then show ?thesis unfolding m'_def using a pt p(3) that by (simp add: slot_store)
  qed
  have pa: "PTE2PA (PA2PTE c OR PTE_V) = c"
  proof (rule PTE2PA_PA2PTE)
    have "c < PHYSTOP" using c(1) by (simp add: valid_page_def)
    then show "c < 2 ^ 56" by (rule less_trans) (simp add: PHYSTOP_eq)
  qed (simp_all add: pt PTE_V_def)
  have none: "pt_node m root (p @ [i]) = None" using p free by (simp add: pt_node_snoc)
  show node: "pt_node m' root q = (if q = p @ [i] then Some c else pt_node m root q)"
    if "length q \<le> 2" for q
    using that
  proof (induction q rule: rev_induct)
    case (snoc j q)
    then have IH: "pt_node m' root q = (if q = p @ [i] then Some c else pt_node m root q)" by simp
    show ?case
    proof (cases "pt_node m root q")
      case None
      then have "q \<noteq> p" using p by auto
      then show ?thesis using IH None slot_c by (auto simp: pt_node_snoc)
    next
      case (Some a)
      then have a: "a \<in> pt_pages m root" using snoc.prems by (auto intro: pt_pagesI)
      have "a = t \<longleftrightarrow> q = p" using Some p snoc.prems pt_wf_inj [OF wf, of q t p] by auto
      then show ?thesis using IH Some none slot_o [OF a] pa p(3) by (auto simp: pt_node_snoc)
    qed
  qed simp
  show pages: "pt_pages m' root = insert c (pt_pages m root)"
  proof (intro equalityI subsetI)
    fix x assume "x \<in> pt_pages m' root"
    then obtain q where "length q \<le> 2" "pt_node m' root q = Some x" by (auto simp: pt_pages_def)
    then show "x \<in> insert c (pt_pages m root)"
      using node [of q] by (auto split: if_splits intro: pt_pagesI)
  next
    fix x assume "x \<in> insert c (pt_pages m root)"
    then consider "x = c" | q where "length q \<le> 2" "pt_node m root q = Some x"
      by (auto simp: pt_pages_def)
    then show "x \<in> pt_pages m' root"
    proof cases
      case 1
      then show ?thesis using node [of "p @ [i]"] p(2) by (intro pt_pagesI [of _ _ "p @ [i]"]) auto
    next
      case (2 q)
      then show ?thesis using node [of q] none by (intro pt_pagesI [of _ _ q]) auto
    qed
  qed
  have nc: "pt_node m root q \<noteq> Some c" if "length q \<le> 2" for q
    using that c(2) by (auto simp: pt_pages_def)
  have dir: "(PA2PTE c OR PTE_V) AND (PTE_R OR PTE_W OR PTE_X) = 0"
    by (rule bit_eqI) (auto simp: PA2PTE_def bit_simps bit_flag_iff)
  have "pt_dirs m' root"
    unfolding pt_dirs_def
  proof (intro allI impI)
    fix q a j
    assume q: "length q \<le> 1" "pt_node m' root q = Some a" "j < 512" and v: "slot m' a j AND PTE_V \<noteq> 0"
    have "pt_node m root q = Some a"
      using node [of q] q slot_c v by (auto split: if_splits)
    moreover from this have "a \<in> pt_pages m root" using q(1) by (auto intro: pt_pagesI)
    ultimately show "slot m' a j AND (PTE_R OR PTE_W OR PTE_X) = 0"
      using slot_o [of a j] q(1,3) v dir wf unfolding pt_wf_def pt_dirs_def by (cases "a = t \<and> j = i") auto
  qed
  then show "pt_wf e m' root"
    unfolding pt_wf_def pages using wf c(1) nc pt_wf_inj [OF wf]
    by (auto simp: node pt_wf_def split: if_splits)
  show "vpte m' root = vpte m root"
  proof (rule ext)
    fix n
    show "vpte m' root n = vpte m root n"
    proof (cases "pt_node m root (pt_path n)")
      case None
      then show ?thesis using node [of "pt_path n"] slot_c by (simp add: vpte_def)
    next
      case (Some a)
      then have a: "a \<in> pt_pages m root" by (auto intro: pt_pagesI)
      have "a \<noteq> t" using pt_wf_inj [OF wf Some, of p] p by auto
      then show ?thesis using Some none node [of "pt_path n"] slot_o [OF a]
        by (auto simp: vpte_def)
    qed
  qed
qed

section \<open>What walk does\<close>

definition vm_ok :: "'z kmem_scheme \<Rightarrow> addr list \<Rightarrow> addr \<Rightarrow> bool" where
  "vm_ok s xs root \<longleftrightarrow> kmem_ok s xs \<and> pt_wf (kend s) (mem s) root \<and> pt_pages (mem s) root \<inter> set xs = {}"

text \<open>
  \<open>vm_step s xs root s' xs'\<close>: from state \<open>s\<close> with free pages \<open>xs\<close> to \<open>s'\<close> with free pages \<open>xs'\<close>, the
  page table stays well-formed, pages were taken from the front of the free list only to be
  added to the tree, and no page outside the tree and the free list was written. \<open>vm_grow\<close>
  says besides that the view of the page table is the same.
\<close>

definition vm_step :: "'z kmem_scheme \<Rightarrow> addr list \<Rightarrow> addr \<Rightarrow> 'z kmem_scheme \<Rightarrow> addr list \<Rightarrow> bool" where
  "vm_step s xs root s' xs' \<longleftrightarrow>
     s' = s\<lparr>mem := mem s', freelist := freelist s'\<rparr> \<and> vm_ok s' xs' root \<and> (\<exists>ys. xs = ys @ xs') \<and>
     pt_pages (mem s') root \<union> set xs' = pt_pages (mem s) root \<union> set xs \<and>
     pt_pages (mem s) root \<subseteq> pt_pages (mem s') root \<and>
     agree_outside (page_no ` (pt_pages (mem s) root \<union> set xs)) (mem s) (mem s')"

definition vm_grow :: "'z kmem_scheme \<Rightarrow> addr list \<Rightarrow> addr \<Rightarrow> 'z kmem_scheme \<Rightarrow> addr list \<Rightarrow> bool" where
  "vm_grow s xs root s' xs' \<longleftrightarrow> vm_step s xs root s' xs' \<and> vpte (mem s') root = vpte (mem s) root"

lemma vm_step_refl: "vm_ok s xs root \<Longrightarrow> vm_step s xs root s xs"
  by (simp add: vm_step_def)

lemma vm_grow_refl: "vm_ok s xs root \<Longrightarrow> vm_grow s xs root s xs"
  by (simp add: vm_grow_def vm_step_refl)

lemma vm_step_ok: "vm_step s xs root s' xs' \<Longrightarrow> vm_ok s' xs' root"
  by (simp add: vm_step_def)

lemma vm_step_trans:
  assumes "vm_step s xs root t ys" "vm_step t ys root u zs"
  shows "vm_step s xs root u zs"
proof -
  have t: "t = s\<lparr>mem := mem t, freelist := freelist t\<rparr>" "u = t\<lparr>mem := mem u, freelist := freelist u\<rparr>"
    and eq: "pt_pages (mem t) root \<union> set ys = pt_pages (mem s) root \<union> set xs"
    and ag: "agree_outside (page_no ` (pt_pages (mem s) root \<union> set xs)) (mem s) (mem t)"
      "agree_outside (page_no ` (pt_pages (mem t) root \<union> set ys)) (mem t) (mem u)"
    and app: "\<exists>vs. xs = vs @ ys" "\<exists>vs. ys = vs @ zs"
    using assms by (auto simp: vm_step_def)
  have "u = s\<lparr>mem := mem u, freelist := freelist u\<rparr>"
    by (subst t(2), subst t(1)) simp
  moreover have "\<exists>vs. xs = vs @ zs" using app by (metis append.assoc)
  moreover have "agree_outside (page_no ` (pt_pages (mem s) root \<union> set xs)) (mem s) (mem u)"
    using agree_outside_trans [OF ag(1) ag(2) [unfolded eq]] by simp
  moreover have "vm_ok u zs root" "pt_pages (mem u) root \<union> set zs = pt_pages (mem s) root \<union> set xs"
    "pt_pages (mem s) root \<subseteq> pt_pages (mem u) root"
    using assms eq by (auto simp: vm_step_def)
  ultimately show ?thesis unfolding vm_step_def by blast
qed

lemma vm_grow_trans: "vm_grow s xs root t ys \<Longrightarrow> vm_grow t ys root u zs \<Longrightarrow> vm_grow s xs root u zs"
  by (auto simp: vm_grow_def intro: vm_step_trans)

lemma load64_slot: "load64 m (t + 8 * PX l va) = slot m t (unat (PX l va))"
  by (simp add: slot_def)

lemma unat_PX_less [simp]: "unat (PX l va) < 512"
  by (simp add: unat_PX)

text \<open>One level of \<open>walk\<close>: a new page-table page is allocated and linked.\<close>

lemma walk_alloc_step:
  assumes ok: "vm_ok s (c # xs) root" and p: "pt_node (mem s) root p = Some t" "length p \<le> 1"
    and free: "slot (mem s) t (unat (PX l va)) AND PTE_V = 0"
  shows "\<exists>s'. kthen (kmod (\<lambda>s. s\<lparr>mem := memset (mem s) c 0 4096\<rparr>))
      (kthen (kmod (\<lambda>s. s\<lparr>mem := store64 (mem s) (t + 8 * PX l va) (PA2PTE c OR PTE_V)\<rparr>)) k) es
      (s\<lparr>mem := memset (mem s) c 5 4096, freelist := load64 (mem s) c\<rparr>) = k es s' \<and>
    vm_grow s (c # xs) root s' xs \<and> pt_node (mem s') root (p @ [unat (PX l va)]) = Some c"
proof -
  let ?m1 = "memset (memset (mem s) c 5 4096) c 0 4096" and ?i = "unat (PX l va)"
  let ?s = "s\<lparr>mem := store64 ?m1 (t + 8 * PX l va) (PA2PTE c OR PTE_V), freelist := load64 (mem s) c\<rparr>"
  have wf: "pt_wf (kend s) (mem s) root" and km: "kmem_ok s (c # xs)"
    and dis: "pt_pages (mem s) root \<inter> set (c # xs) = {}" using ok by (simp_all add: vm_ok_def)
  have c: "valid_page (kend s) c" "c \<notin> pt_pages (mem s) root" "c \<notin> set xs"
    using km dis by (auto simp: kmem_ok_def)
  note pc = valid_page_aligned [OF c(1)]
  have ag: "agree_outside {page_no c} (mem s) ?m1"
    using agree_outside_trans [OF agree_outside_memset agree_outside_memset, OF pc _ pc] by simp
  have zero: "slot ?m1 c j = 0" if "j < 512" for j using slot_memset_0 [OF pc that] .
  note ext = pt_extend [OF wf p unat_PX_less free c(1,2) ag zero, simplified]
  have tin: "t \<in> pt_pages (mem s) root" using p by (auto intro: pt_pagesI)
  then have pt: "page_aligned t" by (rule pt_pages_page [OF wf])
  have ag2: "agree_outside {page_no c, page_no t} (mem s) (mem ?s)"
    using agree_outside_trans [OF ag agree_outside_store64 [OF slot_in_page(1) [OF pt, of ?i]]]
      slot_in_page(2) [OF pt, of ?i] by (simp add: insert_commute)
  obtain s1 where "kmem_ok s1 xs"
    and s1: "s1 = s\<lparr>mem := memset (mem s) c 5 4096, freelist := load64 (mem s) c\<rparr>"
    using kalloc_effect [OF km, of "[]"] by blast
  have km': "kmem_ok ?s xs"
  proof (rule kmem_ok_cong [OF \<open>kmem_ok s1 xs\<close>])
    have "agree_outside {page_no c} (mem s1) (mem s)"
      using agree_outside_memset [OF pc, of 4096] by (simp add: s1 agree_outside_def)
    from agree_outside_trans [OF this ag2]
    show "agree_outside {page_no c, page_no t} (mem s1) (mem ?s)" by (rule agree_outside_mono) auto
    fix x assume "x \<in> set xs"
    then have "page_aligned x" "x \<noteq> c" "x \<noteq> t"
      using km dis tin c by (auto simp: kmem_ok_def intro: valid_page_aligned)
    then show "page_no x \<notin> {page_no c, page_no t}" using pc pt page_no_inj by auto
  qed (use km in \<open>simp_all add: s1 kmem_ok_def\<close>)
  have "vm_grow s (c # xs) root ?s xs"
    unfolding vm_grow_def vm_step_def using km' tin ext(2,3,4) dis c(3) agree_outside_mono [OF ag2]
    by (simp add: vm_ok_def subset_insertI)
  moreover have "pt_node (mem ?s) root (p @ [?i]) = Some c" using ext(1) p(2) by simp
  ultimately show ?thesis by (intro exI [of _ ?s]) simp
qed

text \<open>
  The result of \<open>walk\<close>: the address of the leaf entry of the page, or 0 when the tree has no
  page for it (and, if \<open>walk\<close> may allocate, no page is left).
\<close>

definition walk_result :: "'z kmem_scheme \<Rightarrow> addr list \<Rightarrow> addr \<Rightarrow> nat \<Rightarrow> bool \<Rightarrow> addr \<Rightarrow> bool" where
  "walk_result s xs root n al a \<longleftrightarrow>
     (if a = 0 then pt_node (mem s) root (pt_path n) = None \<and> (al \<longrightarrow> xs = [])
      else \<exists>t. pt_node (mem s) root (pt_path n) = Some t \<and> a = t + 8 * of_nat (n mod 512))"

lemma slot_nonzero:
  assumes "valid_page e t" "i < 512"
  shows "t + 8 * of_nat i \<noteq> 0"
  using slot_unat [OF valid_page_aligned [OF assms(1)] assms(2)] assms(1)
  by (metis add_is_0 unat_eq_zero valid_page_def)

lemma walk_levels_spec:
  assumes "vm_ok s xs root" "pt_node (mem s) root p = Some pt" "length p + l = 2"
    and "p @ map (\<lambda>k. unat (PX k va)) (rev [1..<Suc l]) = pt_path (page_no va)"
  shows "\<exists>a s' xs'. walk_levels l pt va al es s = Ok a s' es \<and> vm_grow s xs root s' xs' \<and>
    walk_result s' xs' root (page_no va) al a \<and> (\<not> al \<longrightarrow> s' = s \<and> xs' = xs)"
  using assms
proof (induction l arbitrary: p pt s xs)
  case 0
  have "valid_page (kend s) pt"
    using 0 by (auto simp: vm_ok_def intro: pt_wf_valid)
  then have "pt + 8 * of_nat (page_no va mod 512) \<noteq> 0" by (rule slot_nonzero) simp
  moreover have "PX 0 va = of_nat (page_no va mod 512)"
    using unat_PX [of 0 va, symmetric] by simp
  ultimately show ?case using 0 vm_grow_refl [OF 0(1)]
    by (intro exI [of _ "pt + 8 * of_nat (page_no va mod 512)"] exI [of _ s] exI [of _ xs])
      (auto simp: walk_result_def)
next
  case (Suc l)
  let ?i = "unat (PX (Suc l) va)"
  have path: "(p @ [?i]) @ map (\<lambda>k. unat (PX k va)) (rev [1..<Suc l]) = pt_path (page_no va)"
    and len: "length (p @ [?i]) + l = 2" "length p \<le> 1" using Suc.prems by simp_all
  show ?case
  proof (cases "slot (mem s) pt ?i AND PTE_V = 0")
    case False
    then have "pt_node (mem s) root (p @ [?i]) = Some (PTE2PA (slot (mem s) pt ?i))"
      using Suc.prems by (simp add: pt_node_snoc)
    from Suc.IH [OF Suc.prems(1) this len(1) path] False show ?thesis by (simp add: load64_slot)
  next
    case True
    then have "pt_node (mem s) root (p @ [?i]) = None" using Suc.prems by (simp add: pt_node_snoc)
    then have none: "pt_node (mem s) root (pt_path (page_no va)) = None"
      unfolding path [symmetric] by (rule pt_node_append_None)
    show ?thesis
    proof (cases "al \<and> xs \<noteq> []")
      case False
      then have "walk_levels (Suc l) pt va al es s = Ok 0 s es"
        using True Suc.prems(1) by (cases al) (auto simp: load64_slot vm_ok_def kalloc_empty)
      then show ?thesis using vm_grow_refl [OF Suc.prems(1)] none False
        by (intro exI [of _ 0] exI [of _ s] exI [of _ xs]) (auto simp: walk_result_def)
    next
      case al: True
      then obtain c cs where xs: "xs = c # cs" by (cases xs) auto
      have km: "kmem_ok s (c # cs)" using Suc.prems(1) xs by (simp add: vm_ok_def)
      then have c0: "c \<noteq> 0" by (simp add: kmem_ok_def)
      from kalloc_effect [OF km, of es]
      have kal: "kalloc es s = Ok c (s\<lparr>mem := memset (mem s) c 5 4096, freelist := load64 (mem s) c\<rparr>) es"
        by blast
      from walk_alloc_step [OF Suc.prems(1) [unfolded xs] Suc.prems(2) len(2) True,
          of "walk_levels l c va al" es]
      obtain s1 where s1: "vm_grow s (c # cs) root s1 cs" "pt_node (mem s1) root (p @ [?i]) = Some c"
        and run: "walk_levels (Suc l) pt va al es s = walk_levels l c va al es s1"
        using True al c0 kal by (auto simp: load64_slot)
      have "vm_ok s1 cs root" using s1(1) by (simp add: vm_grow_def vm_step_def)
      from Suc.IH [OF this s1(2) len(1) path] show ?thesis
        using run al xs vm_grow_trans [OF s1(1)] by fastforce
    qed
  qed
qed

lemma walk_spec:
  assumes "vm_ok s xs root" "va < MAXVA"
  shows "\<exists>a s' xs'. walk root va al es s = Ok a s' es \<and> vm_grow s xs root s' xs' \<and>
    walk_result s' xs' root (page_no va) al a \<and> (\<not> al \<longrightarrow> s' = s \<and> xs' = xs)"
proof -
  have path: "[] @ map (\<lambda>k. unat (PX k va)) (rev [1..<Suc 2]) = pt_path (page_no va)"
  proof -
    have "[1..<Suc 2] = [1, 2]" by (simp add: upt_rec)
    then show ?thesis by (simp add: pt_path_def unat_PX)
  qed
  have eq: "walk root va al es s = walk_levels 2 root va al es s"
    unfolding walk_def by (rule kthen_Ok) (use assms(2) in \<open>simp add: not_le\<close>)
  show ?thesis unfolding eq by (rule walk_levels_spec [OF assms(1) _ _ path]) simp_all
qed

section \<open>Leaf entries\<close>

lemma page_no_MAXVA: "va < MAXVA \<Longrightarrow> page_no va < 512 ^ 3"
  by (simp add: page_no_def PGSIZE_def MAXVA_eq word_less_nat_alt)

lemma pt_path_inj:
  assumes "n < 512 ^ 3" "k < 512 ^ 3" "pt_path n = pt_path k" "n mod 512 = k mod 512"
  shows "n = k"
proof -
  have d: "x = 512 * (512 * (x div 512 ^ 2 mod 512) + x div 512 mod 512) + x mod 512"
    if "x < 512 ^ 3" for x :: nat
  proof -
    have "x div 512 ^ 2 < 512" using that by (simp add: less_mult_imp_div_less)
    then have "x div 512 ^ 2 mod 512 = x div 512 div 512" by (simp add: div_mult2_eq)
    then show ?thesis by presburger
  qed
  have e: "n div 512 ^ 2 mod 512 = k div 512 ^ 2 mod 512" "n div 512 mod 512 = k div 512 mod 512"
    using assms(3) by (simp_all add: pt_path_def)
  have "n = 512 * (512 * (k div 512 ^ 2 mod 512) + k div 512 mod 512) + k mod 512"
    using d [OF assms(1)] unfolding e assms(4) .
  also have "\<dots> = k" using d [OF assms(2)] by (rule sym)
  finally show ?thesis .
qed

lemma pt_leaf_store:
  fixes v :: uint64
  assumes wf: "pt_wf e m root" and t: "pt_node m root (pt_path n) = Some t" and n: "n < 512 ^ 3"
  defines "m' \<equiv> store64 m (t + 8 * of_nat (n mod 512)) v"
  shows "pt_wf e m' root" "pt_pages m' root = pt_pages m root"
    "vpte m' root = (vpte m root)(n := v)"
    "agree_outside {page_no t} m m'"
proof -
  have tp: "t \<in> pt_pages m root" using t by (auto intro: pt_pagesI)
  note pt = pt_pages_page [OF wf tp]
  have sl: "slot m' a j = (if a = t \<and> j = n mod 512 then v else slot m a j)"
    if "a \<in> pt_pages m root" "j < 512" for a j
    unfolding m'_def using slot_store [OF pt pt_pages_page [OF wf that(1)] _ that(2)] by simp
  have node: "pt_node m' root q = pt_node m root q" if "length q \<le> 2" for q
    using that
  proof (induction q rule: rev_induct)
    case (snoc j q)
    have "slot m' a j = slot m a j" if a: "pt_node m root q = Some a" and "j < 512" for a
    proof -
      have "a \<noteq> t" using pt_wf_inj [OF wf, of q t "pt_path n"] a t snoc.prems by auto
      then show ?thesis using sl [OF pt_pagesI [OF a]] snoc.prems that(2) by simp
    qed
    then show ?case using snoc by (auto simp: pt_node_snoc split: option.splits)
  qed simp
  show pages: "pt_pages m' root = pt_pages m root" using node by (auto simp: pt_pages_def)
  have "pt_dirs m' root"
    unfolding pt_dirs_def
  proof (intro allI impI)
    fix q a j
    assume q: "length q \<le> 1" "pt_node m' root q = Some a" "j < 512" "slot m' a j AND PTE_V \<noteq> 0"
    then have a: "pt_node m root q = Some a" using node by simp
    have "a \<noteq> t" using pt_wf_inj [OF wf, of q t "pt_path n"] a t q(1) by auto
    then have "slot m' a j = slot m a j" using sl [OF pt_pagesI [OF a]] q(1,3) by simp
    then show "slot m' a j AND (PTE_R OR PTE_W OR PTE_X) = 0"
      using wf q(1,3,4) a unfolding pt_wf_def pt_dirs_def by auto
  qed
  then show "pt_wf e m' root" using wf pages node unfolding pt_wf_def by metis
  show "vpte m' root = (vpte m root)(n := v)"
  proof
    fix k
    have "pt_node m root (pt_path k) = Some t \<longleftrightarrow> pt_path k = pt_path n"
      using pt_wf_inj [OF wf, of "pt_path k" t "pt_path n"] t by auto
    moreover have "slot m' a (k mod 512) = (if a = t \<and> k mod 512 = n mod 512 then v else slot m a (k mod 512))"
      if "pt_node m root (pt_path k) = Some a" for a
      using sl [OF pt_pagesI [OF that]] by simp
    ultimately show "vpte m' root k = ((vpte m root)(n := v)) k"
      using pt_path_inj [OF _ n, of k] n node [of "pt_path k"]
      by (auto simp: vpte_def split: option.splits)
  qed
  show "agree_outside {page_no t} m m'"
    unfolding m'_def using agree_outside_store64 [OF slot_in_page(1) [OF pt, of "n mod 512"], of m v]
      slot_in_page(2) [OF pt, of "n mod 512"] by simp
qed

lemma walk_result_vpte:
  assumes "walk_result s xs root n al a" "n < 512 ^ 3"
  shows "vpte (mem s) root n = (if a = 0 then 0 else load64 (mem s) a)"
  using assms by (auto simp: walk_result_def vpte_def slot_def split: if_splits)

end
