(* ===== verification/Xv6_Uvm.thy ===== *)
theory Xv6_Uvm
  imports Xv6_Vm
begin

text \<open>
  What the page-table routines of \<open>kernel/vm.c\<close> do, stated on the view of a page table:
  \<open>mappages\<close> sets exactly the entries of the range, \<open>uvmunmap\<close> clears exactly the entries of the
  range and gives the pages back, \<open>uvmalloc\<close> and \<open>uvmdealloc\<close> grow and shrink a user memory,
  \<open>uvmcopy\<close> duplicates one, \<open>uvmfree\<close> returns every page of one to the allocator.
\<close>

section \<open>Mapping\<close>

lemma vm_step_leaf:
  assumes "vm_ok s xs root" "pt_node (mem s) root (pt_path n) = Some t" "n < 512 ^ 3"
  shows "vm_step s xs root (s\<lparr>mem := store64 (mem s) (t + 8 * of_nat (n mod 512)) v\<rparr>) xs"
    and "vpte (store64 (mem s) (t + 8 * of_nat (n mod 512)) v) root = (vpte (mem s) root)(n := v)"
proof -
  let ?s = "s\<lparr>mem := store64 (mem s) (t + 8 * of_nat (n mod 512)) v\<rparr>"
  have ok: "kmem_ok s xs" "pt_wf (kend s) (mem s) root" "pt_pages (mem s) root \<inter> set xs = {}"
    using assms(1) by (simp_all add: vm_ok_def)
  note st = pt_leaf_store [OF ok(2) assms(2,3), of v]
  show "vpte (store64 (mem s) (t + 8 * of_nat (n mod 512)) v) root = (vpte (mem s) root)(n := v)"
    by (rule st(3))
  have t: "t \<in> pt_pages (mem s) root" using assms(2) by (auto intro: pt_pagesI)
  have "kmem_ok ?s xs"
  proof (rule kmem_ok_cong [OF ok(1)])
    show "agree_outside {page_no t} (mem s) (mem ?s)" using st(4) by simp
    fix x assume "x \<in> set xs"
    then have "page_aligned x" "x \<noteq> t" using ok t by (auto simp: kmem_ok_def intro: valid_page_aligned)
    then show "page_no x \<notin> {page_no t}" using page_no_inj pt_pages_page [OF ok(2) t] by auto
  qed (use ok in \<open>simp_all add: kmem_ok_def\<close>)
  moreover have "agree_outside (page_no ` (pt_pages (mem s) root \<union> set xs)) (mem s) (mem ?s)"
    using st(4) t by (auto intro: agree_outside_mono)
  ultimately show "vm_step s xs root ?s xs"
    using ok st(1,2) by (simp add: vm_step_def vm_ok_def)
qed

lemma page_no_step:
  assumes "a < MAXVA" "page_aligned a"
  shows "page_no (a + 4096) = Suc (page_no a)" "page_aligned (a + 4096)"
proof -
  have "unat (a + 4096) = unat a + 4096" by (rule page_step_measure(2) [OF assms(1)])
  then show "page_no (a + 4096) = Suc (page_no a)" "page_aligned (a + 4096)"
    using assms(2) by (auto simp: page_no_def page_aligned_def PGSIZE_def)
qed

text \<open>The view after \<open>j\<close> pages from page number \<open>n\<close> on were mapped to the pages from \<open>pa\<close> on.\<close>

definition map_range :: "nat \<Rightarrow> nat \<Rightarrow> uint64 \<Rightarrow> uint64 \<Rightarrow> (nat \<Rightarrow> uint64) \<Rightarrow> nat \<Rightarrow> uint64" where
  "map_range n j pa perm f i =
     (if n \<le> i \<and> i < n + j then PA2PTE (pa + 4096 * of_nat (i - n)) OR perm OR PTE_V else f i)"

lemma map_range_Suc:
  "map_range (Suc n) j (pa + 4096) perm (f(n := PA2PTE pa OR perm OR PTE_V)) = map_range n (Suc j) pa perm f"
proof
  fix i
  have "pa + 4096 + 4096 * of_nat (i - Suc n) = pa + 4096 * of_nat (i - n)" if "n < i"
  proof -
    have "i - n = Suc (i - Suc n)" using that by simp
    then show ?thesis by (simp add: algebra_simps)
  qed
  then show "map_range (Suc n) j (pa + 4096) perm (f(n := PA2PTE pa OR perm OR PTE_V)) i =
      map_range n (Suc j) pa perm f i"
    by (auto simp: map_range_def Suc_le_eq le_less)
qed

lemma map_range_0 [simp]: "map_range n 0 pa perm f = f"
  by (rule ext) (auto simp: map_range_def)

text \<open>One round of the loop of \<open>mappages\<close>.\<close>

lemma mappages_round:
  assumes "vm_ok s xs root" "va < MAXVA" "vpte (mem s) root (page_no va) AND PTE_V = 0"
  shows "(\<exists>s'. mappages_loop root va last_va pa perm es s = Ok (- 1) s' es \<and> vm_grow s xs root s' []) \<or>
    (\<exists>s' xs'. mappages_loop root va last_va pa perm es s =
        kif (va = last_va) (kret 0) (mappages_loop root (va + 4096) last_va (pa + 4096) perm) es s' \<and>
      vm_step s xs root s' xs' \<and>
      vpte (mem s') root = (vpte (mem s) root)(page_no va := PA2PTE pa OR perm OR PTE_V))"
proof -
  note n = page_no_MAXVA [OF assms(2)]
  from walk_spec [OF assms(1,2), of True es] obtain a s1 xs1 where
    w: "walk root va True es s = Ok a s1 es" "vm_grow s xs root s1 xs1"
      "walk_result s1 xs1 root (page_no va) True a" by blast
  have st: "vm_step s xs root s1 xs1" "vm_ok s1 xs1 root" "vpte (mem s1) root = vpte (mem s) root"
    using w(2) by (auto simp: vm_grow_def vm_step_def)
  show ?thesis
  proof (cases "a = 0")
    case True
    have "mappages_loop root va last_va pa perm es s = Ok (- 1) s1 es"
      by (subst mappages_loop.simps) (simp add: w(1) True)
    then show ?thesis using w True by (auto simp: walk_result_def)
  next
    case False
    then obtain t where t: "pt_node (mem s1) root (pt_path (page_no va)) = Some t"
      and a: "a = t + 8 * of_nat (page_no va mod 512)" using w(3) by (auto simp: walk_result_def)
    have inv: "load64 (mem s1) a AND PTE_V = 0"
      using walk_result_vpte [OF w(3) n] assms(3) st(3) False by simp
    let ?s = "s1\<lparr>mem := store64 (mem s1) a (PA2PTE pa OR perm OR PTE_V)\<rparr>"
    have "mappages_loop root va last_va pa perm es s =
        kif (va = last_va) (kret 0) (mappages_loop root (va + 4096) last_va (pa + 4096) perm) es ?s"
      by (subst mappages_loop.simps) (simp add: w(1) False inv)
    moreover have "vm_step s xs root ?s xs1"
      "vpte (mem ?s) root = (vpte (mem s) root)(page_no va := PA2PTE pa OR perm OR PTE_V)"
      using vm_step_leaf [OF st(2) t n] vm_step_trans [OF st(1)] st(3) a by simp_all
    ultimately show ?thesis by blast
  qed
qed

lemma mappages_loop_spec:
  assumes "vm_ok s xs root" "page_aligned va" "unat va + 4096 * Suc k \<le> unat MAXVA"
    and "\<And>i. i \<le> k \<Longrightarrow> vpte (mem s) root (page_no va + i) AND PTE_V = 0"
  shows "\<exists>r s' xs' j. mappages_loop root va (va + 4096 * of_nat k) pa perm es s = Ok r s' es \<and>
    vm_step s xs root s' xs' \<and> vpte (mem s') root = map_range (page_no va) j pa perm (vpte (mem s) root) \<and>
    (r = 0 \<and> j = Suc k \<or> r = - 1 \<and> j \<le> k \<and> xs' = [])"
  using assms
proof (induction k arbitrary: s xs va pa)
  case (0 s xs va pa)
  have va: "va < MAXVA" using 0 by (simp add: word_less_nat_alt)
  have "map_range (page_no va) (Suc 0) pa perm f = f(page_no va := PA2PTE pa OR perm OR PTE_V)" for f
    by (auto simp: map_range_def)
  then show ?case
    using mappages_round [OF 0(1) va, of va pa perm es] 0(4) [of 0]
    by (fastforce simp: vm_grow_def intro: map_range_0 [symmetric])
next
  case (Suc k s xs va pa)
  have va: "va < MAXVA" using Suc.prems by (simp add: word_less_nat_alt)
  note nx = page_no_step [OF va Suc.prems(2)] and un = page_step_measure(2) [OF va]
  let ?last = "va + 4096 * of_nat (Suc k)"
  have "unat va + 4096 * Suc k < 2 ^ 64"
    using Suc.prems(3) by (simp add: MAXVA_eq)
  from unat_add_of_nat [of va "4096 * Suc k"] this have "unat ?last = unat va + 4096 * Suc k" by simp
  then have ne: "va \<noteq> ?last" by auto
  have last: "?last = va + 4096 + 4096 * of_nat k" by (simp add: algebra_simps)
  from mappages_round [OF Suc.prems(1) va, of ?last pa perm es] Suc.prems(4) [of 0]
  consider (fail) s' where "mappages_loop root va ?last pa perm es s = Ok (- 1) s' es" "vm_grow s xs root s' []"
    | (step) s' xs' where
      "mappages_loop root va ?last pa perm es s = mappages_loop root (va + 4096) ?last (pa + 4096) perm es s'"
      "vm_step s xs root s' xs'"
      "vpte (mem s') root = (vpte (mem s) root)(page_no va := PA2PTE pa OR perm OR PTE_V)"
    using ne by auto
  then show ?case
  proof cases
    case fail
    then show ?thesis
      by (intro exI [of _ "- 1"] exI [of _ s'] exI [of _ "[]"] exI [of _ 0]) (simp add: vm_grow_def)
  next
    case step
    have "vpte (mem s') root (page_no (va + 4096) + i) AND PTE_V = 0" if "i \<le> k" for i
      using Suc.prems(4) [of "Suc i"] that step(3) nx(1) by simp
    moreover have "unat (va + 4096) + 4096 * Suc k \<le> unat MAXVA" using un Suc.prems(3) by simp
    ultimately obtain r s2 xs2 j where
      IH: "mappages_loop root (va + 4096) (va + 4096 + 4096 * of_nat k) (pa + 4096) perm es s' = Ok r s2 es"
        "vm_step s' xs' root s2 xs2"
        "vpte (mem s2) root = map_range (page_no (va + 4096)) j (pa + 4096) perm (vpte (mem s') root)"
        "r = 0 \<and> j = Suc k \<or> r = - 1 \<and> j \<le> k \<and> xs2 = []"
      using Suc.IH [OF vm_step_ok [OF step(2)] nx(2)] by blast
    have "vpte (mem s2) root = map_range (page_no va) (Suc j) pa perm (vpte (mem s) root)"
      using IH(3) step(3) nx(1) map_range_Suc by simp
    moreover have "mappages_loop root va ?last pa perm es s = Ok r s2 es"
      unfolding step(1) using IH(1) unfolding last .
    ultimately show ?thesis using IH(4) vm_step_trans [OF step(2) IH(2)]
      by (intro exI [of _ r] exI [of _ s2] exI [of _ xs2] exI [of _ "Suc j"]) auto
  qed
qed

text \<open>One page, as \<open>uvmalloc\<close>, \<open>uvmcopy\<close> and \<open>vmfault\<close> map it.\<close>

lemma mappages_page:
  assumes "vm_ok s xs root" "page_aligned va" "va < MAXVA" "vpte (mem s) root (page_no va) AND PTE_V = 0"
  obtains (ok) s' xs' where "mappages root va 4096 pa perm es s = Ok 0 s' es" "vm_step s xs root s' xs'"
      "vpte (mem s') root = (vpte (mem s) root)(page_no va := PA2PTE pa OR perm OR PTE_V)"
    | (fail) s' where "mappages root va 4096 pa perm es s = Ok (- 1) s' es" "vm_grow s xs root s' []"
proof -
  have "mappages root va 4096 pa perm es s = mappages_loop root va va pa perm es s"
    using assms(2) by (simp add: mappages_def page_aligned_def PGSIZE_def)
  then show ?thesis using mappages_round [OF assms(1,3,4), of va pa perm es] that by fastforce
qed

section \<open>User pages\<close>

text \<open>
  The physical page that the page table maps a virtual page number to. \<open>uvm_ok s xs root D\<close>: the
  pages mapped at the page numbers in \<open>D\<close> are owned by this page table alone, that is, they are
  pages the allocator handed out, neither on the free list nor used as page-table pages, and
  none is mapped at two page numbers of \<open>D\<close>.
\<close>

definition upage :: "memory \<Rightarrow> addr \<Rightarrow> nat \<Rightarrow> addr option" where
  "upage m root n = (if vpte m root n AND PTE_V = 0 then None else Some (PTE2PA (vpte m root n)))"

definition upages :: "memory \<Rightarrow> addr \<Rightarrow> nat set \<Rightarrow> addr set" where
  "upages m root D = {p. \<exists>n \<in> D. upage m root n = Some p}"

definition uvm_ok :: "'z kmem_scheme \<Rightarrow> addr list \<Rightarrow> addr \<Rightarrow> nat set \<Rightarrow> bool" where
  "uvm_ok s xs root D \<longleftrightarrow> vm_ok s xs root \<and>
     (\<forall>p \<in> upages (mem s) root D. valid_page (kend s) p) \<and>
     upages (mem s) root D \<inter> (pt_pages (mem s) root \<union> set xs) = {} \<and>
     (\<forall>n \<in> D. \<forall>k \<in> D. \<forall>p. upage (mem s) root n = Some p \<longrightarrow> upage (mem s) root k = Some p \<longrightarrow> n = k)"

lemma uvm_ok_vm: "uvm_ok s xs root D \<Longrightarrow> vm_ok s xs root"
  by (simp add: uvm_ok_def)

lemma upages_Un: "upages m root (A \<union> B) = upages m root A \<union> upages m root B"
  by (auto simp: upages_def)

lemma upages_empty [simp]: "upages m root {} = {}"
  by (simp add: upages_def)

lemma upages_mono: "A \<subseteq> B \<Longrightarrow> upages m root A \<subseteq> upages m root B"
  by (auto simp: upages_def)

lemma upages_cong: "vpte m' root = vpte m root \<Longrightarrow> upages m' root D = upages m root D"
  by (simp add: upages_def upage_def)

section \<open>Unmapping\<close>

definition clear_range :: "nat \<Rightarrow> nat \<Rightarrow> (nat \<Rightarrow> uint64) \<Rightarrow> nat \<Rightarrow> uint64" where
  "clear_range n k f i = (if n \<le> i \<and> i < n + k \<and> f i AND PTE_V \<noteq> 0 then 0 else f i)"

lemma clear_range_0 [simp]: "clear_range n 0 f = f"
  by (rule ext) (auto simp: clear_range_def)

lemma clear_range_Suc:
  "clear_range (Suc n) k (if f n AND PTE_V = 0 then f else f(n := 0)) = clear_range n (Suc k) f"
  by (rule ext) (auto simp: clear_range_def Suc_le_eq le_less)

text \<open>
  \<open>vm_shrink\<close>: the tree keeps its pages, and outside them and the pages \<open>W\<close> nothing is written.
\<close>

definition vm_shrink :: "'z kmem_scheme \<Rightarrow> addr \<Rightarrow> 'z kmem_scheme \<Rightarrow> addr set \<Rightarrow> bool" where
  "vm_shrink s root s' W \<longleftrightarrow> s' = s\<lparr>mem := mem s', freelist := freelist s'\<rparr> \<and>
     pt_pages (mem s') root = pt_pages (mem s) root \<and>
     agree_outside (page_no ` (pt_pages (mem s) root \<union> W)) (mem s) (mem s')"

lemma vm_shrink_refl [simp]: "vm_shrink s root s W"
  by (simp add: vm_shrink_def)

lemma vm_shrink_trans:
  assumes "vm_shrink s root t V" "vm_shrink t root u W"
  shows "vm_shrink s root u (V \<union> W)"
proof -
  have t: "t = s\<lparr>mem := mem t, freelist := freelist t\<rparr>" "u = t\<lparr>mem := mem u, freelist := freelist u\<rparr>"
    and pg: "pt_pages (mem t) root = pt_pages (mem s) root" "pt_pages (mem u) root = pt_pages (mem s) root"
    and ag: "agree_outside (page_no ` (pt_pages (mem s) root \<union> V)) (mem s) (mem t)"
      "agree_outside (page_no ` (pt_pages (mem t) root \<union> W)) (mem t) (mem u)"
    using assms by (auto simp: vm_shrink_def)
  have "u = s\<lparr>mem := mem u, freelist := freelist u\<rparr>" by (subst t(2), subst t(1)) simp
  moreover have "agree_outside (page_no ` (pt_pages (mem s) root \<union> (V \<union> W))) (mem s) (mem u)"
    using agree_outside_trans [OF ag(1) ag(2) [unfolded pg(1)]] by (rule agree_outside_mono) auto
  ultimately show ?thesis using pg(2) by (simp add: vm_shrink_def)
qed

text \<open>Freeing a page that the tree does not use.\<close>

lemma vm_kfree:
  assumes "vm_ok s xs root" "valid_page (kend s) p" "p \<notin> pt_pages (mem s) root" "p \<notin> set xs"
  shows "\<exists>s'. kfree p es s = Ok () s' es \<and> vm_ok s' (p # xs) root \<and> vm_shrink s root s' {p} \<and>
    vpte (mem s') root = vpte (mem s) root \<and> pt_node (mem s') root (pt_path n) = pt_node (mem s) root (pt_path n)"
proof -
  have ok: "kmem_ok s xs" and wf: "pt_wf (kend s) (mem s) root"
    and dis: "pt_pages (mem s) root \<inter> set xs = {}" using assms(1) by (simp_all add: vm_ok_def)
  from kfree_effect [OF ok assms(2,4), of es] obtain s' where
    fr: "kfree p es s = Ok () s' es" "kmem_ok s' (p # xs)" and s': "s' = s\<lparr>mem := mem s', freelist := p\<rparr>"
    and ag: "agree_outside {page_no p} (mem s) (mem s')" by blast
  have "page_no ` pt_pages (mem s) root \<inter> {page_no p} = {}"
    using assms(3) page_no_inj [OF _ valid_page_aligned [OF assms(2)]] pt_pages_page [OF wf] by fastforce
  note same = pt_agree [OF wf ag this] and node = pt_node_agree [OF wf ag this]
  have s'': "s' = s\<lparr>mem := mem s', freelist := freelist s'\<rparr>" "kend s' = kend s" by (subst s', simp)+
  have "vm_shrink s root s' {p}"
    unfolding vm_shrink_def using s''(1) same(1) agree_outside_mono [OF ag] by simp
  moreover have "vm_ok s' (p # xs) root"
    using fr(2) same s''(2) assms(3) dis by (simp add: vm_ok_def)
  ultimately show ?thesis using fr(1) same(3) node [of "pt_path n"] by auto
qed

lemma vm_shrink_leaf:
  assumes "vm_ok s xs root" "pt_node (mem s) root (pt_path n) = Some t" "n < 512 ^ 3"
  shows "vm_shrink s root (s\<lparr>mem := store64 (mem s) (t + 8 * of_nat (n mod 512)) v\<rparr>) {}"
    and "vm_ok (s\<lparr>mem := store64 (mem s) (t + 8 * of_nat (n mod 512)) v\<rparr>) xs root"
proof -
  have wf: "pt_wf (kend s) (mem s) root" using assms(1) by (simp add: vm_ok_def)
  have t: "t \<in> pt_pages (mem s) root" using assms(2) by (auto intro: pt_pagesI)
  note st = pt_leaf_store [OF wf assms(2,3), of v]
  show "vm_shrink s root (s\<lparr>mem := store64 (mem s) (t + 8 * of_nat (n mod 512)) v\<rparr>) {}"
    using st t by (simp add: vm_shrink_def agree_outside_mono [OF st(4)])
  show "vm_ok (s\<lparr>mem := store64 (mem s) (t + 8 * of_nat (n mod 512)) v\<rparr>) xs root"
    using vm_step_leaf(1) [OF assms] by (rule vm_step_ok)
qed

text \<open>One round of the loop of \<open>uvmunmap\<close>.\<close>

lemma uvmunmap_round:
  assumes ok: "vm_ok s xs root" and a: "a < MAXVA" "a < end_va"
  defines "v \<equiv> vpte (mem s) root (page_no a)"
  assumes free: "do_free \<Longrightarrow> v AND PTE_V \<noteq> 0 \<Longrightarrow>
    valid_page (kend s) (PTE2PA v) \<and> PTE2PA v \<notin> pt_pages (mem s) root \<and> PTE2PA v \<notin> set xs"
  shows "\<exists>s'. uvmunmap_loop root a end_va do_free es s = uvmunmap_loop root (a + 4096) end_va do_free es s' \<and>
    vm_ok s' (if do_free \<and> v AND PTE_V \<noteq> 0 then PTE2PA v # xs else xs) root \<and>
    vpte (mem s') root = (if v AND PTE_V = 0 then vpte (mem s) root else (vpte (mem s) root)(page_no a := 0)) \<and>
    vm_shrink s root s' (if do_free \<and> v AND PTE_V \<noteq> 0 then {PTE2PA v} else {})"
proof -
  note n = page_no_MAXVA [OF a(1)]
  from walk_spec [OF ok a(1), of False es] obtain p where
    w: "walk root a False es s = Ok p s es" and wr: "walk_result s xs root (page_no a) False p" by blast
  note vp = walk_result_vpte [OF wr n, folded v_def]
  show ?thesis
  proof (cases "v AND PTE_V = 0")
    case True
    then have "uvmunmap_loop root a end_va do_free es s = uvmunmap_loop root (a + 4096) end_va do_free es s"
      using w a(2) vp by (subst uvmunmap_loop.simps) (cases "p = 0"; simp)
    then show ?thesis using ok True by (intro exI [of _ s]) simp
  next
    case False
    then have p: "p \<noteq> 0" "v = load64 (mem s) p" using vp by (auto split: if_splits)
    then obtain t where t: "pt_node (mem s) root (pt_path (page_no a)) = Some t"
      and pt: "p = t + 8 * of_nat (page_no a mod 512)" using wr by (auto simp: walk_result_def)
    obtain s1 where s1: "(if do_free then kfree (PTE2PA v) else kret ()) es s = Ok () s1 es"
      "vm_ok s1 (if do_free then PTE2PA v # xs else xs) root"
      "vm_shrink s root s1 (if do_free then {PTE2PA v} else {})"
      "vpte (mem s1) root = vpte (mem s) root" "pt_node (mem s1) root (pt_path (page_no a)) = Some t"
    proof (cases do_free)
      case True
      then show ?thesis
        using vm_kfree [OF ok, of "PTE2PA v" es "page_no a"] free False t that by auto
    qed (use ok t that in auto)
    let ?s = "s1\<lparr>mem := store64 (mem s1) p 0\<rparr>"
    have "uvmunmap_loop root a end_va do_free es s = uvmunmap_loop root (a + 4096) end_va do_free es ?s"
      using w a(2) p False s1(1) by (subst uvmunmap_loop.simps) (cases do_free; simp)
    moreover note vm_shrink_leaf [OF s1(2,5) n, of 0, folded pt] vm_step_leaf(2) [OF s1(2,5) n, of 0, folded pt]
    ultimately show ?thesis
      using False s1(4) vm_shrink_trans [OF s1(3), of ?s "{}"] by (intro exI [of _ ?s]) simp
  qed
qed

lemma clear_upage:
  "upage m' root = (upage m root)(n := None)" if "vpte m' root = (vpte m root)(n := 0)"
  by (rule ext) (simp add: upage_def that)

lemma page_add_measure:
  fixes a :: addr
  assumes "unat a + 4096 * k \<le> unat MAXVA"
  shows "unat (a + 4096 * of_nat k) = unat a + 4096 * k"
proof -
  have "unat a + 4096 * k < 2 ^ 64" using assms by (simp add: MAXVA_eq)
  then show ?thesis using unat_add_of_nat [of a "4096 * k"] by simp
qed

lemma uvmunmap_free_loop:
  assumes "uvm_ok s xs root D" "page_aligned a" "unat a + 4096 * k \<le> unat MAXVA"
    and "{page_no a..<page_no a + k} \<subseteq> D"
  shows "\<exists>s' fs. uvmunmap_loop root a (a + 4096 * of_nat k) True es s = Ok () s' es \<and>
    uvm_ok s' (fs @ xs) root D \<and> set fs = upages (mem s) root {page_no a..<page_no a + k} \<and>
    vpte (mem s') root = clear_range (page_no a) k (vpte (mem s) root) \<and> vm_shrink s root s' (set fs)"
  using assms
proof (induction k arbitrary: s xs a)
  case (0 s xs a)
  then show ?case by (subst uvmunmap_loop.simps) (auto intro: exI [of _ "[]"])
next
  case (Suc k s xs a)
  let ?n = "page_no a" and ?stop = "a + 4096 * of_nat (Suc k)"
  let ?v = "vpte (mem s) root ?n"
  have a: "a < MAXVA" using Suc.prems(3) by (simp add: word_less_nat_alt)
  have e: "a < ?stop" using page_add_measure [OF Suc.prems(3)] by (simp add: word_less_nat_alt)
  have last: "?stop = a + 4096 + 4096 * of_nat k" by (simp add: algebra_simps)
  note nx = page_no_step [OF a Suc.prems(2)] and un = page_step_measure(2) [OF a]
  have nD: "?n \<in> D" using Suc.prems(4) by auto
  have free: "valid_page (kend s) (PTE2PA ?v) \<and> PTE2PA ?v \<notin> pt_pages (mem s) root \<and> PTE2PA ?v \<notin> set xs"
    if "?v AND PTE_V \<noteq> 0"
  proof -
    have "PTE2PA ?v \<in> upages (mem s) root D" using nD that by (auto simp: upages_def upage_def)
    then show ?thesis using Suc.prems(1) by (auto simp: uvm_ok_def)
  qed
  let ?ps = "if ?v AND PTE_V = 0 then [] else [PTE2PA ?v]"
  obtain s1 where s1: "uvmunmap_loop root a ?stop True es s = uvmunmap_loop root (a + 4096) ?stop True es s1"
    "vm_ok s1 (?ps @ xs) root" "vm_shrink s root s1 (set ?ps)"
    "vpte (mem s1) root = (if ?v AND PTE_V = 0 then vpte (mem s) root else (vpte (mem s) root)(?n := 0))"
    using uvmunmap_round [OF uvm_ok_vm [OF Suc.prems(1)] a e, of True es] free
    by (cases "?v AND PTE_V = 0") auto
  have up: "upage (mem s1) root = (upage (mem s) root)(?n := None)"
  proof (cases "?v AND PTE_V = 0")
    case False
    then show ?thesis using clear_upage s1(4) by simp
  qed (use s1(4) in \<open>auto simp: upage_def\<close>)
  have ke: "kend s1 = kend s" and pg: "pt_pages (mem s1) root = pt_pages (mem s) root"
    using s1(3) by (auto simp: vm_shrink_def elim: ssubst)
  have ok1: "uvm_ok s1 (?ps @ xs) root D"
    using Suc.prems(1) s1(2) nD unfolding uvm_ok_def upages_def up ke pg
    by (auto simp: upage_def split: if_splits)
  have "unat (a + 4096) + 4096 * k \<le> unat MAXVA" "{page_no (a + 4096)..<page_no (a + 4096) + k} \<subseteq> D"
    using un nx(1) Suc.prems(3,4) by auto
  from Suc.IH [OF ok1 nx(2) this] obtain s2 fs where
    IH: "uvmunmap_loop root (a + 4096) (a + 4096 + 4096 * of_nat k) True es s1 = Ok () s2 es"
      "uvm_ok s2 (fs @ ?ps @ xs) root D" "set fs = upages (mem s1) root {Suc ?n..<Suc ?n + k}"
      "vpte (mem s2) root = clear_range (Suc ?n) k (vpte (mem s1) root)" "vm_shrink s1 root s2 (set fs)"
    unfolding nx(1) by blast
  have run: "uvmunmap_loop root a ?stop True es s = Ok () s2 es"
    unfolding s1(1) using IH(1) unfolding last .
  have rg: "{?n..<?n + Suc k} = insert ?n {Suc ?n..<Suc ?n + k}" by auto
  have "set (fs @ ?ps) = upages (mem s) root {?n..<?n + Suc k}"
    unfolding rg using IH(3) by (auto simp: upages_def up) (auto simp: upage_def)
  moreover have "vpte (mem s2) root = clear_range ?n (Suc k) (vpte (mem s) root)"
    unfolding IH(4) s1(4) by (rule clear_range_Suc)
  moreover have "vm_shrink s root s2 (set (fs @ ?ps))"
    using vm_shrink_trans [OF s1(3) IH(5)] by (simp add: sup_commute)
  ultimately show ?case using run IH(2)
    by (intro exI [of _ s2] exI [of _ "fs @ ?ps"]) simp
qed

section \<open>Mapping a fresh page\<close>

text \<open>
  \<open>mem_frame s W s'\<close>: only the free list and the bytes of the pages in \<open>W\<close> may differ.
\<close>

definition mem_frame :: "'z kmem_scheme \<Rightarrow> addr set \<Rightarrow> 'z kmem_scheme \<Rightarrow> bool" where
  "mem_frame s W s' \<longleftrightarrow> s' = s\<lparr>mem := mem s', freelist := freelist s'\<rparr> \<and>
     agree_outside (page_no ` W) (mem s) (mem s')"

lemma mem_frame_refl [simp]: "mem_frame s W s"
  by (simp add: mem_frame_def)

lemma mem_frame_kend: "mem_frame s W s' \<Longrightarrow> kend s' = kend s"
  by (auto simp: mem_frame_def elim: ssubst)

lemma mem_frame_mono: "mem_frame s V s' \<Longrightarrow> V \<subseteq> W \<Longrightarrow> mem_frame s W s'"
  by (auto simp: mem_frame_def intro: agree_outside_mono)

lemma mem_frame_trans:
  assumes "mem_frame s V t" "mem_frame t W u"
  shows "mem_frame s (V \<union> W) u"
proof -
  have t: "t = s\<lparr>mem := mem t, freelist := freelist t\<rparr>" "u = t\<lparr>mem := mem u, freelist := freelist u\<rparr>"
    and ag: "agree_outside (page_no ` V) (mem s) (mem t)" "agree_outside (page_no ` W) (mem t) (mem u)"
    using assms by (auto simp: mem_frame_def)
  have "u = s\<lparr>mem := mem u, freelist := freelist u\<rparr>" by (subst t(2), subst t(1)) simp
  then show ?thesis using agree_outside_trans [OF ag] by (simp add: mem_frame_def image_Un)
qed

lemma vm_step_frame:
  "vm_step s xs root s' xs' \<Longrightarrow> mem_frame s (pt_pages (mem s) root \<union> set xs) s'"
  by (auto simp: vm_step_def mem_frame_def)

lemma vm_shrink_frame: "vm_shrink s root s' W \<Longrightarrow> mem_frame s (pt_pages (mem s) root \<union> W) s'"
  by (simp add: vm_shrink_def mem_frame_def)

text \<open>A page outside the written ones keeps its contents.\<close>

lemma mem_frame_page:
  assumes "mem_frame s W s'" "page_aligned p" "p \<notin> W" "\<And>w. w \<in> W \<Longrightarrow> page_aligned w" "i < 4096"
  shows "mem s' (p + of_nat i) = mem s (p + of_nat i)"
proof -
  have "page_no p \<notin> page_no ` W" using assms(2-4) page_no_inj by blast
  then show ?thesis
    using assms(1) page_no_add [OF assms(2,5)] by (simp add: mem_frame_def agree_outside_def)
qed

text \<open>Taking a page from the allocator and filling it changes nothing else.\<close>

lemma uvm_take:
  assumes ok: "uvm_ok s (p # xs) root D" and fill: "agree_outside {page_no p} (mem s) m1"
  defines "s1 \<equiv> s\<lparr>mem := m1, freelist := load64 (mem s) p\<rparr>"
  shows "uvm_ok s1 xs root D" "vpte (mem s1) root = vpte (mem s) root"
    "pt_pages (mem s1) root = pt_pages (mem s) root" "mem_frame s {p} s1"
    "p \<notin> pt_pages (mem s) root \<union> set xs \<union> upages (mem s) root D" "valid_page (kend s) p"
proof -
  have km: "kmem_ok s (p # xs)" and wf: "pt_wf (kend s) (mem s) root"
    and dis: "pt_pages (mem s) root \<inter> set (p # xs) = {}"
    using ok by (auto simp: uvm_ok_def vm_ok_def)
  show v: "valid_page (kend s) p" using km by (simp add: kmem_ok_def)
  note pp = valid_page_aligned [OF v]
  show pn: "p \<notin> pt_pages (mem s) root \<union> set xs \<union> upages (mem s) root D"
    using ok km by (auto simp: uvm_ok_def vm_ok_def kmem_ok_def)
  have "page_no ` pt_pages (mem s) root \<inter> {page_no p} = {}"
    using pn page_no_inj [OF _ pp] pt_pages_page [OF wf] by fastforce
  note same = pt_agree [OF wf fill this]
  then show "vpte (mem s1) root = vpte (mem s) root" "pt_pages (mem s1) root = pt_pages (mem s) root"
    by (simp_all add: s1_def)
  show "mem_frame s {p} s1" using fill by (simp add: mem_frame_def s1_def)
  from kalloc_effect [OF km, of "[]"] obtain s0 where k0: "kmem_ok s0 xs"
    and s0: "s0 = s\<lparr>mem := memset (mem s) p 5 4096, freelist := load64 (mem s) p\<rparr>" by blast
  have "kmem_ok s1 xs"
  proof (rule kmem_ok_cong [OF k0])
    show "agree_outside {page_no p} (mem s0) (mem s1)"
      using fill agree_outside_memset [OF pp, of 4096 "mem s" 5] by (simp add: s0 s1_def agree_outside_def)
    fix x assume "x \<in> set xs"
    then have "page_aligned x" "x \<noteq> p" using km by (auto simp: kmem_ok_def intro: valid_page_aligned)
    then show "page_no x \<notin> {page_no p}" using page_no_inj [OF _ pp] by auto
  qed (use km in \<open>simp_all add: s0 s1_def kmem_ok_def\<close>)
  moreover have up: "upage (mem s1) root = upage (mem s) root"
    using same(3) by (auto simp: upage_def s1_def)
  ultimately show "uvm_ok s1 xs root D"
    using ok same(1,2) unfolding uvm_ok_def vm_ok_def upages_def up by (auto simp: s1_def)
qed

lemma uvm_ok_step:
  assumes ok: "uvm_ok s xs root D" and st: "vm_step s xs root s' xs'"
    and n: "vpte (mem s') root = (vpte (mem s) root)(n := v)" "PTE2PA v = p" "v AND PTE_V \<noteq> 0"
      "vpte (mem s) root n AND PTE_V = 0"
    and p: "valid_page (kend s) p" "p \<notin> pt_pages (mem s) root \<union> set xs \<union> upages (mem s) root D"
  shows "uvm_ok s' xs' root D" "upage (mem s') root = (upage (mem s) root)(n := Some p)"
proof -
  have ke: "kend s' = kend s" using vm_step_frame [OF st] by (rule mem_frame_kend)
  have pp: "pt_pages (mem s') root \<union> set xs' = pt_pages (mem s) root \<union> set xs"
    using st by (simp add: vm_step_def)
  show up: "upage (mem s') root = (upage (mem s) root)(n := Some p)"
    using n by (auto simp: upage_def)
  have sub: "upages (mem s') root D \<subseteq> insert p (upages (mem s) root D)"
    by (auto simp: upages_def up split: if_splits)
  have inj: "a = b" if "a \<in> D" "b \<in> D" "upage (mem s') root a = Some q" "upage (mem s') root b = Some q" for a b q
  proof -
    have "upage (mem s) root c \<noteq> Some p" if "c \<in> D" for c using p(2) that by (auto simp: upages_def)
    then show ?thesis using ok that unfolding uvm_ok_def up by (metis fun_upd_apply)
  qed
  have "upages (mem s') root D \<inter> (pt_pages (mem s') root \<union> set xs') = {}"
    unfolding pp using sub ok p(2) by (auto simp: uvm_ok_def)
  moreover have "\<forall>q \<in> upages (mem s') root D. valid_page (kend s') q"
    unfolding ke using sub ok p(1) by (auto simp: uvm_ok_def)
  ultimately show "uvm_ok s' xs' root D"
    using vm_step_ok [OF st] inj unfolding uvm_ok_def by blast
qed

lemma uvm_ok_same:
  assumes ok: "uvm_ok s xs root D" and "vm_ok s' xs' root" "kend s' = kend s"
    and v: "vpte (mem s') root = vpte (mem s) root"
    and sub: "pt_pages (mem s') root \<union> set xs' \<subseteq> pt_pages (mem s) root \<union> set xs \<union> W"
    and W: "W \<inter> upages (mem s) root D = {}"
  shows "uvm_ok s' xs' root D"
proof -
  have up: "upage (mem s') root = upage (mem s) root" using v by (auto simp: upage_def)
  have "upages (mem s') root D \<inter> (pt_pages (mem s') root \<union> set xs') = {}"
    using ok sub W upages_cong [OF v] by (auto simp: uvm_ok_def)
  then show ?thesis using assms(2,3) ok unfolding uvm_ok_def upages_cong [OF v] up by auto
qed

lemma valid_page_56: "valid_page e p \<Longrightarrow> p < 2 ^ 56"
  by (rule less_trans [of _ PHYSTOP]) (simp_all add: valid_page_def PHYSTOP_eq)

lemma map_fresh_ok:
  assumes uvm: "uvm_ok s (p # xs) root D" and fill: "agree_outside {page_no p} (mem s) m1"
    and perm: "perm < 1024" and n: "vpte (mem s) root n = 0"
  defines "s1 \<equiv> s\<lparr>mem := m1, freelist := load64 (mem s) p\<rparr>"
  assumes st: "vm_step s1 xs root s' xs'"
    "vpte (mem s') root = (vpte (mem s1) root)(n := PA2PTE p OR perm OR PTE_V)"
  shows "uvm_ok s' xs' root D"
    "vpte (mem s') root = (vpte (mem s) root)(n := PA2PTE p OR perm OR PTE_V)"
    "upage (mem s') root = (upage (mem s) root)(n := Some p)"
    "pt_pages (mem s') root \<union> set xs' = pt_pages (mem s) root \<union> set xs"
    "mem_frame s (pt_pages (mem s) root \<union> set (p # xs)) s'"
    "mem_frame s1 (pt_pages (mem s) root \<union> set xs) s'" "set xs' \<subseteq> set xs"
proof -
  note tk = uvm_take [OF uvm fill, folded s1_def]
  show "set xs' \<subseteq> set xs" using st(1) by (auto simp: vm_step_def)
  have k1: "kend s1 = kend s" by (simp add: s1_def)
  have pa: "PTE2PA (PA2PTE p OR perm OR PTE_V) = p"
    using PTE2PA_leaf [OF valid_page_aligned [OF tk(6)] valid_page_56 [OF tk(6)] perm] .
  have new: "p \<notin> pt_pages (mem s1) root \<union> set xs \<union> upages (mem s1) root D"
    using tk(3,5) upages_cong [OF tk(2)] by simp
  have inv: "vpte (mem s1) root n AND PTE_V = 0" using tk(2) n by simp
  note up = uvm_ok_step [OF tk(1) st pa pte_valid_leaf inv tk(6) [folded k1] new]
  show "uvm_ok s' xs' root D" by (rule up(1))
  show "vpte (mem s') root = (vpte (mem s) root)(n := PA2PTE p OR perm OR PTE_V)"
    using st(2) tk(2) by simp
  have "upage (mem s1) root = upage (mem s) root" using tk(2) by (auto simp: upage_def)
  then show "upage (mem s') root = (upage (mem s) root)(n := Some p)" using up(2) by simp
  show "pt_pages (mem s') root \<union> set xs' = pt_pages (mem s) root \<union> set xs"
    using st(1) tk(3) by (simp add: vm_step_def)
  show fr: "mem_frame s1 (pt_pages (mem s) root \<union> set xs) s'"
    using vm_step_frame [OF st(1)] unfolding tk(3) .
  show "mem_frame s (pt_pages (mem s) root \<union> set (p # xs)) s'"
    using mem_frame_trans [OF tk(4) fr] by (rule mem_frame_mono) auto
qed

lemma map_fresh_fail:
  assumes uvm: "uvm_ok s (p # xs) root D" and fill: "agree_outside {page_no p} (mem s) m1"
  defines "s1 \<equiv> s\<lparr>mem := m1, freelist := load64 (mem s) p\<rparr>"
  assumes st: "vm_grow s1 xs root s' []"
  shows "\<exists>s''. kfree p es s' = Ok () s'' es \<and> uvm_ok s'' [p] root D \<and>
    vpte (mem s'') root = vpte (mem s) root \<and>
    pt_pages (mem s'') root \<union> {p} = pt_pages (mem s) root \<union> set (p # xs) \<and>
    mem_frame s (pt_pages (mem s) root \<union> set (p # xs)) s''"
proof -
  note tk = uvm_take [OF uvm fill, folded s1_def]
  have step: "vm_step s1 xs root s' []" and v': "vpte (mem s') root = vpte (mem s) root"
    using st tk(2) by (simp_all add: vm_grow_def)
  have pg: "pt_pages (mem s') root = pt_pages (mem s) root \<union> set xs"
    using step tk(3) by (simp add: vm_step_def)
  note fr = vm_step_frame [OF step, unfolded tk(3)]
  have fr': "mem_frame s (pt_pages (mem s) root \<union> set (p # xs)) s'"
    using mem_frame_trans [OF tk(4) fr] by (rule mem_frame_mono) auto
  have "valid_page (kend s') p" using tk(6) mem_frame_kend [OF fr'] by simp
  from vm_kfree [OF vm_step_ok [OF step] this, of es] tk(5) pg obtain s'' where
    kf: "kfree p es s' = Ok () s'' es" "vm_ok s'' [p] root" "vm_shrink s' root s'' {p}"
      "vpte (mem s'') root = vpte (mem s') root" by auto
  have pg': "pt_pages (mem s'') root = pt_pages (mem s) root \<union> set xs"
    using kf(3) pg by (simp add: vm_shrink_def)
  have fr'': "mem_frame s (pt_pages (mem s) root \<union> set (p # xs)) s''"
    using mem_frame_trans [OF fr' vm_shrink_frame [OF kf(3)]] pg by (auto intro: mem_frame_mono)
  have "uvm_ok s'' [p] root D"
    by (rule uvm_ok_same [OF uvm kf(2) mem_frame_kend [OF fr''], where W = "{}"])
      (use kf(4) v' pg' in auto)
  then show ?thesis using kf(1,4) v' pg' fr'' by auto
qed

section \<open>Growing and shrinking a user memory\<close>

text \<open>The number of pages that a user memory of a given size takes.\<close>

definition npg :: "uint64 \<Rightarrow> nat" where
  "npg sz = (unat sz + 4095) div 4096"

lemma MAXVA_bound: "sz \<le> MAXVA \<Longrightarrow> unat sz \<le> 2 ^ 38"
  by (simp add: MAXVA_eq word_le_nat_alt)

lemma unat_PGROUNDUP_npg: "sz \<le> MAXVA \<Longrightarrow> unat (PGROUNDUP sz) = 4096 * npg sz"
  using MAXVA_bound [of sz] by (simp add: unat_PGROUNDUP npg_def PGSIZE_def)

lemma page_no_PGROUNDUP: "sz \<le> MAXVA \<Longrightarrow> page_no (PGROUNDUP sz) = npg sz"
  by (simp add: page_no_def PGSIZE_def unat_PGROUNDUP_npg)

lemma npg_MAXVA: "sz \<le> MAXVA \<Longrightarrow> 4096 * npg sz \<le> unat MAXVA"
  by (simp add: npg_def MAXVA_eq word_le_nat_alt)

lemma npg_mono: "a \<le> b \<Longrightarrow> npg a \<le> npg b"
  by (simp add: npg_def word_le_nat_alt div_le_mono)

lemma npg_page: "page_aligned a \<Longrightarrow> npg a = page_no a"
  by (auto simp: npg_def page_no_def page_aligned_def PGSIZE_def elim!: dvdE)

lemma scast_ucast_small:
  fixes x :: uint64
  assumes "unat x < 2 ^ 31"
  shows "scast (ucast x :: uint32) = x"
proof (rule bit_eqI)
  fix n assume "possible_bit TYPE(64 word) n"
  then have n: "n < 64" by simp
  have "x < 2 ^ 31" using assms by (simp add: word_less_nat_alt)
  then have "31 \<le> k \<Longrightarrow> \<not> bit x k" for k by (rule bit_high)
  from this [of n] this [of 31] show "bit (scast (ucast x :: uint32) :: uint64) n \<longleftrightarrow> bit x n"
    using n by (cases "n < 31") (auto simp: bit_simps not_less min_def)
qed

lemma uvmunmap_free:
  assumes "uvm_ok s xs root D" "page_aligned a" "unat a + 4096 * k \<le> unat MAXVA"
    and "{page_no a..<page_no a + k} \<subseteq> D"
  shows "\<exists>s' fs. uvmunmap root a (of_nat k) True es s = Ok () s' es \<and>
    uvm_ok s' (fs @ xs) root D \<and> set fs = upages (mem s) root {page_no a..<page_no a + k} \<and>
    vpte (mem s') root = clear_range (page_no a) k (vpte (mem s) root) \<and> vm_shrink s root s' (set fs)"
  using uvmunmap_free_loop [OF assms, of es] assms(2)
  by (simp add: uvmunmap_def page_aligned_def mult.commute)

lemma uvmdealloc_less:
  assumes "uvm_ok s xs root D" "oldsz \<le> MAXVA" "newsz < oldsz" "{npg newsz..<npg oldsz} \<subseteq> D"
  shows "\<exists>s' fs. uvmdealloc root oldsz newsz es s = Ok newsz s' es \<and>
    uvm_ok s' (fs @ xs) root D \<and> set fs = upages (mem s) root {npg newsz..<npg oldsz} \<and>
    vpte (mem s') root = clear_range (npg newsz) (npg oldsz - npg newsz) (vpte (mem s) root) \<and>
    vm_shrink s root s' (set fs)"
proof -
  have nm: "newsz \<le> MAXVA" using assms(2,3) by simp
  note un = unat_PGROUNDUP_npg [OF assms(2)] unat_PGROUNDUP_npg [OF nm]
  have le: "npg newsz \<le> npg oldsz" using assms(3) by (simp add: npg_mono)
  have lt: "PGROUNDUP newsz < PGROUNDUP oldsz \<longleftrightarrow> npg newsz < npg oldsz"
    by (simp add: word_less_nat_alt un)
  show ?thesis
  proof (cases "npg newsz < npg oldsz")
    case False
    then have "uvmdealloc root oldsz newsz es s = Ok newsz s es"
      using lt assms(3) by (simp add: uvmdealloc_def not_le)
    then show ?thesis using assms(1) False
      by (intro exI [of _ s] exI [of _ "[]"]) simp
  next
    case True
    let ?k = "npg oldsz - npg newsz" and ?d = "(PGROUNDUP oldsz - PGROUNDUP newsz) div 4096"
    have "unat (PGROUNDUP oldsz - PGROUNDUP newsz) = 4096 * npg oldsz - 4096 * npg newsz"
      using True lt by (simp add: unat_sub word_less_nat_alt word_le_nat_alt un)
    then have "unat ?d = ?k" by (simp add: unat_div diff_mult_distrib2 [symmetric])
    moreover have "?k \<le> 2 ^ 26" using npg_MAXVA [OF assms(2)] by (simp add: MAXVA_eq)
    ultimately have "unat ?d < 2 ^ 31" "?d = of_nat ?k" by (simp, metis of_nat_unat ucast_id)
    then have d: "scast (ucast ?d :: uint32) = (of_nat ?k :: uint64)" using scast_ucast_small by metis
    have run: "uvmdealloc root oldsz newsz es s =
        kthen (uvmunmap root (PGROUNDUP newsz) (of_nat ?k) True) (kret newsz) es s"
      using True lt assms(3) by (simp add: uvmdealloc_def d Let_def not_le)
    have "unat (PGROUNDUP newsz) + 4096 * ?k \<le> unat MAXVA"
      using npg_MAXVA [OF assms(2)] le by (simp add: un)
    moreover have "{npg newsz..<npg newsz + ?k} = {npg newsz..<npg oldsz}" using le by auto
    ultimately show ?thesis
      using uvmunmap_free [OF assms(1) PGROUNDUP_aligned, of newsz ?k es] page_no_PGROUNDUP [OF nm] assms(4) run
      by fastforce
  qed
qed

lemma uvmdealloc_spec:
  assumes "uvm_ok s xs root D" "oldsz \<le> MAXVA" "newsz \<le> oldsz" "{npg newsz..<npg oldsz} \<subseteq> D"
  shows "\<exists>s' fs. uvmdealloc root oldsz newsz es s = Ok newsz s' es \<and>
    uvm_ok s' (fs @ xs) root D \<and> set fs = upages (mem s) root {npg newsz..<npg oldsz} \<and>
    vpte (mem s') root = clear_range (npg newsz) (npg oldsz - npg newsz) (vpte (mem s) root) \<and>
    vm_shrink s root s' (set fs)"
proof (cases "newsz = oldsz")
  case True
  then show ?thesis using assms(1)
    by (intro exI [of _ s] exI [of _ "[]"]) (simp add: uvmdealloc_def)
next
  case False
  then show ?thesis using uvmdealloc_less [OF assms(1,2) _ assms(4)] assms(3) by simp
qed

definition zero_page :: "memory \<Rightarrow> addr \<Rightarrow> bool" where
  "zero_page m p \<longleftrightarrow> (\<forall>i < 4096. m (p + of_nat i) = 0)"

text \<open>
  A grown memory: each page number in \<open>A\<close> is mapped to a zero page that was free, with the given
  permissions; the other entries are unchanged, and no page is lost.
\<close>

definition uvm_grown ::
  "'z kmem_scheme \<Rightarrow> addr list \<Rightarrow> addr \<Rightarrow> nat set \<Rightarrow> uint64 \<Rightarrow> 'z kmem_scheme \<Rightarrow> addr list \<Rightarrow> bool"
where
  "uvm_grown s xs root A perm s' xs' \<longleftrightarrow>
     mem_frame s (pt_pages (mem s) root \<union> set xs) s' \<and>
     pt_pages (mem s') root \<union> set xs' \<union> upages (mem s') root A = pt_pages (mem s) root \<union> set xs \<and>
     (\<forall>i. i \<notin> A \<longrightarrow> vpte (mem s') root i = vpte (mem s) root i) \<and>
     (\<forall>i \<in> A. \<exists>p \<in> set xs. vpte (mem s') root i = PA2PTE p OR perm OR PTE_V \<and> zero_page (mem s') p)"

lemma zero_page_memset: "page_aligned p \<Longrightarrow> zero_page (memset m p 0 4096) p"
proof -
  assume p: "page_aligned p"
  have "memset m p 0 4096 (p + of_nat i) = 0" if "i < 4096" for i
  proof -
    have "unat (p + of_nat i - p) < 4096" using in_page_iff [OF p] page_no_add [OF p that] by blast
    then show ?thesis unfolding memset_apply by simp
  qed
  then show ?thesis by (simp add: zero_page_def)
qed

lemma zero_page_frame:
  assumes "zero_page (mem s) p" "mem_frame s W s'" "page_aligned p" "p \<notin> W" "\<And>w. w \<in> W \<Longrightarrow> page_aligned w"
  shows "zero_page (mem s') p"
  using assms(1) mem_frame_page [OF assms(2-5)] by (simp add: zero_page_def)

lemma vm_ok_pages: "vm_ok s xs root \<Longrightarrow> w \<in> pt_pages (mem s) root \<union> set xs \<Longrightarrow> page_aligned w"
  by (auto simp: vm_ok_def kmem_ok_def intro: pt_pages_page valid_page_aligned)

text \<open>Growing by one page and then by the rest.\<close>

lemma uvm_grown_step:
  assumes uvm: "uvm_ok s (p # xs) root D" and n: "n \<notin> A"
    and v: "vpte (mem s1) root = (vpte (mem s) root)(n := PA2PTE p OR perm OR PTE_V)"
    and up: "upage (mem s1) root = (upage (mem s) root)(n := Some p)"
    and pg: "pt_pages (mem s1) root \<union> set xs1 = pt_pages (mem s) root \<union> set xs"
    and fr: "mem_frame s (pt_pages (mem s) root \<union> set (p # xs)) s1" and z: "zero_page (mem s1) p"
    and g: "uvm_grown s1 xs1 root A perm s' xs'"
    and z': "\<And>q. q \<in> set xs1 \<Longrightarrow> q \<in> set xs"
  shows "uvm_grown s (p # xs) root (insert n A) perm s' xs'"
proof -
  have vm: "vm_ok s (p # xs) root" using uvm by (rule uvm_ok_vm)
  have p: "p \<notin> pt_pages (mem s) root \<union> set xs" "page_aligned p"
    using vm vm_ok_pages [OF vm, of p] by (auto simp: vm_ok_def kmem_ok_def)
  have fr1: "mem_frame s1 (pt_pages (mem s) root \<union> set xs) s'" using g pg by (simp add: uvm_grown_def)
  have "zero_page (mem s') p"
    by (rule zero_page_frame [OF z fr1 p(2,1)]) (use vm_ok_pages [OF vm] in auto)
  moreover have vn: "vpte (mem s') root n = PA2PTE p OR perm OR PTE_V"
    using g n v by (simp add: uvm_grown_def)
  moreover have "upages (mem s') root (insert n A) = insert p (upages (mem s') root A)"
  proof -
    have "upage (mem s') root n = upage (mem s1) root n" using vn v by (simp add: upage_def)
    then show ?thesis using up by (auto simp: upages_def)
  qed
  moreover have "mem_frame s (pt_pages (mem s) root \<union> set (p # xs)) s'"
    using mem_frame_trans [OF fr fr1] by (rule mem_frame_mono) auto
  ultimately show ?thesis using g pg v z' unfolding uvm_grown_def by auto
qed

lemma uvmalloc_fail:
  assumes "uvm_ok t ys root D" "page_aligned lo" "page_aligned a" "lo \<le> a" "a \<le> MAXVA"
    and "{page_no lo..<page_no a} \<subseteq> D" "mem_frame s W t" "vpte (mem t) root = vpte (mem s) root"
    and "pt_pages (mem t) root \<union> set ys = W"
  shows "\<exists>s' xs'. uvmdealloc root a lo es t = Ok lo s' es \<and> uvm_ok s' xs' root D \<and>
    vpte (mem s') root = clear_range (page_no lo) (page_no a - page_no lo) (vpte (mem s) root) \<and>
    pt_pages (mem s') root \<union> set xs' = W \<union> upages (mem s) root {page_no lo..<page_no a} \<and>
    mem_frame s (W \<union> upages (mem s) root {page_no lo..<page_no a}) s'"
proof -
  from uvmdealloc_spec [OF assms(1,5,4), of es] assms(2,3,6) obtain s' fs where
    d: "uvmdealloc root a lo es t = Ok lo s' es" "uvm_ok s' (fs @ ys) root D"
      "set fs = upages (mem t) root {page_no lo..<page_no a}"
      "vpte (mem s') root = clear_range (page_no lo) (page_no a - page_no lo) (vpte (mem t) root)"
      "vm_shrink t root s' (set fs)"
    by (auto simp: npg_page)
  have fs: "set fs = upages (mem s) root {page_no lo..<page_no a}"
    using d(3) upages_cong [OF assms(8)] by simp
  have "pt_pages (mem s') root = pt_pages (mem t) root" using d(5) by (simp add: vm_shrink_def)
  then have "pt_pages (mem s') root \<union> set (fs @ ys) = W \<union> upages (mem s) root {page_no lo..<page_no a}"
    using assms(9) fs by auto
  moreover have "mem_frame s (W \<union> upages (mem s) root {page_no lo..<page_no a}) s'"
    using mem_frame_trans [OF assms(7) vm_shrink_frame [OF d(5)]] assms(9) fs
    by (auto intro: mem_frame_mono)
  ultimately show ?thesis using d(1,2,4) assms(8)
    by (intro exI [of _ s'] exI [of _ "fs @ ys"]) simp
qed

lemma clear_range_snoc:
  assumes "f n = 0" "v AND PTE_V \<noteq> 0" "lo \<le> n"
  shows "clear_range lo (Suc n - lo) (f(n := v)) = clear_range lo (n - lo) f"
  using assms by (auto simp: clear_range_def fun_eq_iff)

text \<open>One round of the loop of \<open>uvmalloc\<close>.\<close>

lemma uvmalloc_round:
  assumes ok: "uvm_ok s xs root D" and a: "page_aligned a" "a < newsz" "a < MAXVA"
    and perm: "PTE_R OR PTE_U OR xperm < 1024" and zero: "vpte (mem s) root (page_no a) = 0"
  shows "(\<exists>t ys. uvmalloc_loop root a lo newsz xperm es s = kthen (uvmdealloc root a lo) (kret 0) es t \<and>
      uvm_ok t ys root D \<and> vpte (mem t) root = vpte (mem s) root \<and>
      pt_pages (mem t) root \<union> set ys = pt_pages (mem s) root \<union> set xs \<and>
      mem_frame s (pt_pages (mem s) root \<union> set xs) t) \<or>
    (\<exists>p ps t ys. xs = p # ps \<and> uvm_ok t ys root D \<and> zero_page (mem t) p \<and> set ys \<subseteq> set ps \<and>
      uvmalloc_loop root a lo newsz xperm es s = uvmalloc_loop root (a + 4096) lo newsz xperm es t \<and>
      vpte (mem t) root = (vpte (mem s) root)(page_no a := PA2PTE p OR (PTE_R OR PTE_U OR xperm) OR PTE_V) \<and>
      upage (mem t) root = (upage (mem s) root)(page_no a := Some p) \<and>
      pt_pages (mem t) root \<union> set ys = pt_pages (mem s) root \<union> set ps \<and>
      mem_frame s (pt_pages (mem s) root \<union> set xs) t)"
proof (cases xs)
  case Nil
  have "kalloc es s = Ok 0 s es" using ok Nil by (simp add: uvm_ok_def vm_ok_def kalloc_empty)
  then have "uvmalloc_loop root a lo newsz xperm es s = kthen (uvmdealloc root a lo) (kret 0) es s"
    using a(2) by (subst uvmalloc_loop.simps) simp
  then show ?thesis using ok by (intro disjI1 exI [of _ s] exI [of _ xs]) simp
next
  case (Cons p ps)
  then have uvm: "uvm_ok s (p # ps) root D" using ok by simp
  have kp: "kmem_ok s (p # ps)" using uvm by (simp add: uvm_ok_def vm_ok_def)
  then have p0: "p \<noteq> 0" "page_aligned p" by (auto simp: kmem_ok_def intro: valid_page_aligned)
  let ?perm = "PTE_R OR PTE_U OR xperm" and ?m1 = "memset (memset (mem s) p 5 4096) p 0 4096"
  let ?s1 = "s\<lparr>mem := ?m1, freelist := load64 (mem s) p\<rparr>"
  have fill: "agree_outside {page_no p} (mem s) ?m1"
    using agree_outside_trans [OF agree_outside_memset agree_outside_memset, OF p0(2) _ p0(2)] by simp
  have kal: "kalloc es s = Ok p (s\<lparr>mem := memset (mem s) p 5 4096, freelist := load64 (mem s) p\<rparr>) es"
    using kalloc_effect [OF kp, of es] by blast
  note tk = uvm_take [OF uvm fill]
  have "vpte (mem ?s1) root (page_no a) AND PTE_V = 0" using tk(2) zero by simp
  with uvm_ok_vm [OF tk(1)] a(1,3) show ?thesis
  proof (rule mappages_page [where pa = p and perm = ?perm and es = es])
    fix t ys
    assume m: "mappages root a 4096 p ?perm es ?s1 = Ok 0 t es" and st: "vm_step ?s1 ps root t ys"
      "vpte (mem t) root = (vpte (mem ?s1) root)(page_no a := PA2PTE p OR ?perm OR PTE_V)"
    note f = map_fresh_ok [OF uvm fill perm zero st]
    have "zero_page (mem t) p"
      by (rule zero_page_frame [OF _ f(6)])
        (use zero_page_memset [OF p0(2)] p0 tk(5) vm_ok_pages [OF uvm_ok_vm [OF uvm]] in auto)
    moreover have "uvmalloc_loop root a lo newsz xperm es s = uvmalloc_loop root (a + 4096) lo newsz xperm es t"
      using a(2) kal p0(1) m by (subst uvmalloc_loop.simps) simp
    ultimately show ?thesis using f Cons by auto
  next
    fix t assume m: "mappages root a 4096 p ?perm es ?s1 = Ok (- 1) t es" and st: "vm_grow ?s1 ps root t []"
    from map_fresh_fail [OF uvm fill st, of es] obtain t' where f: "kfree p es t = Ok () t' es"
      "uvm_ok t' [p] root D" "vpte (mem t') root = vpte (mem s) root"
      "pt_pages (mem t') root \<union> {p} = pt_pages (mem s) root \<union> set (p # ps)"
      "mem_frame s (pt_pages (mem s) root \<union> set (p # ps)) t'" by blast
    have "uvmalloc_loop root a lo newsz xperm es s = kthen (uvmdealloc root a lo) (kret 0) es t'"
      using a(2) kal p0(1) m f(1) by (subst uvmalloc_loop.simps) simp
    then show ?thesis using f Cons by (intro disjI1 exI [of _ t'] exI [of _ "[p]"]) simp
  qed
qed

lemma page_less_npg:
  assumes "page_aligned a"
  shows "a < sz \<longleftrightarrow> page_no a < npg sz"
proof -
  obtain k where k: "unat a = 4096 * k" using assms by (auto simp: page_aligned_def PGSIZE_def)
  then show ?thesis unfolding npg_def page_no_def PGSIZE_def word_less_nat_alt by auto
qed

definition uvm_undone ::
  "'z kmem_scheme \<Rightarrow> addr list \<Rightarrow> addr \<Rightarrow> nat \<Rightarrow> nat \<Rightarrow> 'z kmem_scheme \<Rightarrow> addr list \<Rightarrow> bool"
where
  "uvm_undone s xs root lo n s' xs' \<longleftrightarrow>
     vpte (mem s') root = clear_range lo (n - lo) (vpte (mem s) root) \<and>
     pt_pages (mem s') root \<union> set xs' = pt_pages (mem s) root \<union> set xs \<union> upages (mem s) root {lo..<n} \<and>
     mem_frame s (pt_pages (mem s) root \<union> set xs \<union> upages (mem s) root {lo..<n}) s'"

lemma uvm_undone_step:
  assumes "vpte (mem t) root = (vpte (mem s) root)(n := v)" "v AND PTE_V \<noteq> 0" "vpte (mem s) root n = 0"
    and "lo \<le> n" "upage (mem t) root = (upage (mem s) root)(n := Some p)"
    and "pt_pages (mem t) root \<union> set ys = pt_pages (mem s) root \<union> set ps"
    and fr: "mem_frame s (pt_pages (mem s) root \<union> set (p # ps)) t"
    and u: "uvm_undone t ys root lo (Suc n) s' xs'"
  shows "uvm_undone s (p # ps) root lo n s' xs'"
proof -
  have "{lo..<Suc n} = insert n {lo..<n}" using assms(4) by auto
  then have up: "upages (mem t) root {lo..<Suc n} = insert p (upages (mem s) root {lo..<n})"
    using assms(5) by (auto simp: upages_def)
  have W: "pt_pages (mem t) root \<union> set ys \<union> upages (mem t) root {lo..<Suc n} =
      pt_pages (mem s) root \<union> set (p # ps) \<union> upages (mem s) root {lo..<n}"
    unfolding up assms(6) by auto
  have "mem_frame t (pt_pages (mem s) root \<union> set (p # ps) \<union> upages (mem s) root {lo..<n}) s'"
    using u unfolding uvm_undone_def W by simp
  from mem_frame_trans [OF fr this]
  have "mem_frame s (pt_pages (mem s) root \<union> set (p # ps) \<union> upages (mem s) root {lo..<n}) s'"
    by (rule mem_frame_mono) auto
  then show ?thesis
    using u clear_range_snoc [of "vpte (mem s) root" n v lo] assms(1-4) unfolding uvm_undone_def W by simp
qed

lemma uvmalloc_loop_spec:
  assumes "uvm_ok s xs root D" "page_aligned lo" "page_aligned a" "lo \<le> a" "newsz \<le> MAXVA"
    and "npg newsz = page_no a + k" "{page_no lo..<npg newsz} \<subseteq> D" "PTE_R OR PTE_U OR xperm < 1024"
    and "\<And>i. page_no a \<le> i \<Longrightarrow> i < npg newsz \<Longrightarrow> vpte (mem s) root i = 0"
  shows "\<exists>r s' xs'. uvmalloc_loop root a lo newsz xperm es s = Ok r s' es \<and> uvm_ok s' xs' root D \<and>
    (r = newsz \<and> uvm_grown s xs root {page_no a..<npg newsz} (PTE_R OR PTE_U OR xperm) s' xs' \<or>
     r = 0 \<and> uvm_undone s xs root (page_no lo) (page_no a) s' xs')"
  using assms
proof (induction k arbitrary: s xs a)
  case (0 s xs a)
  have "\<not> a < newsz" using page_less_npg [OF 0(3)] 0(6) by simp
  then have "uvmalloc_loop root a lo newsz xperm es s = Ok newsz s es"
    by (subst uvmalloc_loop.simps) simp
  then show ?case using 0(1,6) by (auto simp: uvm_grown_def)
next
  case (Suc k s xs a)
  let ?perm = "PTE_R OR PTE_U OR xperm" and ?n = "page_no a"
  have a: "a < newsz" "a < MAXVA" using page_less_npg [OF Suc.prems(3), of newsz] Suc.prems(5,6) by auto
  note nx = page_no_step [OF a(2) Suc.prems(3)] and un = page_step_measure(2) [OF a(2)]
  have D: "{page_no lo..<?n} \<subseteq> D" using Suc.prems(6,7) by auto
  have lon: "page_no lo \<le> ?n" using Suc.prems(4) by (simp add: page_no_def word_le_nat_alt div_le_mono)
  have zero: "vpte (mem s) root ?n = 0" using Suc.prems(9) [of ?n] Suc.prems(6) by simp
  from uvmalloc_round [OF Suc.prems(1,3) a Suc.prems(8) zero, of lo es]
  consider (fail) t ys where "uvmalloc_loop root a lo newsz xperm es s = kthen (uvmdealloc root a lo) (kret 0) es t"
      "uvm_ok t ys root D" "vpte (mem t) root = vpte (mem s) root"
      "pt_pages (mem t) root \<union> set ys = pt_pages (mem s) root \<union> set xs"
      "mem_frame s (pt_pages (mem s) root \<union> set xs) t"
    | (step) p ps t ys where "xs = p # ps" "uvm_ok t ys root D" "zero_page (mem t) p" "set ys \<subseteq> set ps"
      "uvmalloc_loop root a lo newsz xperm es s = uvmalloc_loop root (a + 4096) lo newsz xperm es t"
      "vpte (mem t) root = (vpte (mem s) root)(?n := PA2PTE p OR ?perm OR PTE_V)"
      "upage (mem t) root = (upage (mem s) root)(?n := Some p)"
      "pt_pages (mem t) root \<union> set ys = pt_pages (mem s) root \<union> set ps"
      "mem_frame s (pt_pages (mem s) root \<union> set xs) t"
    by blast
  then show ?case
  proof cases
    case fail
    from uvmalloc_fail [OF fail(2) Suc.prems(2,3,4) less_imp_le [OF a(2)] D fail(5,3,4), of es]
    show ?thesis using fail(1) by (auto simp: uvm_undone_def)
  next
    case step
    have lo': "lo \<le> a + 4096" using Suc.prems(4) un by (simp add: word_le_nat_alt)
    have k': "npg newsz = page_no (a + 4096) + k" using nx(1) Suc.prems(6) by simp
    have z': "vpte (mem t) root i = 0" if "page_no (a + 4096) \<le> i" "i < npg newsz" for i
      using that nx(1) step(6) Suc.prems(9) [of i] by simp
    from Suc.IH [OF step(2) Suc.prems(2) nx(2) lo' Suc.prems(5) k' Suc.prems(7,8) z'] obtain r s' xs' where
      IH: "uvmalloc_loop root (a + 4096) lo newsz xperm es t = Ok r s' es" "uvm_ok s' xs' root D"
        "r = newsz \<and> uvm_grown t ys root {Suc ?n..<npg newsz} ?perm s' xs' \<or>
         r = 0 \<and> uvm_undone t ys root (page_no lo) (Suc ?n) s' xs'"
      unfolding nx(1) by blast
    have rg: "{?n..<npg newsz} = insert ?n {Suc ?n..<npg newsz}" using Suc.prems(6) by auto
    have "uvm_grown t ys root {Suc ?n..<npg newsz} ?perm s' xs' \<Longrightarrow>
        uvm_grown s xs root {?n..<npg newsz} ?perm s' xs'"
      unfolding rg step(1)
      by (rule uvm_grown_step [OF Suc.prems(1) [unfolded step(1)] _ step(6,7,8) step(9) [unfolded step(1)] step(3)])
        (use step(4) in auto)
    moreover have "uvm_undone t ys root (page_no lo) (Suc ?n) s' xs' \<Longrightarrow>
        uvm_undone s xs root (page_no lo) ?n s' xs'"
      unfolding step(1)
      by (rule uvm_undone_step [OF step(6) pte_valid_leaf zero lon step(7,8) step(9) [unfolded step(1)]])
    ultimately show ?thesis using IH step(5) by auto
  qed
qed

end
