(* ===== verification/Xv6_Uvmfree.thy ===== *)
theory Xv6_Uvmfree
  imports Xv6_Uvm
begin

text \<open>
  Taking a page table down (\<open>freewalk\<close> and \<open>uvmfree\<close> of \<open>kernel/vm.c\<close>): every page of the tree
  goes back to the allocator, once, and depth 3 of the recursion is enough.
\<close>

section \<open>Subtrees\<close>

text \<open>The pages of the subtree of \<open>d\<close> levels below (and including) the page-table page \<open>t\<close>.\<close>

definition sub_pages :: "memory \<Rightarrow> addr \<Rightarrow> nat \<Rightarrow> addr set" where
  "sub_pages m t d = {a. \<exists>q. length q < d \<and> pt_node m t q = Some a}"

definition sub_wf :: "addr \<Rightarrow> memory \<Rightarrow> addr \<Rightarrow> nat \<Rightarrow> bool" where
  "sub_wf e m t d \<longleftrightarrow> (\<forall>a \<in> sub_pages m t d. valid_page e a) \<and>
     (\<forall>p q a. length p < d \<longrightarrow> length q < d \<longrightarrow>
        pt_node m t p = Some a \<longrightarrow> pt_node m t q = Some a \<longrightarrow> p = q) \<and>
     (\<forall>p a i. length p < d \<longrightarrow> pt_node m t p = Some a \<longrightarrow> i < 512 \<longrightarrow> slot m a i AND PTE_V \<noteq> 0 \<longrightarrow>
        Suc (length p) < d \<and> slot m a i AND (PTE_R OR PTE_W OR PTE_X) = 0)"

text \<open>The subtrees below the entries \<open>J\<close> of the page \<open>t\<close>.\<close>

definition kid :: "memory \<Rightarrow> addr \<Rightarrow> nat \<Rightarrow> addr option" where
  "kid m t j = (if slot m t j AND PTE_V \<noteq> 0 then Some (PTE2PA (slot m t j)) else None)"

definition kids :: "memory \<Rightarrow> addr \<Rightarrow> nat \<Rightarrow> nat set \<Rightarrow> addr set" where
  "kids m t d J = (\<Union>j \<in> J. case kid m t j of None \<Rightarrow> {} | Some c \<Rightarrow> sub_pages m c d)"

lemma sub_pagesI: "pt_node m t q = Some a \<Longrightarrow> length q < d \<Longrightarrow> a \<in> sub_pages m t d"
  by (auto simp: sub_pages_def)

lemma sub_pages_0 [simp]: "sub_pages m t 0 = {}"
  by (simp add: sub_pages_def)

lemma pt_node_Cons: "pt_node m t (i # q) = (if i < 512 then case kid m t i of None \<Rightarrow> None | Some c \<Rightarrow> pt_node m c q else None)"
  by (simp add: kid_def)

lemma sub_pages_Suc: "sub_pages m t (Suc d) = insert t (kids m t d {0..<512})"
proof (intro equalityI subsetI)
  fix a assume "a \<in> sub_pages m t (Suc d)"
  then obtain q where q: "length q < Suc d" "pt_node m t q = Some a" by (auto simp: sub_pages_def)
  then show "a \<in> insert t (kids m t d {0..<512})"
  proof (cases q)
    case (Cons i r)
    then show ?thesis using q unfolding kids_def Cons pt_node_Cons
      by (auto split: if_splits option.splits intro!: bexI [of _ i] sub_pagesI [of _ _ r])
  qed simp
next
  fix a assume "a \<in> insert t (kids m t d {0..<512})"
  then consider "a = t" | j c q where "j < 512" "kid m t j = Some c" "length q < d" "pt_node m c q = Some a"
    by (auto simp: kids_def sub_pages_def split: option.splits)
  then show "a \<in> sub_pages m t (Suc d)"
  proof cases
    case 1
    then show ?thesis by (intro sub_pagesI [of _ _ "[]"]) simp_all
  next
    case 2
    then show ?thesis by (intro sub_pagesI [of _ _ "j # q"]) (simp_all only: pt_node_Cons, simp_all)
  qed
qed

lemma sub_node_agree:
  assumes "sub_wf e m t d" "agree_outside P m m'" "page_no ` sub_pages m t d \<inter> P = {}"
  shows "length p < d \<Longrightarrow> pt_node m' t p = pt_node m t p"
    and "length p < d \<Longrightarrow> pt_node m t p = Some a \<Longrightarrow> i < 512 \<Longrightarrow> slot m' a i = slot m a i"
proof -
  show sl: "length p < d \<Longrightarrow> pt_node m t p = Some a \<Longrightarrow> i < 512 \<Longrightarrow> slot m' a i = slot m a i" for p a i
  proof -
    assume a: "length p < d" "pt_node m t p = Some a" "i < 512"
    then have "a \<in> sub_pages m t d" by (auto intro: sub_pagesI)
    moreover from this have "page_aligned a" using assms(1) by (auto simp: sub_wf_def valid_page_aligned)
    ultimately show ?thesis using assms(2,3) a(3) by (intro slot_agree) auto
  qed
  show "length p < d \<Longrightarrow> pt_node m' t p = pt_node m t p"
  proof (induction p rule: rev_induct)
    case (snoc i p)
    then show ?case using sl [of p] by (auto simp: pt_node_snoc split: option.splits)
  qed simp
qed

lemma sub_agree:
  assumes "sub_wf e m t d" "agree_outside P m m'" "page_no ` sub_pages m t d \<inter> P = {}"
  shows "sub_pages m' t d = sub_pages m t d" "sub_wf e m' t d"
proof -
  note node = sub_node_agree [OF assms]
  show pages: "sub_pages m' t d = sub_pages m t d" using node(1) by (auto simp: sub_pages_def)
  have "Suc (length p) < d \<and> slot m' a i AND (PTE_R OR PTE_W OR PTE_X) = 0"
    if "length p < d" "pt_node m' t p = Some a" "i < 512" "slot m' a i AND PTE_V \<noteq> 0" for p a i
    using assms(1) that node(1) [of p] node(2) [of p a i] unfolding sub_wf_def by auto
  then show "sub_wf e m' t d" using assms(1) node(1) unfolding sub_wf_def pages by metis
qed

lemma kids_insert: "kids m t d (insert j J) = (case kid m t j of None \<Rightarrow> {} | Some c \<Rightarrow> sub_pages m c d) \<union> kids m t d J"
  by (simp add: kids_def)

lemma sub_wf_kid:
  assumes "sub_wf e m t (Suc d)" "kid m t j = Some c" "j < 512"
  shows "sub_wf e m c d" "slot m t j AND (PTE_R OR PTE_W OR PTE_X) = 0" "t \<notin> sub_pages m c d"
proof -
  have node: "pt_node m c q = pt_node m t (j # q)" for q
    unfolding pt_node_Cons using assms(2,3) by simp
  have sub: "sub_pages m c d \<subseteq> sub_pages m t (Suc d)"
  proof
    fix x assume "x \<in> sub_pages m c d"
    then obtain q where "length q < d" "pt_node m c q = Some x" by (auto simp: sub_pages_def)
    then show "x \<in> sub_pages m t (Suc d)" using node [of q] by (intro sub_pagesI [of m t "j # q"]) auto
  qed
  have inj: "p = q" if "length p < Suc d" "length q < Suc d" "pt_node m t p = Some a" "pt_node m t q = Some a" for p q a
    using assms(1) that unfolding sub_wf_def by blast
  have dir: "Suc (length p) < Suc d \<and> slot m a i AND (PTE_R OR PTE_W OR PTE_X) = 0"
    if "length p < Suc d" "pt_node m t p = Some a" "i < 512" "slot m a i AND PTE_V \<noteq> 0" for p a i
    using assms(1) that unfolding sub_wf_def by blast
  show "slot m t j AND (PTE_R OR PTE_W OR PTE_X) = 0"
    using dir [of "[]" t j] assms(2,3) by (simp add: kid_def split: if_splits)
  show "sub_wf e m c d"
    unfolding sub_wf_def
  proof (intro conjI ballI allI impI)
    show "valid_page e a" if "a \<in> sub_pages m c d" for a
      using assms(1) sub that by (auto simp: sub_wf_def)
    show "p = q" if "length p < d" "length q < d" "pt_node m c p = Some a" "pt_node m c q = Some a" for p q a
      using inj [of "j # p" "j # q" a] that unfolding node by simp
    fix p a i assume "length p < d" "pt_node m c p = Some a" "i < 512" "slot m a i AND PTE_V \<noteq> 0"
    then show "Suc (length p) < d" "slot m a i AND (PTE_R OR PTE_W OR PTE_X) = 0"
      using dir [of "j # p" a i] unfolding node by auto
  qed
  show "t \<notin> sub_pages m c d"
  proof
    assume "t \<in> sub_pages m c d"
    then obtain q where "length q < d" "pt_node m t (j # q) = Some t" by (auto simp: sub_pages_def node)
    then show False using inj [of "j # q" "[]" t] by auto
  qed
qed

lemma kid_disjoint:
  assumes "sub_wf e m t (Suc d)" "kid m t j = Some c" "kid m t k = Some c'" "j < 512" "k < 512" "j \<noteq> k"
  shows "sub_pages m c d \<inter> sub_pages m c' d = {}"
proof -
  have False if "length p < d" "length q < d" "pt_node m c p = Some a" "pt_node m c' q = Some a" for p q a
  proof -
    have "pt_node m t (j # p) = Some a" "pt_node m t (k # q) = Some a"
      unfolding pt_node_Cons using assms that by simp_all
    moreover have "length (j # p) < Suc d" "length (k # q) < Suc d" using that(1,2) by auto
    ultimately have "j # p = k # q" using assms(1) unfolding sub_wf_def by blast
    then show False using assms(6) by simp
  qed
  then show ?thesis by (auto simp: sub_pages_def)
qed

section \<open>What freewalk does\<close>

lemma mem_frame_agree: "mem_frame s W s' \<Longrightarrow> agree_outside (page_no ` W) (mem s) (mem s')"
  by (simp add: mem_frame_def)

lemma page_no_disjoint:
  assumes "\<And>a. a \<in> A \<Longrightarrow> page_aligned a" "\<And>b. b \<in> B \<Longrightarrow> page_aligned b" "A \<inter> B = {}"
  shows "page_no ` A \<inter> page_no ` B = {}"
proof -
  have False if "a \<in> A" "b \<in> B" "page_no a = page_no b" for a b
    using page_no_inj [OF assms(1) [OF that(1)] assms(2) [OF that(2)] that(3)] that assms(3) by blast
  then show ?thesis by auto
qed

lemma kmem_ok_frame:
  assumes "kmem_ok s xs" "mem_frame s W s'" "freelist s' = freelist s" "held s' = held s"
    "W \<inter> set xs = {}" "\<And>w. w \<in> W \<Longrightarrow> page_aligned w"
  shows "kmem_ok s' xs"
proof (rule kmem_ok_cong [OF assms(1,3) mem_frame_kend [OF assms(2)] _ mem_frame_agree [OF assms(2)]])
  show "KmemLock \<notin> set (held s')" using assms(1,4) by (simp add: kmem_ok_def)
  fix x assume "x \<in> set xs"
  then show "page_no x \<notin> page_no ` W"
    using page_no_disjoint [of W "set xs"] assms(1,5,6) by (auto simp: kmem_ok_def intro: valid_page_aligned)
qed

definition freed :: "'z kmem_scheme \<Rightarrow> addr list \<Rightarrow> addr set \<Rightarrow> addr set \<Rightarrow> 'z kmem_scheme \<Rightarrow> bool" where
  "freed s xs W F s' \<longleftrightarrow> (\<exists>ys. kmem_ok s' (ys @ xs) \<and> set ys = F) \<and> mem_frame s W s'"

lemma freed_trans:
  assumes "freed s xs V F t" "\<And>ys. kmem_ok t (ys @ xs) \<Longrightarrow> set ys = F \<Longrightarrow> freed t (ys @ xs) W G u"
  shows "freed s xs (V \<union> W) (F \<union> G) u"
proof -
  obtain ys where ys: "kmem_ok t (ys @ xs)" "set ys = F" and fr: "mem_frame s V t"
    using assms(1) by (auto simp: freed_def)
  obtain zs where zs: "kmem_ok u (zs @ ys @ xs)" "set zs = G" and fr2: "mem_frame t W u"
    using assms(2) [OF ys] by (auto simp: freed_def)
  then show ?thesis using ys mem_frame_trans [OF fr fr2] unfolding freed_def
    by (intro conjI exI [of _ "zs @ ys"]) auto
qed

text \<open>Freeing the subtree of one entry and clearing the entry leaves the other subtrees alone.\<close>

lemma kids_frame:
  assumes fr: "mem_frame s (insert t C) s'" and t: "page_aligned t" "\<And>a. a \<in> C \<Longrightarrow> page_aligned a"
    and sl: "\<And>k. k \<in> J \<Longrightarrow> slot (mem s') t k = slot (mem s) t k"
    and K: "\<And>k c. k \<in> J \<Longrightarrow> kid (mem s) t k = Some c \<Longrightarrow> sub_wf (kend s) (mem s) c d \<and>
      t \<notin> sub_pages (mem s) c d \<and> C \<inter> sub_pages (mem s) c d = {}"
  shows "\<And>k. k \<in> J \<Longrightarrow> kid (mem s') t k = kid (mem s) t k"
    and "\<And>k c. k \<in> J \<Longrightarrow> kid (mem s) t k = Some c \<Longrightarrow>
      sub_wf (kend s') (mem s') c d \<and> sub_pages (mem s') c d = sub_pages (mem s) c d"
    and "kids (mem s') t d J = kids (mem s) t d J"
proof -
  show kid: "\<And>k. k \<in> J \<Longrightarrow> kid (mem s') t k = kid (mem s) t k" by (simp add: kid_def sl)
  show sub: "sub_wf (kend s') (mem s') c d \<and> sub_pages (mem s') c d = sub_pages (mem s) c d"
    if "k \<in> J" "kid (mem s) t k = Some c" for k c
  proof -
    note Kk = K [OF that]
    then have "\<And>a. a \<in> sub_pages (mem s) c d \<Longrightarrow> page_aligned a"
      by (auto simp: sub_wf_def valid_page_aligned)
    then have "page_no ` sub_pages (mem s) c d \<inter> page_no ` insert t C = {}"
      using Kk t by (intro page_no_disjoint) auto
    from sub_agree [OF _ mem_frame_agree [OF fr] this] Kk mem_frame_kend [OF fr] show ?thesis by auto
  qed
  show "kids (mem s') t d J = kids (mem s) t d J"
    unfolding kids_def using kid sub by (intro SUP_cong) (auto split: option.splits)
qed

text \<open>
  What the loop over the entries \<open>J\<close> of a page-table page relies on: the subtrees below them are
  well-formed, disjoint, and not free yet.
\<close>

definition kids_ok :: "'z kmem_scheme \<Rightarrow> addr list \<Rightarrow> addr \<Rightarrow> nat \<Rightarrow> nat set \<Rightarrow> bool" where
  "kids_ok s xs t d J \<longleftrightarrow> kmem_ok s xs \<and> valid_page (kend s) t \<and> t \<notin> set xs \<and> J \<subseteq> {0..<512} \<and>
     (\<forall>j \<in> J. \<forall>c. kid (mem s) t j = Some c \<longrightarrow> 0 < d \<and> sub_wf (kend s) (mem s) c d \<and>
        slot (mem s) t j AND (PTE_R OR PTE_W OR PTE_X) = 0 \<and> t \<notin> sub_pages (mem s) c d) \<and>
     (\<forall>j \<in> J. \<forall>k \<in> J. \<forall>c c'. j \<noteq> k \<longrightarrow> kid (mem s) t j = Some c \<longrightarrow> kid (mem s) t k = Some c' \<longrightarrow>
        sub_pages (mem s) c d \<inter> sub_pages (mem s) c' d = {}) \<and>
     kids (mem s) t d J \<inter> set xs = {}"

lemma kids_ok_step:
  assumes ok: "kids_ok s xs t d (insert j J)" and j: "j \<notin> J" "kid (mem s) t j = Some c"
    and f: "freed s xs (sub_pages (mem s) c d) (sub_pages (mem s) c d) s1"
  defines "s2 \<equiv> s1\<lparr>mem := store64 (mem s1) (t + 8 * of_nat j) 0\<rparr>"
  shows "\<exists>ys. kids_ok s2 (ys @ xs) t d J \<and> set ys = sub_pages (mem s) c d" "kids (mem s2) t d J = kids (mem s) t d J"
    "mem_frame s (insert t (sub_pages (mem s) c d)) s2"
proof -
  let ?C = "sub_pages (mem s) c d"
  obtain ys where ys: "kmem_ok s1 (ys @ xs)" "set ys = ?C" and fr: "mem_frame s ?C s1"
    using f by (auto simp: freed_def)
  have jl: "j < 512" and J: "J \<subseteq> {0..<512}" and vt: "valid_page (kend s) t" "t \<notin> set xs"
    and A: "\<forall>k \<in> insert j J. \<forall>c'. kid (mem s) t k = Some c' \<longrightarrow> 0 < d \<and> sub_wf (kend s) (mem s) c' d \<and>
        slot (mem s) t k AND (PTE_R OR PTE_W OR PTE_X) = 0 \<and> t \<notin> sub_pages (mem s) c' d"
    and B: "\<forall>i \<in> insert j J. \<forall>k \<in> insert j J. \<forall>c c'. i \<noteq> k \<longrightarrow> kid (mem s) t i = Some c \<longrightarrow>
        kid (mem s) t k = Some c' \<longrightarrow> sub_pages (mem s) c d \<inter> sub_pages (mem s) c' d = {}"
    using ok by (simp_all add: kids_ok_def)
  have wf: "sub_wf (kend s) (mem s) c d" and tC: "t \<notin> ?C" using A j(2) by blast+
  have K: "0 < d \<and> sub_wf (kend s) (mem s) c' d \<and> slot (mem s) t k AND (PTE_R OR PTE_W OR PTE_X) = 0 \<and>
      t \<notin> sub_pages (mem s) c' d \<and> ?C \<inter> sub_pages (mem s) c' d = {}"
    if "k \<in> J" "kid (mem s) t k = Some c'" for k c'
  proof -
    have "j \<noteq> k" using that(1) j(1) by blast
    then have "?C \<inter> sub_pages (mem s) c' d = {}" using B j(2) that by blast
    then show ?thesis using A that by blast
  qed
  have dis: "sub_pages (mem s) c d \<inter> sub_pages (mem s) c' d = {}"
    if "i \<in> J" "k \<in> J" "i \<noteq> k" "kid (mem s) t i = Some c" "kid (mem s) t k = Some c'" for i k c c'
    using B that by blast
  have kx: "kids (mem s) t d J \<inter> set xs = {}" using ok by (auto simp: kids_ok_def kids_insert)
  note pt = valid_page_aligned [OF vt(1)]
  have pC: "\<And>a. a \<in> ?C \<Longrightarrow> page_aligned a" using wf by (auto simp: sub_wf_def valid_page_aligned)
  have fr2: "mem_frame s1 {t} s2"
    using agree_outside_store64 [OF slot_in_page(1) [OF pt jl], of "mem s1" 0] slot_in_page(2) [OF pt jl]
    by (simp add: mem_frame_def s2_def)
  show fr': "mem_frame s (insert t ?C) s2" using mem_frame_trans [OF fr fr2] by simp
  have "page_no t \<notin> page_no ` ?C" using page_no_disjoint [of "{t}" ?C] pt pC tC by auto
  then have "slot (mem s1) t k = slot (mem s) t k" if "k < 512" for k
    using slot_agree [OF mem_frame_agree [OF fr] pt _ that] by simp
  then have sl: "slot (mem s2) t k = slot (mem s) t k" if "k \<in> J" for k
    using that J j(1) jl pt by (auto simp: s2_def slot_store)
  have Kc: "sub_wf (kend s) (mem s) c' d \<and> t \<notin> sub_pages (mem s) c' d \<and> ?C \<inter> sub_pages (mem s) c' d = {}"
    if "k \<in> J" "kid (mem s) t k = Some c'" for k c' using K [OF that] by blast
  have kid2: "kid (mem s2) t k = kid (mem s) t k" if "k \<in> J" for k
    by (rule kids_frame(1) [OF fr' pt, where J = J and d = d]) (use pC sl Kc that in blast)+
  have sub2: "sub_wf (kend s2) (mem s2) c' d \<and> sub_pages (mem s2) c' d = sub_pages (mem s) c' d"
    if "k \<in> J" "kid (mem s) t k = Some c'" for k c'
    by (rule kids_frame(2) [OF fr' pt, where J = J and d = d and k = k]) (use pC sl Kc that in blast)+
  show kids2: "kids (mem s2) t d J = kids (mem s) t d J"
    by (rule kids_frame(3) [OF fr' pt]) (use pC sl Kc in blast)+
  have "kmem_ok s2 (ys @ xs)"
    by (rule kmem_ok_frame [OF ys(1) fr2]) (use ys(2) tC vt(2) pt in \<open>auto simp: s2_def\<close>)
  moreover have "kids (mem s) t d J \<inter> ?C = {}"
    using K by (fastforce simp: kids_def split: option.splits)
  moreover have "kend s2 = kend s" using fr' by (rule mem_frame_kend)
  ultimately have "kids_ok s2 (ys @ xs) t d J"
    using vt tC J ys(2) kx K dis sl kid2 sub2 kids2 unfolding kids_ok_def by (simp, blast)
  then show "\<exists>ys. kids_ok s2 (ys @ xs) t d J \<and> set ys = ?C" using ys(2) by blast
qed

lemma freewalk_loop:
  fixes s :: "'z kmem_scheme"
  assumes rec: "\<And>c (s :: 'z kmem_scheme) xs es. kmem_ok s xs \<Longrightarrow> 0 < d \<Longrightarrow> sub_wf (kend s) (mem s) c d \<Longrightarrow>
      sub_pages (mem s) c d \<inter> set xs = {} \<Longrightarrow>
      \<exists>s'. freewalk d c es s = Ok () s' es \<and> freed s xs (sub_pages (mem s) c d) (sub_pages (mem s) c d) s'"
  shows "distinct js \<Longrightarrow> kids_ok s xs t d (set js) \<Longrightarrow>
    \<exists>s'. kfor js (freewalk_entry (freewalk d) t) es s = Ok () s' es \<and>
      freed s xs (insert t (kids (mem s) t d (set js))) (kids (mem s) t d (set js)) s'"
proof (induction js arbitrary: s xs)
  case Nil
  then show ?case by (auto simp: kids_def kids_ok_def freed_def)
next
  case (Cons j js)
  have ok: "kids_ok s xs t d (insert j (set js))" and j: "j \<notin> set js" using Cons.prems by simp_all
  show ?case
  proof (cases "kid (mem s) t j")
    case None
    then have "freewalk_entry (freewalk d) t j es s = Ok () s es"
      by (simp add: freewalk_entry_def kid_def slot_def split: if_splits)
    moreover have "kids (mem s) t d (set (j # js)) = kids (mem s) t d (set js)"
      using None by (simp add: kids_insert)
    moreover have "kids_ok s xs t d (set js)" using ok by (auto simp: kids_ok_def kids_insert)
    ultimately show ?thesis using Cons.IH Cons.prems(1) by simp
  next
    case (Some c)
    let ?C = "sub_pages (mem s) c d"
    have "kmem_ok s xs" "0 < d" "sub_wf (kend s) (mem s) c d" "?C \<inter> set xs = {}"
      and fl: "slot (mem s) t j AND (PTE_R OR PTE_W OR PTE_X) = 0"
      using ok Some by (auto simp: kids_ok_def kids_insert)
    from rec [OF this(1-4), of es] obtain s1 where
      s1: "freewalk d c es s = Ok () s1 es" "freed s xs ?C ?C s1" by blast
    let ?s2 = "s1\<lparr>mem := store64 (mem s1) (t + 8 * of_nat j) 0\<rparr>"
    note st = kids_ok_step [OF ok j Some s1(2)]
    obtain ys where ys: "kids_ok ?s2 (ys @ xs) t d (set js)" "set ys = ?C" using st(1) by blast
    have run: "freewalk_entry (freewalk d) t j es s = Ok () ?s2 es"
      using s1(1) Some fl by (simp add: freewalk_entry_def kid_def slot_def split: if_splits)
    obtain s3 where s3: "kfor js (freewalk_entry (freewalk d) t) es ?s2 = Ok () s3 es"
      "freed ?s2 (ys @ xs) (insert t (kids (mem s) t d (set js))) (kids (mem s) t d (set js)) s3"
      using Cons.IH [OF _ ys(1)] Cons.prems(1) st(2) by auto
    obtain zs where zs: "kmem_ok s3 (zs @ ys @ xs)" "set zs = kids (mem s) t d (set js)"
      and fr: "mem_frame ?s2 (insert t (kids (mem s) t d (set js))) s3"
      using s3(2) by (auto simp: freed_def)
    have "set (zs @ ys) = kids (mem s) t d (set (j # js))"
      using zs(2) ys(2) Some by (auto simp: kids_insert)
    moreover have "mem_frame s (insert t (kids (mem s) t d (set (j # js)))) s3"
      using mem_frame_trans [OF st(3) fr] Some by (auto simp: kids_insert intro: mem_frame_mono)
    ultimately have "freed s xs (insert t (kids (mem s) t d (set (j # js)))) (kids (mem s) t d (set (j # js))) s3"
      using zs(1) unfolding freed_def by (metis append.assoc)
    then show ?thesis using run s3(1) by auto
  qed
qed

lemma freewalk_sub:
  assumes "kmem_ok s xs" "0 < d" "sub_wf (kend s) (mem s) t d" "sub_pages (mem s) t d \<inter> set xs = {}"
  shows "\<exists>s'. freewalk d t es s = Ok () s' es \<and> freed s xs (sub_pages (mem s) t d) (sub_pages (mem s) t d) s'"
  using assms
proof (induction d arbitrary: s xs t es)
  case (Suc d)
  let ?K = "kids (mem s) t d {0..<512}"
  have sp: "sub_pages (mem s) t (Suc d) = insert t ?K" by (rule sub_pages_Suc)
  have vt: "valid_page (kend s) t" "t \<notin> set xs" "?K \<inter> set xs = {}"
    using Suc.prems(3,4) unfolding sub_wf_def sp by auto
  have "0 < d" if "j < 512" "kid (mem s) t j = Some c" for j c
  proof -
    have "length ([] :: nat list) < Suc d" "pt_node (mem s) t [] = Some t" "slot (mem s) t j AND PTE_V \<noteq> 0"
      using that by (auto simp: kid_def split: if_splits)
    moreover have "\<forall>p a i. length p < Suc d \<longrightarrow> pt_node (mem s) t p = Some a \<longrightarrow> i < 512 \<longrightarrow>
        slot (mem s) a i AND PTE_V \<noteq> 0 \<longrightarrow> Suc (length p) < Suc d"
      using Suc.prems(3) unfolding sub_wf_def by blast
    ultimately have "Suc (length ([] :: nat list)) < Suc d" using that(1) by blast
    then show ?thesis by simp
  qed
  then have "kids_ok s xs t d {0..<512}"
    using Suc.prems(1) vt sub_wf_kid [OF Suc.prems(3)] kid_disjoint [OF Suc.prems(3)]
    unfolding kids_ok_def by auto
  then have "kids_ok s xs t d (set [0..<512])" unfolding set_upt .
  from freewalk_loop [OF Suc.IH distinct_upt this, of es] obtain s1 where
    s1: "kfor [0..<512] (freewalk_entry (freewalk d) t) es s = Ok () s1 es" "freed s xs (insert t ?K) ?K s1"
    unfolding set_upt by blast
  obtain ys where ys: "kmem_ok s1 (ys @ xs)" "set ys = ?K" and fr: "mem_frame s (insert t ?K) s1"
    using s1(2) by (auto simp: freed_def)
  have "t \<notin> ?K" using sub_wf_kid(3) [OF Suc.prems(3)] by (auto simp: kids_def split: option.splits)
  then have "t \<notin> set (ys @ xs)" "valid_page (kend s1) t" using ys(2) vt mem_frame_kend [OF fr] by auto
  from kfree_effect [OF ys(1) this(2,1), of es] obtain s2 where
    k: "kfree t es s1 = Ok () s2 es" "kmem_ok s2 (t # ys @ xs)" "s2 = s1\<lparr>mem := mem s2, freelist := t\<rparr>"
      "agree_outside {page_no t} (mem s1) (mem s2)" by blast
  have "freelist s2 = t" by (subst k(3)) simp
  then have "mem_frame s1 {t} s2" using k(3,4) by (simp add: mem_frame_def)
  from mem_frame_trans [OF fr this] have "mem_frame s (insert t ?K) s2" by (rule mem_frame_mono) auto
  then have "freed s xs (insert t ?K) (insert t ?K) s2"
    unfolding freed_def using k(2) ys(2) by (intro conjI exI [of _ "t # ys"]) auto
  moreover have "freewalk (Suc d) t es s = Ok () s2 es"
    using kthen_Ok [of "kfor [0..<512] (freewalk_entry (freewalk d) t)" es s "()" s1 es "kfree t", OF s1(1)] k(1)
    by (simp only: freewalk.simps)
  ultimately show ?case unfolding sp by blast
qed simp

section \<open>Freeing a page table and a user memory\<close>

lemma sub_pages_3: "sub_pages m root 3 = pt_pages m root"
proof -
  have "length q < 3 \<longleftrightarrow> length q \<le> 2" for q :: "nat list" by auto
  then show ?thesis by (simp add: sub_pages_def pt_pages_def)
qed

lemma leaf_slot:
  assumes "pt_node m root [i, j] = Some a" "k < 512"
  shows "vpte m root ((i * 512 + j) * 512 + k) = slot m a k" "(i * 512 + j) * 512 + k < 512 ^ 3"
proof -
  let ?n = "(i * 512 + j) * 512 + k"
  have ij: "i < 512" "j < 512" using assms(1) by (auto split: if_splits)
  have d1: "?n div 512 = i * 512 + j" using assms(2) by simp
  then have "?n div 512 div 512 = i" using ij(2) by simp
  then have "pt_path ?n = [i, j]" using d1 ij by (simp add: pt_path_def div_mult2_eq [symmetric])
  moreover show lt: "?n < 512 ^ 3" using ij assms(2) by simp
  moreover have "?n mod 512 = k" using assms(2) by (metis mod_less mod_mult_self3)
  ultimately show "vpte m root ?n = slot m a k" using assms(1) by (simp add: vpte_def)
qed

lemma sub_wf_3:
  assumes wf: "pt_wf e m root" and leaves: "\<And>n. n < 512 ^ 3 \<Longrightarrow> vpte m root n AND PTE_V = 0"
  shows "sub_wf e m root 3"
proof -
  have len: "length q < 3 \<longleftrightarrow> length q \<le> 2" for q :: "nat list" by auto
  have "Suc (length p) < 3 \<and> slot m a i AND (PTE_R OR PTE_W OR PTE_X) = 0"
    if p: "length p < 3" "pt_node m root p = Some a" "i < 512" "slot m a i AND PTE_V \<noteq> 0" for p a i
  proof -
    have "length p \<noteq> 2"
    proof
      assume "length p = 2"
      then obtain x y where "p = [x, y]" by (auto simp: numeral_2_eq_2 length_Suc_conv)
      then show False using leaf_slot [of m root x y a i] leaves p by metis
    qed
    then have "length p \<le> 1" using p(1) by simp
    then show ?thesis using wf p unfolding pt_wf_def pt_dirs_def by auto
  qed
  then show ?thesis using wf unfolding sub_wf_def sub_pages_3 pt_wf_def len by blast
qed

lemma freewalk_spec:
  assumes "vm_ok s xs root" "\<And>n. n < 512 ^ 3 \<Longrightarrow> vpte (mem s) root n AND PTE_V = 0"
  shows "\<exists>s'. freewalk 3 root es s = Ok () s' es \<and> freed s xs (pt_pages (mem s) root) (pt_pages (mem s) root) s'"
  using freewalk_sub [of s xs 3 root es] assms sub_wf_3 [of "kend s" "mem s" root]
  by (simp add: vm_ok_def sub_pages_3)

lemma uvmfree_spec:
  assumes ok: "uvm_ok s xs root D" and D: "{0..<npg sz} \<subseteq> D" and sz: "sz \<le> MAXVA"
    and rest: "\<And>n. n < 512 ^ 3 \<Longrightarrow> npg sz \<le> n \<Longrightarrow> vpte (mem s) root n AND PTE_V = 0"
  shows "\<exists>s'. uvmfree root sz es s = Ok () s' es \<and>
    freed s xs (pt_pages (mem s) root \<union> upages (mem s) root {0..<npg sz})
      (pt_pages (mem s) root \<union> upages (mem s) root {0..<npg sz}) s'"
proof -
  let ?U = "upages (mem s) root {0..<npg sz}"
  have "\<exists>s1 fs. (if sz > 0 then uvmunmap root 0 (PGROUNDUP sz div 4096) True else kret ()) es s = Ok () s1 es \<and>
    uvm_ok s1 (fs @ xs) root D \<and> set fs = ?U \<and>
    vpte (mem s1) root = clear_range 0 (npg sz) (vpte (mem s) root) \<and> vm_shrink s root s1 (set fs)"
  proof (cases "sz > 0")
    case False
    then have "sz = 0" by (simp add: word_gt_0)
    then show ?thesis using ok by (intro exI [of _ s] exI [of _ "[]"]) (simp add: npg_def)
  next
    case True
    have "unat (PGROUNDUP sz div 4096) = npg sz" using unat_PGROUNDUP_npg [OF sz] by (simp add: unat_div)
    then have e: "PGROUNDUP sz div 4096 = of_nat (npg sz)" by (metis of_nat_unat ucast_id)
    have "page_aligned 0" "page_no 0 = 0" by (simp_all add: page_aligned_def page_no_def)
    then show ?thesis
      using uvmunmap_free [OF ok, of 0 "npg sz" es] npg_MAXVA [OF sz] D True by (simp add: e)
  qed
  then obtain s1 fs where s1: "(if sz > 0 then uvmunmap root 0 (PGROUNDUP sz div 4096) True else kret ()) es s = Ok () s1 es"
    "uvm_ok s1 (fs @ xs) root D" "set fs = ?U"
    "vpte (mem s1) root = clear_range 0 (npg sz) (vpte (mem s) root)" "vm_shrink s root s1 (set fs)" by blast
  have "vpte (mem s1) root n AND PTE_V = 0" if "n < 512 ^ 3" for n
    unfolding s1(4) clear_range_def using rest [OF that] by auto
  from freewalk_spec [OF uvm_ok_vm [OF s1(2)] this, of es] obtain s2 where
    s2: "freewalk 3 root es s1 = Ok () s2 es" "freed s1 (fs @ xs) (pt_pages (mem s1) root) (pt_pages (mem s1) root) s2"
    by blast
  have pg: "pt_pages (mem s1) root = pt_pages (mem s) root" using s1(5) by (simp add: vm_shrink_def)
  obtain ys where ys: "kmem_ok s2 (ys @ fs @ xs)" "set ys = pt_pages (mem s) root"
    and fr: "mem_frame s1 (pt_pages (mem s) root) s2" using s2(2) pg by (auto simp: freed_def)
  have "mem_frame s (pt_pages (mem s) root \<union> ?U) s2"
    using mem_frame_trans [OF vm_shrink_frame [OF s1(5)] fr] s1(3) by (auto intro: mem_frame_mono)
  then have "freed s xs (pt_pages (mem s) root \<union> ?U) (pt_pages (mem s) root \<union> ?U) s2"
    unfolding freed_def using ys s1(3) by (intro conjI exI [of _ "ys @ fs"]) auto
  moreover have "uvmfree root sz es s = Ok () s2 es"
    unfolding uvmfree_def by (subst kthen_Ok, rule s1(1), rule s2(1))
  ultimately show ?thesis by blast
qed

end
