(* ===== verification/Xv6_Uvmcopy.thy ===== *)
theory Xv6_Uvmcopy
  imports Xv6_Uvmfree
begin

text \<open>
  Duplicating a user memory (\<open>uvmcopy\<close> of \<open>kernel/vm.c\<close>, the memory part of \<open>fork\<close>): each mapped
  page of the old page table gets a fresh page with the same contents and the same flags in
  the new one; on failure every page taken for the new one goes back. The old page table and
  its pages are never written.
\<close>

definition same_page :: "memory \<Rightarrow> addr \<Rightarrow> memory \<Rightarrow> addr \<Rightarrow> bool" where
  "same_page m' p m q \<longleftrightarrow> (\<forall>i < 4096. m' (p + of_nat i) = m (q + of_nat i))"

lemma unat_page_top:
  assumes "valid_page e p"
  shows "unat p + 4096 \<le> unat PHYSTOP"
proof -
  have "unat p < unat PHYSTOP" "4096 dvd unat p"
    using assms by (auto simp: valid_page_def page_aligned_def PGSIZE_def word_less_nat_alt)
  moreover have "(4096::nat) dvd unat PHYSTOP" by (simp add: PHYSTOP_eq)
  ultimately show ?thesis by (auto elim!: dvdE)
qed

lemma memmove_page:
  assumes p: "valid_page e p" and q: "valid_page e' q"
  shows "agree_outside {page_no p} m (memmove m p q 4096)" "same_page (memmove m p q 4096) p m q"
proof -
  have "unat q + 4096 < 2 ^ 64" "unat p + 4096 \<le> 2 ^ 64"
    using unat_page_top [OF p] unat_page_top [OF q] by (simp_all add: PHYSTOP_eq)
  then have eq: "memmove m p q 4096 = write_bytes m p (bytes_at m q 4096)"
    using memmove_write_bytes [of q 4096 p m] by simp
  note pp = valid_page_aligned [OF p]
  show "agree_outside {page_no p} m (memmove m p q 4096)"
    unfolding agree_outside_def eq write_bytes_def using in_page_iff [OF pp] by simp
  have "write_bytes m p (bytes_at m q 4096) (p + of_nat i) = m (q + of_nat i)" if "i < 4096" for i
    using that by (simp add: write_bytes_def unat_of_nat)
  then show "same_page (memmove m p q 4096) p m q" unfolding same_page_def eq by blast
qed

lemma same_page_trans: "same_page m' p m q \<Longrightarrow> same_page m'' p m' p \<Longrightarrow> same_page m'' p m q"
  by (simp add: same_page_def)

lemma same_page_frame:
  assumes "mem_frame s W s'" "page_aligned p" "p \<notin> W" "\<And>w. w \<in> W \<Longrightarrow> page_aligned w"
  shows "same_page (mem s') p (mem s) p"
  using mem_frame_page [OF assms] by (simp add: same_page_def)

text \<open>
  The old page table as the copy loop relies on it: well-formed, with user pages that the
  allocator handed out, and all its pages apart from the pages \<open>W\<close> that may be written.
\<close>

definition old_ok :: "'z kmem_scheme \<Rightarrow> addr \<Rightarrow> nat set \<Rightarrow> addr set \<Rightarrow> bool" where
  "old_ok s old A W \<longleftrightarrow> pt_wf (kend s) (mem s) old \<and>
     (\<forall>p \<in> upages (mem s) old A. valid_page (kend s) p) \<and>
     (pt_pages (mem s) old \<union> upages (mem s) old A) \<inter> W = {} \<and> (\<forall>w \<in> W. page_aligned w)"

lemma old_ok_frame:
  assumes ok: "old_ok s old A W" and fr: "mem_frame s W' s'" "W' \<subseteq> W"
  shows "old_ok s' old A W" "vpte (mem s') old = vpte (mem s) old"
    "p \<in> upages (mem s) old A \<Longrightarrow> same_page (mem s') p (mem s) p"
proof -
  have wf: "pt_wf (kend s) (mem s) old" and dis: "(pt_pages (mem s) old \<union> upages (mem s) old A) \<inter> W' = {}"
    and al: "\<And>w. w \<in> W' \<Longrightarrow> page_aligned w" using ok fr(2) by (auto simp: old_ok_def)
  have "page_no ` pt_pages (mem s) old \<inter> page_no ` W' = {}"
    using dis al pt_pages_page [OF wf] by (intro page_no_disjoint) auto
  note same = pt_agree [OF wf mem_frame_agree [OF fr(1)] this]
  show "vpte (mem s') old = vpte (mem s) old" by (rule same(3))
  show "old_ok s' old A W"
    using ok same upages_cong [OF same(3)] mem_frame_kend [OF fr(1)] by (simp add: old_ok_def)
  show "p \<in> upages (mem s) old A \<Longrightarrow> same_page (mem s') p (mem s) p"
    using ok dis al by (intro same_page_frame [OF fr(1)]) (auto simp: old_ok_def valid_page_aligned)
qed

lemma old_walk:
  assumes "kmem_ok s xs" "pt_wf (kend s) (mem s) old" "pt_pages (mem s) old \<inter> set xs = {}" "a < MAXVA"
  shows "\<exists>p. walk old a False es s = Ok p s es \<and>
    vpte (mem s) old (page_no a) = (if p = 0 then 0 else load64 (mem s) p)"
proof -
  have "vm_ok s xs old" using assms by (simp add: vm_ok_def)
  from walk_spec [OF this assms(4), of False es] obtain p where
    "walk old a False es s = Ok p s es" "walk_result s xs old (page_no a) False p" by blast
  then show ?thesis using walk_result_vpte [OF _ page_no_MAXVA [OF assms(4)]] by blast
qed

lemma PTE_FLAGS_less: "PTE_FLAGS v < 1024"
proof -
  have m: "(0x3FF :: uint64) = mask 10" by (simp add: mask_eq_exp_minus_1)
  have "take_bit 10 (PTE_FLAGS v) = PTE_FLAGS v"
    unfolding PTE_FLAGS_def m by (simp add: take_bit_eq_mask and.assoc)
  then show ?thesis using take_bit_self_iff [of 10 "PTE_FLAGS v"] by simp
qed

text \<open>One round of the loop of \<open>uvmcopy\<close>.\<close>

lemma uvmcopy_round:
  assumes new: "uvm_ok s xs new D" and i: "page_aligned i" "i < sz" "i < MAXVA"
    and old: "old_ok s old A (pt_pages (mem s) new \<union> set xs)" and n: "page_no i \<in> A"
    and zero: "vpte (mem s) new (page_no i) = 0"
  defines "v \<equiv> vpte (mem s) old (page_no i)"
  shows "v AND PTE_V = 0 \<and> uvmcopy_loop old new i sz es s = uvmcopy_loop old new (i + 4096) sz es s \<or>
    (\<exists>t ys. uvmcopy_loop old new i sz es s = kthen (uvmunmap new 0 (i div 4096) True) (kret (- 1)) es t \<and>
      uvm_ok t ys new D \<and> vpte (mem t) new = vpte (mem s) new \<and>
      pt_pages (mem t) new \<union> set ys = pt_pages (mem s) new \<union> set xs \<and>
      mem_frame s (pt_pages (mem s) new \<union> set xs) t) \<or>
    (\<exists>p ps t ys. v AND PTE_V \<noteq> 0 \<and> xs = p # ps \<and> uvm_ok t ys new D \<and> set ys \<subseteq> set ps \<and>
      same_page (mem t) p (mem s) (PTE2PA v) \<and>
      uvmcopy_loop old new i sz es s = uvmcopy_loop old new (i + 4096) sz es t \<and>
      vpte (mem t) new = (vpte (mem s) new)(page_no i := PA2PTE p OR PTE_FLAGS v OR PTE_V) \<and>
      upage (mem t) new = (upage (mem s) new)(page_no i := Some p) \<and>
      pt_pages (mem t) new \<union> set ys = pt_pages (mem s) new \<union> set ps \<and>
      mem_frame s (pt_pages (mem s) new \<union> set xs) t)"
proof -
  have vm: "vm_ok s xs new" using new by (rule uvm_ok_vm)
  have "kmem_ok s xs" "pt_wf (kend s) (mem s) old" "pt_pages (mem s) old \<inter> set xs = {}"
    using vm old by (auto simp: vm_ok_def old_ok_def)
  from old_walk [OF this i(3), of es] obtain q where
    w: "walk old i False es s = Ok q s es" "v = (if q = 0 then 0 else load64 (mem s) q)"
    unfolding v_def by blast
  show ?thesis
  proof (cases "v AND PTE_V = 0")
    case True
    then have "uvmcopy_loop old new i sz es s = uvmcopy_loop old new (i + 4096) sz es s"
      using w i(2) by (subst uvmcopy_loop.simps) (cases "q = 0"; simp)
    then show ?thesis using True by blast
  next
    case v: False
    then have q: "q \<noteq> 0" "load64 (mem s) q = v" using w(2) by (auto split: if_splits)
    show ?thesis
    proof (cases xs)
      case Nil
      have "kalloc es s = Ok 0 s es" using vm Nil by (simp add: vm_ok_def kalloc_empty)
      then have "uvmcopy_loop old new i sz es s = kthen (uvmunmap new 0 (i div 4096) True) (kret (- 1)) es s"
        using w(1) q v i(2) by (subst uvmcopy_loop.simps) simp
      then show ?thesis using new by (intro disjI2 disjI1 exI [of _ s] exI [of _ xs]) simp
    next
      case (Cons p ps)
      then have uvm: "uvm_ok s (p # ps) new D" and kp: "kmem_ok s (p # ps)" using new vm by (auto simp: vm_ok_def)
      then have vp: "valid_page (kend s) p" "p \<noteq> 0" by (auto simp: kmem_ok_def)
      have "PTE2PA v \<in> upages (mem s) old A"
        using n v unfolding v_def by (auto simp: upages_def upage_def)
      then have vq: "valid_page (kend s) (PTE2PA v)" and qp: "PTE2PA v \<noteq> p"
        using old Cons by (auto simp: old_ok_def)
      let ?m0 = "memset (mem s) p 5 4096" let ?m1 = "memmove ?m0 p (PTE2PA v) 4096"
      let ?s1 = "s\<lparr>mem := ?m1, freelist := load64 (mem s) p\<rparr>" and ?perm = "PTE_FLAGS v"
      note pp = valid_page_aligned [OF vp(1)]
      have ag0: "agree_outside {page_no p} (mem s) ?m0" by (rule agree_outside_memset [OF pp]) simp
      have fill: "agree_outside {page_no p} (mem s) ?m1"
        using agree_outside_trans [OF ag0 memmove_page(1) [OF vp(1) vq]] by simp
      have "mem_frame s {p} (s\<lparr>mem := ?m0\<rparr>)" using ag0 by (simp add: mem_frame_def)
      from same_page_frame [OF this valid_page_aligned [OF vq]] qp pp
      have same: "same_page ?m1 p (mem s) (PTE2PA v)"
        using memmove_page(2) [OF vp(1) vq, of ?m0] by (simp add: same_page_def)
      have kal: "kalloc es s = Ok p (s\<lparr>mem := ?m0, freelist := load64 (mem s) p\<rparr>) es"
        using kalloc_effect [OF kp, of es] by blast
      note tk = uvm_take [OF uvm fill]
      have "vpte (mem ?s1) new (page_no i) AND PTE_V = 0" using tk(2) zero by simp
      with uvm_ok_vm [OF tk(1)] i(1,3) show ?thesis
      proof (rule mappages_page [where pa = p and perm = ?perm and es = es])
        fix t ys
        assume m: "mappages new i 4096 p ?perm es ?s1 = Ok 0 t es" and st: "vm_step ?s1 ps new t ys"
          "vpte (mem t) new = (vpte (mem ?s1) new)(page_no i := PA2PTE p OR ?perm OR PTE_V)"
        note f = map_fresh_ok [OF uvm fill PTE_FLAGS_less zero st]
        have "same_page (mem t) p (mem ?s1) p"
          by (rule same_page_frame [OF f(6) pp]) (use tk(5) vm_ok_pages [OF uvm_ok_vm [OF uvm]] in auto)
        then have "same_page (mem t) p (mem s) (PTE2PA v)" using same by (simp add: same_page_def)
        moreover have "uvmcopy_loop old new i sz es s = uvmcopy_loop old new (i + 4096) sz es t"
          using w(1) q v i(2) kal vp(2) m by (subst uvmcopy_loop.simps) simp
        ultimately show ?thesis using f Cons v by auto
      next
        fix t assume m: "mappages new i 4096 p ?perm es ?s1 = Ok (- 1) t es" and st: "vm_grow ?s1 ps new t []"
        from map_fresh_fail [OF uvm fill st, of es] obtain t' where f: "kfree p es t = Ok () t' es"
          "uvm_ok t' [p] new D" "vpte (mem t') new = vpte (mem s) new"
          "pt_pages (mem t') new \<union> {p} = pt_pages (mem s) new \<union> set (p # ps)"
          "mem_frame s (pt_pages (mem s) new \<union> set (p # ps)) t'" by blast
        have "uvmcopy_loop old new i sz es s = kthen (uvmunmap new 0 (i div 4096) True) (kret (- 1)) es t'"
          using w(1) q v i(2) kal vp(2) m f(1) by (subst uvmcopy_loop.simps) simp
        then show ?thesis using f Cons by (intro disjI2 disjI1 exI [of _ t'] exI [of _ "[p]"]) simp
      qed
    qed
  qed
qed

text \<open>The result of a copy of the page numbers in \<open>A\<close>.\<close>

definition uvm_copied ::
  "'z kmem_scheme \<Rightarrow> addr list \<Rightarrow> addr \<Rightarrow> addr \<Rightarrow> nat set \<Rightarrow> 'z kmem_scheme \<Rightarrow> addr list \<Rightarrow> bool"
where
  "uvm_copied s xs old new A s' xs' \<longleftrightarrow>
     mem_frame s (pt_pages (mem s) new \<union> set xs) s' \<and>
     pt_pages (mem s') new \<union> set xs' \<union> upages (mem s') new A = pt_pages (mem s) new \<union> set xs \<and>
     (\<forall>i. i \<notin> A \<or> vpte (mem s) old i AND PTE_V = 0 \<longrightarrow> vpte (mem s') new i = vpte (mem s) new i) \<and>
     (\<forall>i \<in> A. vpte (mem s) old i AND PTE_V \<noteq> 0 \<longrightarrow> (\<exists>p \<in> set xs.
        vpte (mem s') new i = PA2PTE p OR PTE_FLAGS (vpte (mem s) old i) OR PTE_V \<and>
        same_page (mem s') p (mem s) (PTE2PA (vpte (mem s) old i))))"

lemma uvm_copied_skip:
  assumes "uvm_copied s xs old new A s' xs'" "vpte (mem s) old n AND PTE_V = 0" "vpte (mem s) new n = 0" "n \<notin> A"
  shows "uvm_copied s xs old new (insert n A) s' xs'"
proof -
  have "vpte (mem s') new n = 0" using assms unfolding uvm_copied_def by simp
  then have "upages (mem s') new (insert n A) = upages (mem s') new A" by (auto simp: upages_def upage_def)
  then show ?thesis using assms unfolding uvm_copied_def by auto
qed

lemma uvm_copied_step:
  assumes uvm: "uvm_ok s (p # ps) new D" and n: "n \<notin> A" "vpte (mem s) old n AND PTE_V \<noteq> 0"
    and old: "old_ok s old B W" "insert n A \<subseteq> B" "pt_pages (mem s) new \<union> set (p # ps) \<subseteq> W"
    and v: "vpte (mem t) new = (vpte (mem s) new)(n := PA2PTE p OR PTE_FLAGS (vpte (mem s) old n) OR PTE_V)"
    and up: "upage (mem t) new = (upage (mem s) new)(n := Some p)"
    and pg: "pt_pages (mem t) new \<union> set ys = pt_pages (mem s) new \<union> set ps" "set ys \<subseteq> set ps"
    and fr: "mem_frame s (pt_pages (mem s) new \<union> set (p # ps)) t"
    and same: "same_page (mem t) p (mem s) (PTE2PA (vpte (mem s) old n))"
    and c: "uvm_copied t ys old new A s' xs'"
  shows "uvm_copied s (p # ps) old new (insert n A) s' xs'"
proof -
  have vm: "vm_ok s (p # ps) new" using uvm by (rule uvm_ok_vm)
  have p: "p \<notin> pt_pages (mem s) new \<union> set ps" "page_aligned p"
    using vm vm_ok_pages [OF vm, of p] by (auto simp: vm_ok_def kmem_ok_def)
  note of = old_ok_frame [OF old(1) fr old(3)]
  have fr1: "mem_frame t (pt_pages (mem s) new \<union> set ps) s'" using c pg by (simp add: uvm_copied_def)
  have "same_page (mem s') p (mem t) p"
    by (rule same_page_frame [OF fr1 p(2,1)]) (use vm_ok_pages [OF vm] in auto)
  then have pn: "same_page (mem s') p (mem s) (PTE2PA (vpte (mem s) old n))"
    using same by (simp add: same_page_def)
  have vn: "vpte (mem s') new n = PA2PTE p OR PTE_FLAGS (vpte (mem s) old n) OR PTE_V"
    using c n v unfolding uvm_copied_def by simp
  have "upage (mem s') new n = upage (mem t) new n" using vn v by (simp add: upage_def)
  then have ups: "upages (mem s') new (insert n A) = insert p (upages (mem s') new A)"
    using up by (auto simp: upages_def)
  have "mem_frame s (pt_pages (mem s) new \<union> set (p # ps)) s'"
    using mem_frame_trans [OF fr fr1] by (rule mem_frame_mono) auto
  moreover have "\<exists>q \<in> set (p # ps). vpte (mem s') new i = PA2PTE q OR PTE_FLAGS (vpte (mem s) old i) OR PTE_V \<and>
      same_page (mem s') q (mem s) (PTE2PA (vpte (mem s) old i))"
    if i: "i \<in> A" "vpte (mem s) old i AND PTE_V \<noteq> 0" for i
  proof -
    have "PTE2PA (vpte (mem s) old i) \<in> upages (mem s) old B"
      using i old(2) by (auto simp: upages_def upage_def)
    note of(3) [OF this]
    moreover from c i of(2) obtain q where "q \<in> set ys"
      "vpte (mem s') new i = PA2PTE q OR PTE_FLAGS (vpte (mem s) old i) OR PTE_V"
      "same_page (mem s') q (mem t) (PTE2PA (vpte (mem s) old i))" unfolding uvm_copied_def by auto
    ultimately show ?thesis using pg(2) by (auto simp: same_page_def)
  qed
  moreover have "vpte (mem s') new i = vpte (mem s) new i"
    if "i \<notin> insert n A \<or> vpte (mem s) old i AND PTE_V = 0" for i
    using c that n v of(2) unfolding uvm_copied_def by auto
  moreover have "pt_pages (mem s') new \<union> set xs' \<union> upages (mem s') new (insert n A) = pt_pages (mem s) new \<union> set (p # ps)"
    using c pg(1) ups unfolding uvm_copied_def by auto
  ultimately show ?thesis unfolding uvm_copied_def using pn vn by auto
qed

lemma uvmcopy_fail:
  assumes t: "uvm_ok t ys new D" and i: "page_aligned i" "i < MAXVA" and D: "{0..<page_no i} \<subseteq> D"
    and fr: "mem_frame s (pt_pages (mem s) new \<union> set xs) t" and v: "vpte (mem t) new = vpte (mem s) new"
    and pg: "pt_pages (mem t) new \<union> set ys = pt_pages (mem s) new \<union> set xs"
  shows "\<exists>s' xs'. uvmunmap new 0 (i div 4096) True es t = Ok () s' es \<and> uvm_ok s' xs' new D \<and>
    uvm_undone s xs new 0 (page_no i) s' xs'"
proof -
  have z: "page_aligned 0" "page_no 0 = 0" by (simp_all add: page_aligned_def page_no_def)
  have "unat (i div 4096) = page_no i" by (simp add: unat_div page_no_def PGSIZE_def)
  then have e: "i div 4096 = of_nat (page_no i)" by (metis of_nat_unat ucast_id)
  have "unat (0::uint64) + 4096 * page_no i \<le> unat MAXVA"
    using i by (simp add: page_aligned_unique [symmetric] word_less_nat_alt)
  from uvmunmap_free [OF t z(1) this, of es] D z(2) obtain s' fs where
    u: "uvmunmap new 0 (i div 4096) True es t = Ok () s' es" "uvm_ok s' (fs @ ys) new D"
      "set fs = upages (mem t) new {0..<page_no i}"
      "vpte (mem s') new = clear_range 0 (page_no i) (vpte (mem t) new)" "vm_shrink t new s' (set fs)"
    unfolding e by auto
  have fs: "set fs = upages (mem s) new {0..<page_no i}" using u(3) upages_cong [OF v] by simp
  have "pt_pages (mem s') new = pt_pages (mem t) new" using u(5) by (simp add: vm_shrink_def)
  then have "pt_pages (mem s') new \<union> set (fs @ ys) = pt_pages (mem s) new \<union> set xs \<union> upages (mem s) new {0..<page_no i}"
    using pg fs by auto
  moreover have "mem_frame s (pt_pages (mem s) new \<union> set xs \<union> upages (mem s) new {0..<page_no i}) s'"
    using mem_frame_trans [OF fr vm_shrink_frame [OF u(5)]] pg fs by (auto intro: mem_frame_mono)
  ultimately have "uvm_undone s xs new 0 (page_no i) s' (fs @ ys)"
    using u(4) v by (simp add: uvm_undone_def)
  then show ?thesis using u(1,2) by blast
qed

lemma upages_skip:
  assumes "vpte m root n = 0"
  shows "upages m root {0..<Suc n} = upages m root {0..<n}"
proof -
  have "{0..<Suc n} = insert n {0..<n}" "upage m root n = None" using assms by (auto simp: upage_def)
  then show ?thesis by (auto simp: upages_def)
qed

lemma uvm_undone_skip:
  assumes "uvm_undone s xs new 0 (Suc n) s' xs'" "vpte (mem s) new n = 0"
  shows "uvm_undone s xs new 0 n s' xs'"
proof -
  have "clear_range 0 (Suc n) (vpte (mem s) new) = clear_range 0 n (vpte (mem s) new)"
    using assms(2) by (auto simp: clear_range_def fun_eq_iff less_Suc_eq)
  then show ?thesis using assms(1) upages_skip [of "mem s" new n, OF assms(2)] by (simp add: uvm_undone_def)
qed

lemma upages_upto_Suc:
  assumes "upage (mem t) new = (upage (mem s) new)(n := Some p)"
  shows "upages (mem t) new {0..<Suc n} = insert p (upages (mem s) new {0..<n})"
proof -
  have "{0..<Suc n} = insert n {0..<n}" by auto
  then show ?thesis using assms by (auto simp: upages_def)
qed

lemma uvmcopy_loop_spec:
  assumes "uvm_ok s xs new D" "page_aligned i" "sz \<le> MAXVA" "npg sz = page_no i + k" "{0..<npg sz} \<subseteq> D"
    and "old_ok s old {0..<npg sz} (pt_pages (mem s) new \<union> set xs \<union> upages (mem s) new {0..<page_no i})"
    and "\<And>j. page_no i \<le> j \<Longrightarrow> j < npg sz \<Longrightarrow> vpte (mem s) new j = 0"
  shows "\<exists>r s' xs'. uvmcopy_loop old new i sz es s = Ok r s' es \<and> uvm_ok s' xs' new D \<and>
    (r = 0 \<and> uvm_copied s xs old new {page_no i..<npg sz} s' xs' \<or>
     r = - 1 \<and> uvm_undone s xs new 0 (page_no i) s' xs')"
  using assms
proof (induction k arbitrary: s xs i)
  case (0 s xs i)
  have "\<not> i < sz" using page_less_npg [OF 0(2)] 0(4) by simp
  then have "uvmcopy_loop old new i sz es s = Ok 0 s es" by (subst uvmcopy_loop.simps) simp
  then show ?case using 0(1,4) by (auto simp: uvm_copied_def)
next
  case (Suc k s xs i)
  let ?n = "page_no i" and ?W = "pt_pages (mem s) new \<union> set xs \<union> upages (mem s) new {0..<page_no i}"
  let ?v = "vpte (mem s) old ?n"
  have i: "i < sz" "i < MAXVA" using page_less_npg [OF Suc.prems(2), of sz] Suc.prems(3,4) by auto
  note nx = page_no_step [OF i(2) Suc.prems(2)]
  have D: "{0..<?n} \<subseteq> D" and nA: "?n \<in> {0..<npg sz}" using Suc.prems(4,5) by auto
  have zero: "vpte (mem s) new ?n = 0" using Suc.prems(7) [of ?n] Suc.prems(4) by simp
  have k': "npg sz = page_no (i + 4096) + k" using nx(1) Suc.prems(4) by simp
  have rg: "{?n..<npg sz} = insert ?n {Suc ?n..<npg sz}" using Suc.prems(4) by auto
  have old: "old_ok s old {0..<npg sz} (pt_pages (mem s) new \<union> set xs)"
    using Suc.prems(6) by (auto simp: old_ok_def)
  from uvmcopy_round [OF Suc.prems(1,2) i old nA zero, of es]
  consider (skip) "?v AND PTE_V = 0" "uvmcopy_loop old new i sz es s = uvmcopy_loop old new (i + 4096) sz es s"
    | (fail) t ys where "uvmcopy_loop old new i sz es s = kthen (uvmunmap new 0 (i div 4096) True) (kret (- 1)) es t"
      "uvm_ok t ys new D" "vpte (mem t) new = vpte (mem s) new"
      "pt_pages (mem t) new \<union> set ys = pt_pages (mem s) new \<union> set xs"
      "mem_frame s (pt_pages (mem s) new \<union> set xs) t"
    | (step) p ps t ys where "?v AND PTE_V \<noteq> 0" "xs = p # ps" "uvm_ok t ys new D" "set ys \<subseteq> set ps"
      "same_page (mem t) p (mem s) (PTE2PA ?v)"
      "uvmcopy_loop old new i sz es s = uvmcopy_loop old new (i + 4096) sz es t"
      "vpte (mem t) new = (vpte (mem s) new)(?n := PA2PTE p OR PTE_FLAGS ?v OR PTE_V)"
      "upage (mem t) new = (upage (mem s) new)(?n := Some p)"
      "pt_pages (mem t) new \<union> set ys = pt_pages (mem s) new \<union> set ps"
      "mem_frame s (pt_pages (mem s) new \<union> set xs) t"
    by blast
  then show ?case
  proof cases
    case skip
    have o: "old_ok s old {0..<npg sz} (pt_pages (mem s) new \<union> set xs \<union> upages (mem s) new {0..<page_no (i + 4096)})"
      using Suc.prems(6) nx(1) upages_skip [of "mem s" new ?n, OF zero] by simp
    have z: "vpte (mem s) new j = 0" if "page_no (i + 4096) \<le> j" "j < npg sz" for j
      using that nx(1) Suc.prems(7) [of j] by simp
    from Suc.IH [OF Suc.prems(1) nx(2) Suc.prems(3) k' Suc.prems(5) o z] obtain r s' xs' where
      IH: "uvmcopy_loop old new (i + 4096) sz es s = Ok r s' es" "uvm_ok s' xs' new D"
        "r = 0 \<and> uvm_copied s xs old new {Suc ?n..<npg sz} s' xs' \<or> r = - 1 \<and> uvm_undone s xs new 0 (Suc ?n) s' xs'"
      unfolding nx(1) by blast
    then show ?thesis
      unfolding rg skip(2) using uvm_copied_skip [OF _ skip(1) zero] uvm_undone_skip [OF _ zero] by fastforce
  next
    case fail
    from uvmcopy_fail [OF fail(2) Suc.prems(2) i(2) D fail(5,3,4), of es]
    show ?thesis using fail(1) by auto
  next
    case step
    have W: "pt_pages (mem t) new \<union> set ys \<union> upages (mem t) new {0..<page_no (i + 4096)} = ?W"
      unfolding nx(1) upages_upto_Suc [OF step(8)] step(9) step(2) by auto
    have o: "old_ok t old {0..<npg sz} (pt_pages (mem t) new \<union> set ys \<union> upages (mem t) new {0..<page_no (i + 4096)})"
      unfolding W by (rule old_ok_frame(1) [OF Suc.prems(6) step(10)]) auto
    have z: "vpte (mem t) new j = 0" if "page_no (i + 4096) \<le> j" "j < npg sz" for j
      using that nx(1) step(7) Suc.prems(7) [of j] by simp
    from Suc.IH [OF step(3) nx(2) Suc.prems(3) k' Suc.prems(5) o z] obtain r s' xs' where
      IH: "uvmcopy_loop old new (i + 4096) sz es t = Ok r s' es" "uvm_ok s' xs' new D"
        "r = 0 \<and> uvm_copied t ys old new {Suc ?n..<npg sz} s' xs' \<or> r = - 1 \<and> uvm_undone t ys new 0 (Suc ?n) s' xs'"
      unfolding nx(1) by blast
    have "uvm_copied t ys old new {Suc ?n..<npg sz} s' xs' \<Longrightarrow> uvm_copied s xs old new {?n..<npg sz} s' xs'"
      unfolding rg step(2)
      by (rule uvm_copied_step [OF Suc.prems(1) [unfolded step(2)] _ step(1) Suc.prems(6) _ _ step(7,8,9,4)
            step(10) [unfolded step(2)] step(5)]) (use Suc.prems(4) step(2) in auto)
    moreover have "uvm_undone t ys new 0 (Suc ?n) s' xs' \<Longrightarrow> uvm_undone s xs new 0 ?n s' xs'"
      unfolding step(2)
      by (rule uvm_undone_step [OF step(7) pte_valid_leaf zero _ step(8,9) step(10) [unfolded step(2)]]) auto
    ultimately show ?thesis using IH step(6) by auto
  qed
qed

end
