(* ===== verification/Xv6_Uvm_Correct.thy ===== *)
theory Xv6_Uvm_Correct
  imports Xv6_Uvmcopy
begin

text \<open>
  The properties of the page-table routines of \<open>kernel/vm.c\<close> that the rest of the kernel relies
  on, each with a concrete state to which it applies.
\<close>

text \<open>
  A small concrete state: memory is zero, one page holds an empty page table, another page is
  free.
\<close>

definition small_root :: addr where "small_root = PHYSTOP - 4096"
definition small_free :: addr where "small_free = PHYSTOP - 8192"

definition small_vm :: kmem where
  "small_vm = \<lparr>held = [], kout = [], mem = (\<lambda>_. 0), freelist = small_free, kend = KERNBASE\<rparr>"

lemma load64_zero: "load64 (\<lambda>_. 0) a = 0"
  by (simp add: load64_def eval_nat_numeral)

lemma pt_node_zero: "pt_node (\<lambda>_. 0) t p = (if p = [] then Some t else None)"
  by (cases p) (simp_all add: slot_def load64_zero)

lemma vpte_zero [simp]: "vpte (\<lambda>_. 0) root n = 0"
  by (simp add: vpte_def pt_node_zero pt_path_def)

lemma upages_zero [simp]: "upages (\<lambda>_. 0) root A = {}"
  by (simp add: upages_def upage_def)

lemma pt_pages_zero [simp]: "pt_pages (\<lambda>_. 0) root = {root}"
  by (auto simp: pt_pages_def pt_node_zero split: if_splits intro: exI [of _ "[]"])

lemma pt_wf_zero: "valid_page e root \<Longrightarrow> pt_wf e (\<lambda>_. 0) root"
  by (auto simp: pt_wf_def pt_dirs_def pt_node_zero slot_def load64_zero split: if_splits)

lemma small_valid:
  "valid_page KERNBASE small_root" "valid_page KERNBASE small_free" "small_root \<noteq> small_free"
  by (simp_all add: valid_page_def small_root_def small_free_def page_aligned_def PGSIZE_def PHYSTOP_eq KERNBASE_def)

lemma small_kmem_ok: "kmem_ok small_vm [small_free]"
  using small_valid(2) by (simp add: kmem_ok_def small_vm_def load64_zero valid_page_def)

lemma small_uvm_ok: "uvm_ok small_vm [small_free] small_root D"
  using small_kmem_ok small_valid pt_wf_zero [of KERNBASE small_root]
  by (simp add: uvm_ok_def vm_ok_def small_vm_def upage_def)

text \<open>
  C8: On a well-formed page table, \<open>mappages\<close> over an unmapped, page-aligned range sets exactly the
  entries of the range, to consecutive physical pages with the given permissions, and returns
  0; if a page-table page is needed and none is left it returns -1 with only a prefix of the
  range mapped. Either way the page table stays well-formed, all other entries keep their
  value, every page taken from the allocator becomes a page of the table, and no other memory
  is written.
\<close>

theorem mappages_correct:
  assumes "vm_ok s xs root" "page_aligned va" "unat sz = 4096 * Suc k" "unat va + unat sz \<le> unat MAXVA"
    and "\<forall>i \<le> k. vpte (mem s) root (page_no va + i) AND PTE_V = 0"
  shows "\<exists>r s' xs' j. mappages root va sz pa perm es s = Ok r s' es \<and>
    (r = 0 \<and> j = Suc k \<or> r = - 1 \<and> j \<le> k \<and> xs' = []) \<and>
    vpte (mem s') root = map_range (page_no va) j pa perm (vpte (mem s) root) \<and>
    vm_ok s' xs' root \<and> pt_pages (mem s') root \<union> set xs' = pt_pages (mem s) root \<union> set xs \<and>
    mem_frame s (pt_pages (mem s) root \<union> set xs) s'"
proof -
  have sz: "sz = 4096 + 4096 * of_nat k"
  proof -
    have "sz = of_nat (unat sz)" by simp
    also have "\<dots> = of_nat (4096 * Suc k)" by (simp only: assms(3))
    finally show ?thesis by simp
  qed
  have "sz \<noteq> 0" using assms(3) by auto
  then have "mappages root va sz pa perm es s = mappages_loop root va (va + 4096 * of_nat k) pa perm es s"
    using assms(2,3) sz by (simp add: mappages_def page_aligned_def PGSIZE_def)
  moreover obtain r s' xs' j where "mappages_loop root va (va + 4096 * of_nat k) pa perm es s = Ok r s' es"
    and st: "vm_step s xs root s' xs'"
    and "vpte (mem s') root = map_range (page_no va) j pa perm (vpte (mem s) root)"
      "r = 0 \<and> j = Suc k \<or> r = - 1 \<and> j \<le> k \<and> xs' = []"
    using mappages_loop_spec [OF assms(1,2), of k pa perm es] assms(3,4,5) by auto
  moreover have "vm_ok s' xs' root" "pt_pages (mem s') root \<union> set xs' = pt_pages (mem s) root \<union> set xs"
    using st by (simp_all add: vm_step_def)
  ultimately show ?thesis using vm_step_frame [OF st]
    by (intro exI [of _ r] exI [of _ s'] exI [of _ xs'] exI [of _ j]) simp
qed

theorem mappages_correct_witness:
  "\<exists>r s' xs' j. mappages small_root 0x5000 8192 0x80001000 (PTE_R OR PTE_X) [] small_vm = Ok r s' [] \<and>
    (r = 0 \<and> j = Suc 1 \<or> r = - 1 \<and> j \<le> 1 \<and> xs' = []) \<and>
    vpte (mem s') small_root = map_range 5 j 0x80001000 (PTE_R OR PTE_X) (\<lambda>_. 0) \<and>
    vm_ok s' xs' small_root"
proof -
  have v: "vpte (mem small_vm) small_root = (\<lambda>_. 0)" by (rule ext) (simp add: small_vm_def)
  have p: "page_no 0x5000 = 5" by (simp add: page_no_def PGSIZE_def)
  have "page_aligned 0x5000" "unat (0x5000 :: uint64) + unat (8192 :: uint64) \<le> unat MAXVA"
    by (simp_all add: page_aligned_def PGSIZE_def MAXVA_eq)
  then have "\<exists>r s' xs' j. mappages small_root 0x5000 8192 0x80001000 (PTE_R OR PTE_X) [] small_vm = Ok r s' [] \<and>
    (r = 0 \<and> j = Suc 1 \<or> r = - 1 \<and> j \<le> 1 \<and> xs' = []) \<and>
    vpte (mem s') small_root = map_range (page_no 0x5000) j 0x80001000 (PTE_R OR PTE_X) (vpte (mem small_vm) small_root) \<and>
    vm_ok s' xs' small_root \<and>
    pt_pages (mem s') small_root \<union> set xs' = pt_pages (mem small_vm) small_root \<union> set [small_free] \<and>
    mem_frame small_vm (pt_pages (mem small_vm) small_root \<union> set [small_free]) s'"
    by (intro mappages_correct [OF uvm_ok_vm [OF small_uvm_ok]]) (simp_all add: v)
  then show ?thesis unfolding v p by blast
qed

text \<open>
  C9: Growing a user memory. \<open>uvmalloc\<close> either returns the new size, with each page number of the
  growth mapped user-readable with the requested permissions to a page that was free and is
  now zero; or it returns 0, and then the page table has the entries it had before and no
  page is lost. In both cases the other entries, the pages they map and all memory outside
  the page table and the free list are untouched, and no page is mapped twice or both mapped
  and free.
\<close>

theorem uvmalloc_correct:
  assumes "uvm_ok s xs root D" "oldsz \<le> newsz" "newsz \<le> MAXVA" "xperm < 1024"
    and "{npg oldsz..<npg newsz} \<subseteq> D" "\<forall>i \<in> {npg oldsz..<npg newsz}. vpte (mem s) root i = 0"
  shows "\<exists>r s' xs'. uvmalloc root oldsz newsz xperm es s = Ok r s' es \<and> uvm_ok s' xs' root D \<and>
    (r = newsz \<and> uvm_grown s xs root {npg oldsz..<npg newsz} (PTE_R OR PTE_U OR xperm) s' xs' \<or>
     r = 0 \<and> vpte (mem s') root = vpte (mem s) root \<and>
       pt_pages (mem s') root \<union> set xs' = pt_pages (mem s) root \<union> set xs \<and>
       mem_frame s (pt_pages (mem s) root \<union> set xs) s')"
proof -
  have old: "oldsz \<le> MAXVA" using assms(2,3) by simp
  note pn = page_no_PGROUNDUP [OF old]
  have perm: "PTE_R OR PTE_U OR xperm < 1024"
    using assms(4) by (intro or_less_1024) (simp_all add: PTE_R_def PTE_U_def)
  have "npg newsz = page_no (PGROUNDUP oldsz) + (npg newsz - npg oldsz)"
    using npg_mono [OF assms(2)] pn by simp
  from uvmalloc_loop_spec [OF assms(1) PGROUNDUP_aligned PGROUNDUP_aligned order_refl assms(3) this _ perm, of es]
    assms(5,6) pn
  have "\<exists>r s' xs'. uvmalloc_loop root (PGROUNDUP oldsz) (PGROUNDUP oldsz) newsz xperm es s = Ok r s' es \<and>
      uvm_ok s' xs' root D \<and>
      (r = newsz \<and> uvm_grown s xs root {npg oldsz..<npg newsz} (PTE_R OR PTE_U OR xperm) s' xs' \<or>
       r = 0 \<and> uvm_undone s xs root (npg oldsz) (npg oldsz) s' xs')" by simp
  moreover have "uvmalloc root oldsz newsz xperm es s =
      uvmalloc_loop root (PGROUNDUP oldsz) (PGROUNDUP oldsz) newsz xperm es s"
    using assms(2) by (simp add: uvmalloc_def not_less)
  ultimately show ?thesis by (simp add: uvm_undone_def)
qed

theorem uvmalloc_correct_witness:
  "\<exists>r s' xs'. uvmalloc small_root 0 5000 PTE_W [] small_vm = Ok r s' [] \<and> uvm_ok s' xs' small_root UNIV \<and>
    (r = 5000 \<and> uvm_grown small_vm [small_free] small_root {0..<2} (PTE_R OR PTE_U OR PTE_W) s' xs' \<or>
     r = 0 \<and> vpte (mem s') small_root = vpte (mem small_vm) small_root)"
proof -
  have n: "npg 0 = 0" "npg 5000 = 2" by (simp_all add: npg_def)
  have "\<forall>i \<in> {npg 0..<npg 5000}. vpte (mem small_vm) small_root i = 0" by (simp add: small_vm_def)
  moreover have "(0 :: uint64) \<le> 5000" "(5000 :: uint64) \<le> MAXVA" "PTE_W < 1024"
    by (simp_all add: MAXVA_eq PTE_W_def)
  ultimately show ?thesis
    using uvmalloc_correct [OF small_uvm_ok, of 0 5000 PTE_W UNIV "[]"] unfolding n by blast
qed

section \<open>The life of a user memory\<close>

lemma pt_node_zero_page:
  assumes "\<And>i. i < 512 \<Longrightarrow> slot m t i = 0"
  shows "pt_node m t p = (if p = [] then Some t else None)"
  using assms by (cases p) auto

lemma uvmcreate_spec:
  assumes "kmem_ok s (p # ps)"
  shows "\<exists>s'. uvmcreate es s = Ok p s' es \<and> uvm_ok s' ps p D \<and> vpte (mem s') p = (\<lambda>_. 0) \<and>
    pt_pages (mem s') p = {p} \<and> mem_frame s {p} s' \<and> upages (mem s') p D = {}"
proof -
  let ?m1 = "memset (memset (mem s) p 5 4096) p 0 4096"
  let ?s1 = "s\<lparr>mem := ?m1, freelist := load64 (mem s) p\<rparr>"
  have v: "valid_page (kend s) p" "p \<notin> set ps" "p \<noteq> 0" using assms by (auto simp: kmem_ok_def)
  note pp = valid_page_aligned [OF v(1)]
  have fill: "agree_outside {page_no p} (mem s) ?m1"
    using agree_outside_trans [OF agree_outside_memset agree_outside_memset, OF pp _ pp] by simp
  have fr: "mem_frame s {p} ?s1" using fill by (simp add: mem_frame_def)
  have z: "slot ?m1 p i = 0" if "i < 512" for i using slot_memset_0 [OF pp that] .
  have node: "pt_node ?m1 p q = (if q = [] then Some p else None)" for q
    by (rule pt_node_zero_page) (rule z)
  have pg: "pt_pages ?m1 p = {p}"
    by (auto simp: pt_pages_def node split: if_splits intro: exI [of _ "[]"])
  have vp: "vpte ?m1 p = (\<lambda>_. 0)" unfolding vpte_def node by (auto simp: pt_path_def)
  have wf: "pt_wf (kend s) ?m1 p"
    using v z by (auto simp: pt_wf_def pg pt_dirs_def node split: if_splits)
  from kalloc_effect [OF assms, of es] obtain s0 where kal: "kalloc es s = Ok p s0 es" and k0: "kmem_ok s0 ps"
    and s0: "s0 = s\<lparr>mem := memset (mem s) p 5 4096, freelist := load64 (mem s) p\<rparr>" by blast
  have "mem_frame s0 {p} ?s1"
    using agree_outside_memset [OF pp, of 4096 "memset (mem s) p 5 4096" 0] by (simp add: mem_frame_def s0)
  then have "kmem_ok ?s1 ps"
    by (rule kmem_ok_frame [OF k0]) (use v pp in \<open>auto simp: s0\<close>)
  then have "uvm_ok ?s1 ps p D" "upages (mem ?s1) p D = {}"
    using wf pg vp v by (simp_all add: uvm_ok_def vm_ok_def upages_def upage_def)
  moreover have "uvmcreate es s = Ok p ?s1 es" using kal v(3) by (simp add: uvmcreate_def s0)
  ultimately show ?thesis using pg vp fr by (intro exI [of _ ?s1]) simp
qed

text \<open>A page table is made, grown to \<open>sz\<close> bytes, and freed again, whether or not it could grow.\<close>

definition uvm_life :: "uint64 \<Rightarrow> uint64 \<Rightarrow> ('z kmem_scheme, unit) km" where
  "uvm_life sz xperm =
     kbind uvmcreate (\<lambda>pt.
     kif (pt = 0) (kret ())
    (kbind (uvmalloc pt 0 sz xperm) (\<lambda>r. uvmfree pt r)))"

lemma uvmalloc_spec:
  assumes "uvm_ok s xs root D" "sz \<le> MAXVA" "xperm < 1024" "{0..<npg sz} \<subseteq> D" "vpte (mem s) root = (\<lambda>_. 0)"
  shows "\<exists>r s' xs'. uvmalloc root 0 sz xperm es s = Ok r s' es \<and> uvm_ok s' xs' root D \<and> r \<le> MAXVA \<and>
    npg r \<le> npg sz \<and> (\<forall>n. npg r \<le> n \<longrightarrow> vpte (mem s') root n = 0) \<and>
    pt_pages (mem s') root \<union> set xs' \<union> upages (mem s') root {0..<npg r} = pt_pages (mem s) root \<union> set xs \<and>
    mem_frame s (pt_pages (mem s) root \<union> set xs) s'"
proof -
  have z: "page_no (PGROUNDUP 0) = 0" "npg 0 = 0" using page_no_PGROUNDUP [of 0] by (simp_all add: npg_def)
  have perm: "PTE_R OR PTE_U OR xperm < 1024"
    using assms(3) by (intro or_less_1024) (simp_all add: PTE_R_def PTE_U_def)
  have "npg sz = page_no (PGROUNDUP 0) + npg sz" using z by simp
  from uvmalloc_loop_spec [OF assms(1) PGROUNDUP_aligned PGROUNDUP_aligned order_refl assms(2) this _ perm, of es] z assms(4,5)
  obtain r s' xs' where run: "uvmalloc root 0 sz xperm es s = Ok r s' es" and ok: "uvm_ok s' xs' root D"
    and res: "r = sz \<and> uvm_grown s xs root {0..<npg sz} (PTE_R OR PTE_U OR xperm) s' xs' \<or>
      r = 0 \<and> uvm_undone s xs root 0 0 s' xs'"
    by (auto simp: uvmalloc_def)
  from res show ?thesis
  proof (elim disjE conjE)
    assume "r = sz" "uvm_grown s xs root {0..<npg sz} (PTE_R OR PTE_U OR xperm) s' xs'"
    then show ?thesis using run ok assms(2,5)
      by (intro exI [of _ r] exI [of _ s'] exI [of _ xs']) (simp add: uvm_grown_def)
  next
    assume "r = 0" "uvm_undone s xs root 0 0 s' xs'"
    then show ?thesis using run ok assms(5) z(2)
      by (intro exI [of _ r] exI [of _ s'] exI [of _ xs']) (simp add: uvm_undone_def)
  qed
qed

text \<open>
  C10: A user memory leaks nothing. Making a page table, growing it to any size up to the maximum
  and freeing it (also after a growth that ran out of memory half way) returns without a
  panic with exactly the pages free that were free before, and writes no other memory.
\<close>

theorem uvm_life_returns_all_pages:
  assumes "kmem_ok s xs" "sz \<le> MAXVA" "xperm < 1024"
  shows "\<exists>s' xs'. uvm_life sz xperm es s = Ok () s' es \<and> kmem_ok s' xs' \<and> set xs' = set xs \<and>
    mem_frame s (set xs) s'"
proof (cases xs)
  case Nil
  then have "uvm_life sz xperm es s = Ok () s es"
    using assms(1) by (simp add: uvm_life_def uvmcreate_def kalloc_empty)
  then show ?thesis using assms(1) by (intro exI [of _ s] exI [of _ xs]) simp
next
  case (Cons p ps)
  from uvmcreate_spec [of s p ps es UNIV] assms(1) Cons obtain s1 where
    c: "uvmcreate es s = Ok p s1 es" "uvm_ok s1 ps p UNIV" "vpte (mem s1) p = (\<lambda>_. 0)"
      "pt_pages (mem s1) p = {p}" "mem_frame s {p} s1" by auto
  from uvmalloc_spec [OF c(2) assms(2,3) subset_UNIV c(3), of es] obtain r s2 xs2 where
    a: "uvmalloc p 0 sz xperm es s1 = Ok r s2 es" "uvm_ok s2 xs2 p UNIV" "r \<le> MAXVA"
      "\<And>n. npg r \<le> n \<Longrightarrow> vpte (mem s2) p n = 0"
      "pt_pages (mem s2) p \<union> set xs2 \<union> upages (mem s2) p {0..<npg r} = insert p (set ps)"
      "mem_frame s1 (insert p (set ps)) s2" using c(4) by auto
  from uvmfree_spec [OF a(2) subset_UNIV a(3), of es] a(4) obtain s3 where
    f: "uvmfree p r es s2 = Ok () s3 es" "freed s2 xs2 (pt_pages (mem s2) p \<union> upages (mem s2) p {0..<npg r})
      (pt_pages (mem s2) p \<union> upages (mem s2) p {0..<npg r}) s3" by auto
  obtain ys where ys: "kmem_ok s3 (ys @ xs2)" "set ys = pt_pages (mem s2) p \<union> upages (mem s2) p {0..<npg r}"
    and fr: "mem_frame s2 (set ys) s3" using f(2) by (auto simp: freed_def)
  have "set (ys @ xs2) = set xs" using ys(2) a(5) Cons by auto
  moreover have "mem_frame s (set xs) s3"
    using mem_frame_trans [OF mem_frame_trans [OF c(5) a(6)] fr] ys(2) a(5) Cons by (auto intro: mem_frame_mono)
  moreover have "p \<noteq> 0" using assms(1) Cons by (simp add: kmem_ok_def)
  ultimately show ?thesis using c(1) a(1) f(1) ys(1)
    by (intro exI [of _ s3] exI [of _ "ys @ xs2"]) (simp add: uvm_life_def)
qed

theorem uvm_life_returns_all_pages_witness:
  "\<exists>s' xs'. uvm_life 0x3000 PTE_W [] small_vm = Ok () s' [] \<and> kmem_ok s' xs' \<and> set xs' = {small_free}"
  using uvm_life_returns_all_pages [OF small_kmem_ok, of "0x3000" PTE_W "[]"]
  by (auto simp: MAXVA_eq PTE_W_def)

text \<open>
  C11: \<open>uvmcopy\<close> duplicates a user memory. On success every page mapped in the old page table
  below the size is mapped in the new one at the same address and with the same flags, to a
  page of its own that was free and has the same contents; pages not mapped in the old one
  stay unmapped. On failure the new page table is empty again and no page is lost. The old
  page table, its entries and the contents of its pages are never changed.
\<close>

theorem uvmcopy_correct:
  assumes "uvm_ok s xs new D" "sz \<le> MAXVA" "{0..<npg sz} \<subseteq> D"
    and "old_ok s old {0..<npg sz} (pt_pages (mem s) new \<union> set xs)"
    and "\<forall>j < npg sz. vpte (mem s) new j = 0"
  shows "\<exists>r s' xs'. uvmcopy old new sz es s = Ok r s' es \<and> uvm_ok s' xs' new D \<and>
    (r = 0 \<and> uvm_copied s xs old new {0..<npg sz} s' xs' \<or>
     r = - 1 \<and> vpte (mem s') new = vpte (mem s) new \<and>
       pt_pages (mem s') new \<union> set xs' = pt_pages (mem s) new \<union> set xs) \<and>
    vpte (mem s') old = vpte (mem s) old \<and>
    (\<forall>p \<in> upages (mem s) old {0..<npg sz}. same_page (mem s') p (mem s) p)"
proof -
  have z: "page_aligned 0" "page_no 0 = 0" by (simp_all add: page_aligned_def page_no_def)
  then have "npg sz = page_no 0 + npg sz" by simp
  from uvmcopy_loop_spec [OF assms(1) z(1) assms(2) this assms(3), of old es] z(2) assms(4,5)
  obtain r s' xs' where run: "uvmcopy old new sz es s = Ok r s' es" "uvm_ok s' xs' new D"
    and res: "r = 0 \<and> uvm_copied s xs old new {0..<npg sz} s' xs' \<or> r = - 1 \<and> uvm_undone s xs new 0 0 s' xs'"
    by (auto simp: uvmcopy_def)
  then have "mem_frame s (pt_pages (mem s) new \<union> set xs) s'"
    by (auto simp: uvm_copied_def uvm_undone_def)
  note old_ok_frame [OF assms(4) this order_refl]
  then show ?thesis using run res
    by (intro exI [of _ r] exI [of _ s'] exI [of _ xs']) (auto simp: uvm_undone_def)
qed

definition small_old :: addr where "small_old = PHYSTOP - 12288"

theorem uvmcopy_correct_witness:
  "\<exists>r s' xs'. uvmcopy small_old small_root 8192 [] small_vm = Ok r s' [] \<and> uvm_ok s' xs' small_root UNIV \<and>
    (r = 0 \<and> uvm_copied small_vm [small_free] small_old small_root {0..<2} s' xs' \<or>
     r = - 1 \<and> vpte (mem s') small_root = vpte (mem small_vm) small_root)"
proof -
  have n: "npg 8192 = 2" by (simp add: npg_def)
  have "valid_page KERNBASE small_old" "small_old \<noteq> small_root" "small_old \<noteq> small_free"
    by (simp_all add: valid_page_def small_old_def small_root_def small_free_def page_aligned_def
      PGSIZE_def PHYSTOP_eq KERNBASE_def)
  then have "old_ok small_vm small_old {0..<npg 8192} (pt_pages (mem small_vm) small_root \<union> set [small_free])"
    using small_valid pt_wf_zero [of KERNBASE small_old] by (simp add: old_ok_def small_vm_def valid_page_aligned)
  moreover have "(8192 :: uint64) \<le> MAXVA" "\<forall>j < npg 8192. vpte (mem small_vm) small_root j = 0"
    by (simp_all add: MAXVA_eq small_vm_def)
  ultimately show ?thesis
    using uvmcopy_correct [OF small_uvm_ok, of 8192 UNIV small_old "[]"] unfolding n by blast
qed

end
