(* ===== verification/Xv6_Copy.thy ===== *)
theory Xv6_Copy
  imports Xv6_Proc Xv6_Uvm_Correct
begin

text \<open>
  Copying between the kernel and a user memory (\<open>copyin\<close>, \<open>copyout\<close>, \<open>copyinstr\<close>, \<open>vmfault\<close> of
  \<open>kernel/vm.c\<close>; \<open>either_copyin\<close>, \<open>either_copyout\<close> of \<open>kernel/proc.c\<close>). The kernel's side of a copy
  is an object of the kernel, given or returned as its bytes; the user's side goes through
  the page table. Pages that \<open>sbrk\<close> promised but did not allocate are allocated here, by
  \<open>vmfault\<close>. The user sees none of that: the theorems are on the view \<open>uview\<close> of a user memory, in
  which such a page already reads as zeros.
\<close>

section \<open>The routines\<close>

definition vmfault :: "addr \<Rightarrow> uint64 \<Rightarrow> bool \<Rightarrow> ('z kproc_scheme, uint64) km" where
  "vmfault pt va rd =
     kbind myproc_deref (\<lambda>p.
     kbind (kget (\<lambda>s. psz (procs s p))) (\<lambda>sz.
     kif (va \<ge> sz) (kret 0)
    (kbind (ismapped pt (PGROUNDDOWN va)) (\<lambda>m.
     kif m (kret 0)
    (kbind kalloc (\<lambda>page.
     kif (page = 0) (kret 0)
    (kthen (kmod (\<lambda>s. s\<lparr>mem := memset (mem s) page 0 4096\<rparr>))
    (kbind (kget (\<lambda>s. pagetable (procs s p))) (\<lambda>ppt.
     kbind (mappages ppt (PGROUNDDOWN va) 4096 page (PTE_W OR PTE_U OR PTE_R)) (\<lambda>r.
     kif (r \<noteq> 0)
       (kthen (kfree page) (kret 0))
       (kret page)))))))))))"

text \<open>The number of bytes from an address to the end of its page, as the loops compute it.\<close>

definition page_rest :: "uint64 \<Rightarrow> nat" where
  "page_rest va = unat (4096 - (va - PGROUNDDOWN va))"

lemma page_offset:
  "unat (va - PGROUNDDOWN va) = unat va mod 4096" "PGROUNDDOWN va \<le> va"
proof -
  have d: "unat (PGROUNDDOWN va) = 4096 * (unat va div 4096)" by (simp add: unat_PGROUNDDOWN PGSIZE_def)
  then show le: "PGROUNDDOWN va \<le> va" by (simp add: word_le_nat_alt)
  then show "unat (va - PGROUNDDOWN va) = unat va mod 4096"
    by (simp add: unat_sub d minus_mult_div_eq_mod)
qed

lemma page_rest_eq: "page_rest va = 4096 - unat va mod 4096"
proof -
  have "va - PGROUNDDOWN va \<le> 4096"
    using page_offset(1) [of va] mod_less_divisor [of 4096 "unat va"] by (simp add: word_le_nat_alt)
  then show ?thesis by (simp add: page_rest_def unat_sub page_offset)
qed

lemma page_rest_bounds [simp]: "0 < page_rest va" "page_rest va \<le> 4096"
  by (simp_all add: page_rest_eq)

function copyin :: "addr \<Rightarrow> uint64 \<Rightarrow> nat \<Rightarrow> ('z kproc_scheme, int \<times> byte list) km" where
  "copyin pt srcva len es s =
     kif (len = 0) (kret (0, []))
    (kbind (walkaddr pt (PGROUNDDOWN srcva)) (\<lambda>p.
     kbind (if p = 0 then vmfault pt (PGROUNDDOWN srcva) False else kret p) (\<lambda>pa0.
     kif (pa0 = 0) (kret (- 1, []))
    (kbind (kget (\<lambda>s. bytes_at (mem s) (pa0 + (srcva - PGROUNDDOWN srcva)) (min (page_rest srcva) len))) (\<lambda>bs.
     kbind (copyin pt (PGROUNDDOWN srcva + 4096) (len - min (page_rest srcva) len)) (\<lambda>(r, cs).
     kret (r, bs @ cs))))))) es s"
  by pat_completeness auto
termination
  by (relation "measure (\<lambda>(pt, srcva, len, es, s). len)") auto

declare copyin.simps [simp del]

function copyout :: "addr \<Rightarrow> uint64 \<Rightarrow> byte list \<Rightarrow> ('z kproc_scheme, int) km" where
  "copyout pt dstva bs es s =
     kif (bs = []) (kret 0)
    (kif (PGROUNDDOWN dstva \<ge> MAXVA) (kret (- 1))
    (kbind (walkaddr pt (PGROUNDDOWN dstva)) (\<lambda>p.
     kbind (if p = 0 then vmfault pt (PGROUNDDOWN dstva) False else kret p) (\<lambda>pa0.
     kif (pa0 = 0) (kret (- 1))
    (kbind (walk pt (PGROUNDDOWN dstva) False) (\<lambda>pte.
     kthen (kpanic_if (\<lambda>_. pte = 0) ''kerneltrap'')
    (kbind (kget (\<lambda>s. load64 (mem s) pte)) (\<lambda>v.
     kif (v AND PTE_W = 0) (kret (- 1))
    (kthen (kmod (\<lambda>s. s\<lparr>mem := write_bytes (mem s) (pa0 + (dstva - PGROUNDDOWN dstva)) (take (page_rest dstva) bs)\<rparr>))
           (copyout pt (PGROUNDDOWN dstva + 4096) (drop (page_rest dstva) bs))))))))))) es s"
  by pat_completeness auto
termination
  by (relation "measure (\<lambda>(pt, dstva, bs, es, s). length bs)") auto

declare copyout.simps [simp del]

text \<open>
  The inner loop of \<open>copyinstr\<close>: at most \<open>n\<close> bytes from \<open>p\<close> on, up to and including a NUL; the
  flag says whether one was found.
\<close>

primrec copyinstr_page :: "memory \<Rightarrow> addr \<Rightarrow> nat \<Rightarrow> byte list \<times> bool" where
  "copyinstr_page m p 0 = ([], False)"
| "copyinstr_page m p (Suc n) =
     (if m p = 0 then ([0], True)
      else let (bs, got) = copyinstr_page m (p + 1) n in (m p # bs, got))"

function copyinstr :: "addr \<Rightarrow> uint64 \<Rightarrow> nat \<Rightarrow> ('z kproc_scheme, int \<times> byte list) km" where
  "copyinstr pt srcva maxlen es s =
     kif (maxlen = 0) (kret (- 1, []))
    (kbind (walkaddr pt (PGROUNDDOWN srcva)) (\<lambda>pa0.
     kif (pa0 = 0) (kret (- 1, []))
    (kbind (kget (\<lambda>s. copyinstr_page (mem s) (pa0 + (srcva - PGROUNDDOWN srcva)) (min (page_rest srcva) maxlen)))
       (\<lambda>(bs, got).
     kif got (kret (0, bs))
    (kbind (copyinstr pt (PGROUNDDOWN srcva + 4096) (maxlen - min (page_rest srcva) maxlen)) (\<lambda>(r, cs).
     kret (r, bs @ cs))))))) es s"
  by pat_completeness auto
termination
  by (relation "measure (\<lambda>(pt, srcva, maxlen, es, s). maxlen)") auto

declare copyinstr.simps [simp del]

text \<open>
  The other side of \<open>either_copyout\<close> and \<open>either_copyin\<close>: a user address, a kernel address, or a
  local object of the kernel, given by its bytes. The flag \<open>user_dst\<close> of the C code is 1 for the
  first and 0 for the others.
\<close>

datatype place = User uint64 | Kern addr | Obj "byte list"

primrec place_add :: "place \<Rightarrow> nat \<Rightarrow> place" where
  "place_add (User va) n = User (va + of_nat n)"
| "place_add (Kern a) n = Kern (a + of_nat n)"
| "place_add (Obj bs) n = Obj (drop n bs)"

definition either_copyout :: "place \<Rightarrow> byte list \<Rightarrow> ('z kproc_scheme, int) km" where
  "either_copyout dst bs =
     kbind myproc (\<lambda>me. case dst of
       User va \<Rightarrow> kbind myproc_deref (\<lambda>p. kbind (kget (\<lambda>s. pagetable (procs s p))) (\<lambda>pt. copyout pt va bs))
     | Kern a \<Rightarrow> kthen (kmod (\<lambda>s. s\<lparr>mem := write_bytes (mem s) a bs\<rparr>)) (kret 0)
     | Obj _ \<Rightarrow> kret 0)"

definition either_copyin :: "place \<Rightarrow> nat \<Rightarrow> ('z kproc_scheme, int \<times> byte list) km" where
  "either_copyin src len =
     kbind myproc (\<lambda>me. case src of
       User va \<Rightarrow> kbind myproc_deref (\<lambda>p. kbind (kget (\<lambda>s. pagetable (procs s p))) (\<lambda>pt. copyin pt va len))
     | Kern a \<Rightarrow> kbind (kget (\<lambda>s. bytes_at (mem s) a len)) (\<lambda>bs. kret (0, bs))
     | Obj bs \<Rightarrow> kret (0, take len bs))"

section \<open>The user's view\<close>

definition uview :: "memory \<Rightarrow> addr \<Rightarrow> uint64 \<Rightarrow> uint64 \<Rightarrow> byte option" where
  "uview m root sz va =
     (if va \<ge> MAXVA then None
      else let v = vpte m root (page_no va) in
        if v AND PTE_V \<noteq> 0
        then (if v AND PTE_U \<noteq> 0 then Some (m (PTE2PA v + of_nat (unat va mod 4096))) else None)
        else if page_no va < npg sz then Some 0 else None)"

text \<open>
  The running process as these routines rely on it: its page table is well-formed and owns the
  pages below its size, entries below the size are either valid or 0, and no page above the
  size is open to the user.
\<close>

definition uproc_ok :: "'z kproc_scheme \<Rightarrow> addr list \<Rightarrow> addr \<Rightarrow> uint64 \<Rightarrow> bool" where
  "uproc_ok s xs root sz \<longleftrightarrow>
     (\<exists>p. cur s = Some p \<and> pagetable (procs s p) = root \<and> psz (procs s p) = sz) \<and> sz \<le> MAXVA \<and>
     uvm_ok s xs root {0..<npg sz} \<and>
     (\<forall>n < npg sz. vpte (mem s) root n AND PTE_V = 0 \<longrightarrow> vpte (mem s) root n = 0) \<and>
     (\<forall>n \<ge> npg sz. vpte (mem s) root n AND PTE_V \<noteq> 0 \<longrightarrow> vpte (mem s) root n AND PTE_U = 0)"

lemma walkaddr_spec:
  assumes "vm_ok s xs root"
  shows "walkaddr root va es s =
    Ok (if va < MAXVA \<and> vpte (mem s) root (page_no va) AND PTE_V \<noteq> 0 \<and> vpte (mem s) root (page_no va) AND PTE_U \<noteq> 0
        then PTE2PA (vpte (mem s) root (page_no va)) else 0) s es"
proof (cases "va < MAXVA")
  case True
  from walk_spec [OF assms True, of False es] obtain p where
    w: "walk root va False es s = Ok p s es" "walk_result s xs root (page_no va) False p" by blast
  note walk_result_vpte [OF w(2) page_no_MAXVA [OF True]]
  then show ?thesis using True w(1) by (cases "p = 0") (auto simp: walkaddr_def kif_def)
qed (simp add: walkaddr_def)

lemma ismapped_spec:
  assumes "vm_ok s xs root" "va < MAXVA"
  shows "ismapped root va es s = Ok (vpte (mem s) root (page_no va) AND PTE_V \<noteq> 0) s es"
proof -
  from walk_spec [OF assms, of False es] obtain p where
    w: "walk root va False es s = Ok p s es" "walk_result s xs root (page_no va) False p" by blast
  note walk_result_vpte [OF w(2) page_no_MAXVA [OF assms(2)]]
  then show ?thesis using w(1) by (cases "p = 0") (simp_all add: ismapped_def kif_def)
qed

lemma uview_frame:
  assumes ok: "uvm_ok s xs root {0..<npg sz}" and fr: "mem_frame s (pt_pages (mem s) root \<union> set xs) s'"
    and v: "vpte (mem s') root (page_no a) = vpte (mem s) root (page_no a)"
    and top: "\<forall>n \<ge> npg sz. vpte (mem s) root n AND PTE_V \<noteq> 0 \<longrightarrow> vpte (mem s) root n AND PTE_U = 0"
  shows "uview (mem s') root sz a = uview (mem s) root sz a"
proof (cases "vpte (mem s) root (page_no a) AND PTE_V \<noteq> 0 \<and> vpte (mem s) root (page_no a) AND PTE_U \<noteq> 0")
  case True
  let ?p = "PTE2PA (vpte (mem s) root (page_no a))"
  have "page_no a < npg sz" using True top not_le by blast
  then have "?p \<in> upages (mem s) root {0..<npg sz}" using True by (auto simp: upages_def upage_def)
  then have "?p \<notin> pt_pages (mem s) root \<union> set xs" using ok by (auto simp: uvm_ok_def)
  then have "mem s' (?p + of_nat (unat a mod 4096)) = mem s (?p + of_nat (unat a mod 4096))"
    using vm_ok_pages [OF uvm_ok_vm [OF ok]] by (intro mem_frame_page [OF fr]) auto
  then show ?thesis using True by (simp add: uview_def v)
qed (auto simp: uview_def v Let_def)

lemma uproc_ok_frame:
  assumes "uproc_ok s xs root sz" "mem_frame s W s'" "uvm_ok s' xs' root {0..<npg sz}"
    and "vpte (mem s') root = vpte (mem s) root \<or>
      (\<exists>n v. n < npg sz \<and> v AND PTE_V \<noteq> 0 \<and> vpte (mem s') root = (vpte (mem s) root)(n := v))"
  shows "uproc_ok s' xs' root sz"
proof -
  have e: "s' = s\<lparr>mem := mem s', freelist := freelist s'\<rparr>" using assms(2) by (simp add: mem_frame_def)
  have "cur s' = cur s" "procs s' = procs s" by (subst e, simp)+
  then show ?thesis using assms(1,3,4) unfolding uproc_ok_def by auto
qed

definition vm_mono :: "memory \<Rightarrow> memory \<Rightarrow> addr \<Rightarrow> bool" where
  "vm_mono m m' root \<longleftrightarrow> (\<forall>n. vpte m root n AND PTE_V \<noteq> 0 \<longrightarrow> vpte m' root n = vpte m root n)"

lemma vm_mono_refl [simp]: "vm_mono m m root"
  by (simp add: vm_mono_def)

lemma vm_mono_trans: "vm_mono m m' root \<Longrightarrow> vm_mono m' m'' root \<Longrightarrow> vm_mono m m'' root"
  by (simp add: vm_mono_def)

lemma vmfault_fresh_view:
  assumes ok: "uproc_ok s xs root sz" and t: "uvm_ok t ys root {0..<npg sz}"
    "vpte (mem t) root = (vpte (mem s) root)(n := PA2PTE q OR (PTE_W OR PTE_U OR PTE_R) OR PTE_V)"
    "mem_frame s (pt_pages (mem s) root \<union> set xs) t"
    and n: "n < npg sz \<and> vpte (mem s) root n AND PTE_V = 0" and z: "zero_page (mem t) q" and q: "valid_page (kend s) q"
  shows "uproc_ok t ys root sz" "uview (mem t) root sz a = uview (mem s) root sz a"
proof -
  let ?v = "PA2PTE q OR (PTE_W OR PTE_U OR PTE_R) OR PTE_V"
  have uvm: "uvm_ok s xs root {0..<npg sz}"
    and top: "\<forall>k \<ge> npg sz. vpte (mem s) root k AND PTE_V \<noteq> 0 \<longrightarrow> vpte (mem s) root k AND PTE_U = 0"
    using ok by (auto simp: uproc_ok_def)
  have perm: "PTE_W OR PTE_U OR PTE_R < 1024" by (simp add: PTE_W_def PTE_U_def PTE_R_def)
  show "uproc_ok t ys root sz"
    using uproc_ok_frame [OF ok t(3,1)] n t(2) pte_valid_leaf by blast
  show "uview (mem t) root sz a = uview (mem s) root sz a"
  proof (cases "page_no a = n")
    case False
    then show ?thesis using uview_frame [OF uvm t(3) _ top] t(2) by simp
  next
    case True
    have "?v AND PTE_U \<noteq> 0" by (simp add: and_flag_eq_0_iff bit_or_iff bit_flag_iff)
    moreover have "PTE2PA ?v = q"
      using PTE2PA_leaf [OF valid_page_aligned [OF q] valid_page_56 [OF q] perm] .
    moreover have "mem t (q + of_nat (unat a mod 4096)) = 0"
      using z by (simp add: zero_page_def)
    ultimately show ?thesis using True n t(2) pte_valid_leaf by (simp add: uview_def)
  qed
qed

lemma vmfault_spec:
  assumes ok: "uproc_ok s xs root sz" and va: "page_aligned va"
  defines "n \<equiv> page_no va"
  shows "\<exists>r s' xs'. vmfault root va rd es s = Ok r s' es \<and> uproc_ok s' xs' root sz \<and> vm_mono (mem s) (mem s') root \<and>
    (\<forall>a. uview (mem s') root sz a = uview (mem s) root sz a) \<and>
    (r = 0 \<and> (n < npg sz \<longrightarrow> vpte (mem s) root n AND PTE_V \<noteq> 0 \<or> length xs' \<le> 1) \<or>
     r \<noteq> 0 \<and> vpte (mem s') root n = PA2PTE r OR (PTE_W OR PTE_U OR PTE_R) OR PTE_V \<and> valid_page (kend s') r)"
proof -
  obtain p where p: "cur s = Some p" "pagetable (procs s p) = root" "psz (procs s p) = sz"
    and uvm: "uvm_ok s xs root {0..<npg sz}" using ok by (auto simp: uproc_ok_def)
  have vm: "vm_ok s xs root" using uvm by (rule uvm_ok_vm)
  have top: "\<forall>k \<ge> npg sz. vpte (mem s) root k AND PTE_V \<noteq> 0 \<longrightarrow> vpte (mem s) root k AND PTE_U = 0"
    using ok by (auto simp: uproc_ok_def)
  have down: "PGROUNDDOWN va = va"
    using va by (auto simp: word_unat_eq_iff unat_PGROUNDDOWN page_aligned_def PGSIZE_def)
  have lt: "va \<ge> sz \<longleftrightarrow> \<not> n < npg sz" unfolding n_def using page_less_npg [OF va, of sz] by auto
  have max: "va < MAXVA" if "n < npg sz" using that lt ok by (auto simp: uproc_ok_def not_le)
  note im = ismapped_spec [OF vm max, of es, folded n_def]
  show ?thesis
  proof (cases "n < npg sz \<and> vpte (mem s) root n AND PTE_V = 0")
    case False
    then have "vmfault root va rd es s = Ok 0 s es"
      using p lt im down by (cases "va \<ge> sz") (auto simp: vmfault_def kif_def)
    then show ?thesis using ok False by (intro exI [of _ 0] exI [of _ s] exI [of _ xs]) auto
  next
    case True
    then have zero: "vpte (mem s) root (page_no va) = 0" using ok by (auto simp: uproc_ok_def n_def)
    have z: "PTE_W OR PTE_U OR PTE_R < 1024" by (simp add: PTE_W_def PTE_U_def PTE_R_def)
    show ?thesis
    proof (cases xs)
      case Nil
      then have "kalloc es s = Ok 0 s es" using vm by (simp add: vm_ok_def kalloc_empty)
      then have "vmfault root va rd es s = Ok 0 s es" using p lt im down True by (simp add: vmfault_def)
      then show ?thesis using ok Nil by (intro exI [of _ 0] exI [of _ s] exI [of _ xs]) simp
    next
      case (Cons q ps)
      then have uvm': "uvm_ok s (q # ps) root {0..<npg sz}" using uvm by simp
      then have kp: "kmem_ok s (q # ps)" by (simp add: uvm_ok_def vm_ok_def)
      then have q: "q \<noteq> 0" "page_aligned q" "valid_page (kend s) q"
        by (auto simp: kmem_ok_def intro: valid_page_aligned)
      let ?perm = "PTE_W OR PTE_U OR PTE_R" and ?m1 = "memset (memset (mem s) q 5 4096) q 0 4096"
      let ?s1 = "s\<lparr>mem := ?m1, freelist := load64 (mem s) q\<rparr>"
      have fill: "agree_outside {page_no q} (mem s) ?m1"
        using agree_outside_trans [OF agree_outside_memset agree_outside_memset, OF q(2) _ q(2)] by simp
      have kal: "kalloc es s = Ok q (s\<lparr>mem := memset (mem s) q 5 4096, freelist := load64 (mem s) q\<rparr>) es"
        using kalloc_effect [OF kp, of es] by blast
      note tk = uvm_take [OF uvm' fill]
      have run: "vmfault root va rd es s = kbind (mappages root va 4096 q ?perm) (\<lambda>r.
          kif (r \<noteq> 0) (kthen (kfree q) (kret 0)) (kret q)) es ?s1"
        using p lt im down True kal q(1) by (simp add: vmfault_def)
      have "vpte (mem ?s1) root (page_no va) AND PTE_V = 0" using tk(2) zero by simp
      with uvm_ok_vm [OF tk(1)] va max [OF True [THEN conjunct1]] show ?thesis
      proof (rule mappages_page [where pa = q and perm = ?perm and es = es])
        fix t ys
        assume m: "mappages root va 4096 q ?perm es ?s1 = Ok 0 t es" and st: "vm_step ?s1 ps root t ys"
          "vpte (mem t) root = (vpte (mem ?s1) root)(page_no va := PA2PTE q OR ?perm OR PTE_V)"
        note f = map_fresh_ok [OF uvm' fill z zero st]
        have zp: "zero_page (mem t) q"
          by (rule zero_page_frame [OF _ f(6)])
            (use zero_page_memset [OF q(2)] q tk(5) vm_ok_pages [OF uvm_ok_vm [OF uvm']] in auto)
        show ?thesis
          using vmfault_fresh_view [OF ok f(1,2,5) [folded Cons] _ zp q(3)] True run m q f(2)
            mem_frame_kend [OF f(5)]
          by (intro exI [of _ q] exI [of _ t] exI [of _ ys]) (simp add: n_def vm_mono_def)
      next
        fix t assume m: "mappages root va 4096 q ?perm es ?s1 = Ok (- 1) t es" and st: "vm_grow ?s1 ps root t []"
        from map_fresh_fail [OF uvm' fill st, of es] obtain t' where f: "kfree q es t = Ok () t' es"
          "uvm_ok t' [q] root {0..<npg sz}" "vpte (mem t') root = vpte (mem s) root"
          "mem_frame s (pt_pages (mem s) root \<union> set (q # ps)) t'" by blast
        have "uproc_ok t' [q] root sz" using uproc_ok_frame [OF ok f(4,2)] f(3) by blast
        moreover have "uview (mem t') root sz a = uview (mem s) root sz a" for a
          using uview_frame [OF uvm f(4) [folded Cons] _ top] f(3) by simp
        moreover have "vmfault root va rd es s = Ok 0 t' es" using run m f(1) by simp
        ultimately show ?thesis using f(3)
          by (intro exI [of _ 0] exI [of _ t'] exI [of _ "[q]"]) (simp add: vm_mono_def)
      qed
    qed
  qed
qed

text \<open>
  The common step of the copying loops: the page of an address, allocated if it has to be. When
  there is none, the user has no byte there or the machine is out of memory.
\<close>

definition user_page :: "addr \<Rightarrow> uint64 \<Rightarrow> ('z kproc_scheme, addr) km" where
  "user_page pt va = kbind (walkaddr pt va) (\<lambda>p. if p = 0 then vmfault pt va False else kret p)"

lemma user_pte_page:
  assumes "uproc_ok s xs root sz" "vpte (mem s) root n AND PTE_V \<noteq> 0" "vpte (mem s) root n AND PTE_U \<noteq> 0"
  shows "n < npg sz" "PTE2PA (vpte (mem s) root n) \<in> upages (mem s) root {0..<npg sz}"
    "valid_page (kend s) (PTE2PA (vpte (mem s) root n))"
proof -
  show n: "n < npg sz" using assms not_le unfolding uproc_ok_def by blast
  then show u: "PTE2PA (vpte (mem s) root n) \<in> upages (mem s) root {0..<npg sz}"
    using assms(2) by (auto simp: upages_def upage_def)
  then show "valid_page (kend s) (PTE2PA (vpte (mem s) root n))"
    using assms(1) by (simp add: uproc_ok_def uvm_ok_def)
qed

lemma user_page_spec:
  assumes ok: "uproc_ok s xs root sz"
  shows "\<exists>pa s' xs'. user_page root (PGROUNDDOWN va) es s = Ok pa s' es \<and> uproc_ok s' xs' root sz \<and>
    vm_mono (mem s) (mem s') root \<and> uview (mem s') root sz = uview (mem s) root sz \<and>
    (pa = 0 \<and> (uview (mem s) root sz va = None \<or> length xs' \<le> 1 \<and> vpte (mem s) root (page_no va) AND PTE_V = 0) \<or>
     pa \<noteq> 0 \<and> va < MAXVA \<and> vpte (mem s') root (page_no va) AND PTE_V \<noteq> 0 \<and>
     vpte (mem s') root (page_no va) AND PTE_U \<noteq> 0 \<and> pa = PTE2PA (vpte (mem s') root (page_no va)))"
proof -
  let ?va = "PGROUNDDOWN va" and ?v = "vpte (mem s) root (page_no va)"
  have vm: "vm_ok s xs root" using ok by (auto simp: uproc_ok_def intro: uvm_ok_vm)
  have lt: "?va < MAXVA \<longleftrightarrow> va < MAXVA"
    by (auto simp: word_less_nat_alt unat_PGROUNDDOWN PGSIZE_def MAXVA_eq)
  note wa = walkaddr_spec [OF vm, of ?va es, simplified lt, simplified]
  show ?thesis
  proof (cases "va < MAXVA \<and> ?v AND PTE_V \<noteq> 0 \<and> ?v AND PTE_U \<noteq> 0")
    case True
    then have "PTE2PA ?v \<noteq> 0" using user_pte_page(3) [OF ok, of "page_no va"] by (simp add: valid_page_def)
    then show ?thesis using True wa ok
      by (intro exI [of _ "PTE2PA ?v"] exI [of _ s] exI [of _ xs]) (simp add: user_page_def)
  next
    case False
    then have run: "user_page root ?va es s = vmfault root ?va False es s"
      using wa by (auto simp: user_page_def)
    obtain r s' xs' where f: "vmfault root ?va False es s = Ok r s' es" "uproc_ok s' xs' root sz"
      "uview (mem s') root sz = uview (mem s) root sz"
      "vm_mono (mem s) (mem s') root"
      and r: "r = 0 \<and> (page_no va < npg sz \<longrightarrow> ?v AND PTE_V \<noteq> 0 \<or> length xs' \<le> 1) \<or>
        r \<noteq> 0 \<and> vpte (mem s') root (page_no va) = PA2PTE r OR (PTE_W OR PTE_U OR PTE_R) OR PTE_V \<and>
        valid_page (kend s') r"
      using vmfault_spec [OF ok PGROUNDDOWN_aligned, of va False es] by (auto simp: fun_eq_iff)
    show ?thesis
    proof (cases "r = 0")
      case True
      then have "uview (mem s) root sz va = None \<or> length xs' \<le> 1 \<and> ?v AND PTE_V = 0"
        using False r by (auto simp: uview_def Let_def)
      then show ?thesis using True f run by (intro exI [of _ 0] exI [of _ s'] exI [of _ xs']) simp
    next
      case r0: False
      then have v: "vpte (mem s') root (page_no va) = PA2PTE r OR (PTE_W OR PTE_U OR PTE_R) OR PTE_V"
        and q: "valid_page (kend s') r" using r by auto
      have perm: "PTE_W OR PTE_U OR PTE_R < 1024" by (simp add: PTE_W_def PTE_U_def PTE_R_def)
      have "PTE2PA (vpte (mem s') root (page_no va)) = r"
        unfolding v using PTE2PA_leaf [OF valid_page_aligned [OF q] valid_page_56 [OF q] perm] .
      moreover have bits: "vpte (mem s') root (page_no va) AND PTE_V \<noteq> 0"
        "vpte (mem s') root (page_no va) AND PTE_U \<noteq> 0"
        unfolding v by (simp_all add: and_flag_eq_0_iff bit_or_iff bit_flag_iff)
      moreover have "va < MAXVA"
      proof -
        have "page_no ?va < npg sz" using user_pte_page(1) [OF f(2) bits] by simp
        then have "?va < sz" using page_less_npg [OF PGROUNDDOWN_aligned] by blast
        then have "?va < MAXVA" using ok by (auto simp: uproc_ok_def)
        then show ?thesis by (simp add: lt)
      qed
      ultimately show ?thesis using r0 f run
        by (intro exI [of _ r] exI [of _ s'] exI [of _ xs']) simp
    qed
  qed
qed

section \<open>Reading and writing the view\<close>

lemma page_rest_addr:
  assumes "i < page_rest va"
  shows "unat (va + of_nat i) = unat va + i" "page_no (va + of_nat i) = page_no va"
    "unat (va + of_nat i) mod 4096 = unat va mod 4096 + i" "va < MAXVA \<Longrightarrow> va + of_nat i < MAXVA"
proof -
  have d: "unat va = 4096 * (unat va div 4096) + unat va mod 4096" by simp
  have i: "unat va mod 4096 + i < 4096" using assms by (simp add: page_rest_eq)
  have "va = PGROUNDDOWN va + of_nat (unat va mod 4096)"
    using page_offset(1) [of va, symmetric] by simp
  then have "va + of_nat i = PGROUNDDOWN va + of_nat (unat va mod 4096 + i)" by simp
  then have "unat (va + of_nat i) = unat (PGROUNDDOWN va) + (unat va mod 4096 + i)"
    using unat_page_add [OF PGROUNDDOWN_aligned i] by metis
  then show u: "unat (va + of_nat i) = unat va + i" using d by (simp add: unat_PGROUNDDOWN PGSIZE_def)
  have s: "unat va + i = 4096 * (unat va div 4096) + (unat va mod 4096 + i)" by simp
  show m: "unat (va + of_nat i) mod 4096 = unat va mod 4096 + i" unfolding u using i by (subst s) (simp only: mod_mult_self4 mod_less)
  have q: "(unat va + i) div 4096 = unat va div 4096"
    using m d mult_div_mod_eq [of 4096 "unat va + i"] unfolding u by linarith
  then show "page_no (va + of_nat i) = page_no va" by (simp add: page_no_def PGSIZE_def u)
  show "va + of_nat i < MAXVA" if "va < MAXVA"
  proof -
    have "unat va div 4096 < 0x4000000" using that by (simp add: word_less_nat_alt MAXVA_eq less_mult_imp_div_less)
    then have "(unat va + i) div 4096 < 0x4000000" by (simp only: q)
    then show ?thesis by (simp add: word_less_nat_alt MAXVA_eq u)
  qed
qed

lemma page_rest_next: "PGROUNDDOWN va + 4096 = va + of_nat (page_rest va)"
proof -
  have "va = PGROUNDDOWN va + of_nat (unat va mod 4096)"
    using page_offset(1) [of va, symmetric] by simp
  moreover have "(4096 :: uint64) = of_nat (unat va mod 4096) + of_nat (page_rest va)"
    unfolding of_nat_add [symmetric] page_rest_eq by simp
  ultimately show ?thesis by (metis add.assoc)
qed

lemma uview_page:
  assumes "va < MAXVA" "vpte m root (page_no va) AND PTE_V \<noteq> 0" "vpte m root (page_no va) AND PTE_U \<noteq> 0"
    and "i < page_rest va"
  shows "uview m root sz (va + of_nat i) =
    Some (m (PTE2PA (vpte m root (page_no va)) + (va - PGROUNDDOWN va) + of_nat i))"
proof -
  have "va - PGROUNDDOWN va = of_nat (unat va mod 4096)" using page_offset(1) [of va, symmetric] by simp
  then show ?thesis
    using assms page_rest_addr [OF assms(4)] by (simp add: uview_def add.assoc)
qed

definition uread :: "(uint64 \<Rightarrow> byte option) \<Rightarrow> uint64 \<Rightarrow> nat \<Rightarrow> byte option list" where
  "uread f va n = map (\<lambda>i. f (va + of_nat i)) [0..<n]"

definition uwrite :: "(uint64 \<Rightarrow> byte option) \<Rightarrow> uint64 \<Rightarrow> byte list \<Rightarrow> uint64 \<Rightarrow> byte option" where
  "uwrite f va bs a = (if unat (a - va) < length bs then Some (bs ! unat (a - va)) else f a)"

lemma uread_add: "uread f va (m + n) = uread f va m @ uread f (va + of_nat m) n"
  by (rule nth_equalityI) (auto simp: uread_def nth_append add.assoc simp flip: of_nat_add)

lemma uread_uwrite:
  assumes "length bs < 2 ^ 64"
  shows "uread (uwrite f va bs) va (length bs) = map Some bs"
  using assms by (intro nth_equalityI) (auto simp: uread_def uwrite_def unat_of_nat)

lemma uwrite_Nil [simp]: "uwrite f va [] = f"
  by (rule ext) (simp add: uwrite_def)

lemma uwrite_append:
  assumes "length xs + length ys < 2 ^ 64"
  shows "uwrite (uwrite f va xs) (va + of_nat (length xs)) ys = uwrite f va (xs @ ys)"
proof (rule ext)
  fix a
  have e: "a - (va + of_nat (length xs)) = (a - va) - of_nat (length xs)" by simp
  have l: "unat (of_nat (length xs) :: uint64) = length xs" using assms by (simp add: unat_of_nat)
  show "uwrite (uwrite f va xs) (va + of_nat (length xs)) ys a = uwrite f va (xs @ ys) a"
  proof (cases "unat (a - va) < length xs")
    case True
    then have "a - va < of_nat (length xs)" using l by (simp add: word_less_nat_alt)
    then have "unat ((a - va) - of_nat (length xs)) = 2 ^ 64 + unat (a - va) - length xs"
      using unat_sub_if_size [of "a - va" "of_nat (length xs)"] l True by (simp add: word_size word_le_nat_alt)
    then have "\<not> unat ((a - va) - of_nat (length xs)) < length ys" using assms by simp
    then show ?thesis unfolding uwrite_def e using True by (simp add: nth_append)
  next
    case False
    then have "of_nat (length xs) \<le> a - va" using l by (simp add: word_le_nat_alt)
    then have "unat ((a - va) - of_nat (length xs)) = unat (a - va) - length xs" using l by (simp add: unat_sub)
    then show ?thesis unfolding uwrite_def e using False by (auto simp: nth_append)
  qed
qed

lemma copyin_spec:
  fixes s :: "'z kproc_scheme"
  assumes "uproc_ok s xs root sz"
  shows "\<exists>r bs s' xs'. copyin root va len es s = Ok (r, bs) s' es \<and> uproc_ok s' xs' root sz \<and>
    vm_mono (mem s) (mem s') root \<and> uview (mem s') root sz = uview (mem s) root sz \<and> length bs \<le> len \<and>
    map Some bs = uread (uview (mem s) root sz) va (length bs) \<and>
    (r = 0 \<and> length bs = len \<or>
     r = - 1 \<and> length bs < len \<and> (uview (mem s) root sz (va + of_nat (length bs)) = None \<or>
       length xs' \<le> 1 \<and> vpte (mem s) root (page_no (va + of_nat (length bs))) AND PTE_V = 0))"
  using assms
proof (induction len arbitrary: va s xs rule: less_induct)
  case (less len)
  show ?case
  proof (cases "len = 0")
    case True
    then show ?thesis using less.prems
      by (intro exI [of _ 0] exI [of _ "[]"] exI [of _ s] exI [of _ xs]) (simp add: copyin.simps uread_def)
  next
    case False
    from user_page_spec [OF less.prems, of va es] obtain pa t ys where
      u: "user_page root (PGROUNDDOWN va) es s = Ok pa t es" "uproc_ok t ys root sz"
        "uview (mem t) root sz = uview (mem s) root sz" "vm_mono (mem s) (mem t) root"
      and pa: "pa = 0 \<and> (uview (mem s) root sz va = None \<or> length ys \<le> 1 \<and> vpte (mem s) root (page_no va) AND PTE_V = 0) \<or>
         pa \<noteq> 0 \<and> va < MAXVA \<and> vpte (mem t) root (page_no va) AND PTE_V \<noteq> 0 \<and>
         vpte (mem t) root (page_no va) AND PTE_U \<noteq> 0 \<and> pa = PTE2PA (vpte (mem t) root (page_no va))"
      by blast
    let ?n = "min (page_rest va) len" and ?bs = "bytes_at (mem t) (pa + (va - PGROUNDDOWN va)) (min (page_rest va) len)"
    have run: "copyin root va len es s =
      kif (pa = 0) (kret (- 1, [])) (kbind (copyin root (PGROUNDDOWN va + 4096) (len - ?n)) (\<lambda>(r, cs).
        kret (r, ?bs @ cs))) es t"
      using u(1) False unfolding user_page_def
      by (subst copyin.simps) (auto elim!: kbind_OkE split: if_splits simp: kif_def)
    show ?thesis
    proof (cases "pa = 0")
      case True
      then show ?thesis using run pa u False
        by (intro exI [of _ "- 1"] exI [of _ "[]"] exI [of _ t] exI [of _ ys]) (simp add: uread_def)
    next
      case pa0: False
      have bs: "map Some ?bs = uread (uview (mem s) root sz) va ?n" "length ?bs = ?n"
        unfolding u(3) [symmetric] using pa pa0 uview_page [of va "mem t" root _ sz]
        by (auto simp: uread_def bytes_at_def)
      have "len - ?n < len" using False page_rest_bounds(1) [of va] by linarith
      from less.IH [OF this u(2), of "PGROUNDDOWN va + 4096"] obtain r cs s' xs' where
        c: "copyin root (PGROUNDDOWN va + 4096) (len - ?n) es t = Ok (r, cs) s' es" "uproc_ok s' xs' root sz"
          "uview (mem s') root sz = uview (mem t) root sz" "length cs \<le> len - ?n"
          "map Some cs = uread (uview (mem t) root sz) (PGROUNDDOWN va + 4096) (length cs)"
          "r = 0 \<and> length cs = len - ?n \<or> r = - 1 \<and> length cs < len - ?n \<and>
           (uview (mem t) root sz (PGROUNDDOWN va + 4096 + of_nat (length cs)) = None \<or> length xs' \<le> 1 \<and>
            vpte (mem t) root (page_no (PGROUNDDOWN va + 4096 + of_nat (length cs))) AND PTE_V = 0)"
          "vm_mono (mem t) (mem s') root"
        by blast
      have n: "?n = page_rest va" if "cs \<noteq> [] \<or> length cs < len - ?n" using that c(4) by (cases cs) auto
      have v: "va + of_nat ?n = PGROUNDDOWN va + 4096" if "cs \<noteq> [] \<or> length cs < len - ?n"
        using n [OF that] page_rest_next [of va] by simp
      have "map Some cs = uread (uview (mem s) root sz) (va + of_nat ?n) (length cs)"
        using c(5) u(3) v by (cases cs) (auto simp: uread_def)
      then have "map Some (?bs @ cs) = uread (uview (mem s) root sz) va (length (?bs @ cs))"
        using bs by (simp add: uread_add)
      moreover have "uview (mem s) root sz (va + of_nat (length (?bs @ cs))) = None \<or>
        length xs' \<le> 1 \<and> vpte (mem s) root (page_no (va + of_nat (length (?bs @ cs)))) AND PTE_V = 0"
        if "length cs < len - ?n"
      proof -
        have "va + of_nat (length (?bs @ cs)) = PGROUNDDOWN va + 4096 + of_nat (length cs)"
          using v [OF disjI2 [OF that]] bs(2) by (simp add: add.assoc [symmetric])
        then show ?thesis using c(6) u(3,4) that unfolding vm_mono_def by (metis less_irrefl)
      qed
      ultimately show ?thesis using run pa0 c u(3) bs(2) vm_mono_trans [OF u(4) c(7)]
        by (intro exI [of _ r] exI [of _ "?bs @ cs"] exI [of _ s'] exI [of _ xs']) auto
    qed
  qed
qed

lemma diff_in_page:
  fixes a va p :: uint64
  assumes "a = p + of_nat k" "va = p + of_nat off" "k < 4096" "off + n \<le> 4096"
  shows "unat (a - va) < n \<longleftrightarrow> off \<le> k \<and> k - off < n" "off \<le> k \<Longrightarrow> unat (a - va) = k - off"
proof -
  have n: "n \<le> 2 ^ LENGTH(64)" using assms(4) by simp
  have "a = va + of_nat i \<longleftrightarrow> k = off + i" if "i < n" for i
  proof -
    have "(of_nat k :: uint64) = of_nat (off + i) \<longleftrightarrow> k = off + i"
      using assms(3,4) that by (intro of_nat_word_inj) simp_all
    then show ?thesis by (simp add: assms(1,2) add.assoc)
  qed
  then have "unat (a - va) < n \<longleftrightarrow> (\<exists>i < n. k = off + i)"
    unfolding unat_diff_less_iff [OF n] by blast
  then show "unat (a - va) < n \<longleftrightarrow> off \<le> k \<and> k - off < n" by (auto simp: le_iff_add)
  show "unat (a - va) = k - off" if "off \<le> k"
  proof -
    have "a - va = of_nat (k - off)" using that assms by simp
    then show ?thesis using assms(3) by (simp only: unat_of_nat) simp
  qed
qed

lemma write_in_page:
  assumes "page_aligned pa" "off + length bs \<le> 4096"
  shows "k < 4096 \<Longrightarrow> write_bytes m (pa + of_nat off) bs (pa + of_nat k) =
      (if off \<le> k \<and> k - off < length bs then bs ! (k - off) else m (pa + of_nat k))"
    "agree_outside {page_no pa} m (write_bytes m (pa + of_nat off) bs)"
proof -
  have len: "length bs \<le> 2 ^ LENGTH(64)" using assms(2) by simp
  show "write_bytes m (pa + of_nat off) bs (pa + of_nat k) =
      (if off \<le> k \<and> k - off < length bs then bs ! (k - off) else m (pa + of_nat k))" if k: "k < 4096"
    using diff_in_page [OF refl refl k assms(2), of pa] by (auto simp: write_bytes_def)
  show "agree_outside {page_no pa} m (write_bytes m (pa + of_nat off) bs)"
    unfolding agree_outside_def
  proof (intro allI impI)
    fix a assume a: "page_no a \<notin> {page_no pa}"
    have "\<not> unat (a - (pa + of_nat off)) < length bs"
    proof
      assume "unat (a - (pa + of_nat off)) < length bs"
      then obtain i where "i < length bs" "a = pa + of_nat off + of_nat i"
        unfolding unat_diff_less_iff [OF len] by blast
      then have "a = pa + of_nat (off + i)" "off + i < 4096" using assms(2) by auto
      then show False using a page_no_add [OF assms(1), of "off + i"] by simp
    qed
    then show "write_bytes m (pa + of_nat off) bs a = m a" by (rule write_bytes_outside)
  qed
qed

lemma uproc_ok_user_page:
  assumes ok: "uproc_ok s xs root sz" and p: "p \<in> upages (mem s) root {0..<npg sz}"
    and ag: "agree_outside {page_no p} (mem s) m"
  shows "uproc_ok (s\<lparr>mem := m\<rparr>) xs root sz" "vpte m root = vpte (mem s) root"
proof -
  have uvm: "uvm_ok s xs root {0..<npg sz}" using ok by (simp add: uproc_ok_def)
  have vm: "vm_ok s xs root" by (rule uvm_ok_vm [OF uvm])
  have pal: "page_aligned p" using uvm p by (auto simp: uvm_ok_def intro: valid_page_aligned)
  have pn: "page_no x \<noteq> page_no p" if "x \<in> pt_pages (mem s) root \<union> set xs" for x
    using that uvm p vm_ok_pages [OF vm that] page_no_inj [OF _ pal] by (auto simp: uvm_ok_def)
  have wf: "pt_wf (kend s) (mem s) root" and km: "kmem_ok s xs" using vm by (simp_all add: vm_ok_def)
  have d: "page_no ` pt_pages (mem s) root \<inter> {page_no p} = {}" using pn by fastforce
  note pt = pt_agree [OF wf ag d]
  show v: "vpte m root = vpte (mem s) root" by (rule pt(3))
  have "kmem_ok (s\<lparr>mem := m\<rparr>) xs"
    by (rule kmem_ok_cong [OF km, where P = "{page_no p}"]) (use km ag pn in \<open>auto simp: kmem_ok_def\<close>)
  then have "vm_ok (s\<lparr>mem := m\<rparr>) xs root" using vm pt by (simp add: vm_ok_def)
  then have "uvm_ok (s\<lparr>mem := m\<rparr>) xs root {0..<npg sz}"
    using uvm_ok_same [OF uvm, of "s\<lparr>mem := m\<rparr>" xs "{}"] pt by simp
  then show "uproc_ok (s\<lparr>mem := m\<rparr>) xs root sz" using ok v by (simp add: uproc_ok_def)
qed

lemma user_page_valid:
  "uvm_ok s xs root D \<Longrightarrow> upage (mem s) root n = Some p \<Longrightarrow> n \<in> D \<Longrightarrow> valid_page (kend s) p"
  by (auto simp: uvm_ok_def upages_def)

lemma uview_other_page:
  assumes ok: "uproc_ok s xs root sz" and ag: "agree_outside {page_no p} (mem s) m"
    and v: "vpte m root = vpte (mem s) root" and p: "upage (mem s) root n = Some p" "n < npg sz" "page_no a \<noteq> n"
  shows "uview m root sz a = uview (mem s) root sz a"
proof (cases "vpte (mem s) root (page_no a) AND PTE_V \<noteq> 0 \<and> vpte (mem s) root (page_no a) AND PTE_U \<noteq> 0")
  case True
  let ?q = "PTE2PA (vpte (mem s) root (page_no a))"
  note q = user_pte_page [OF ok, of "page_no a"]
  have uvm: "uvm_ok s xs root {0..<npg sz}" using ok by (simp add: uproc_ok_def)
  have "upage (mem s) root (page_no a) = Some ?q" using True by (simp add: upage_def)
  then have "?q \<noteq> p" using uvm p q(1) True unfolding uvm_ok_def by (metis atLeast0LessThan lessThan_iff)
  moreover have "page_aligned p" using user_page_valid [OF uvm p(1)] p(2) by (simp add: valid_page_def)
  ultimately have "page_no ?q \<noteq> page_no p" using q(3) True page_no_inj valid_page_aligned by blast
  then have "page_no (?q + of_nat (unat a mod 4096)) \<noteq> page_no p"
    using q(3) True by (simp add: page_no_add valid_page_aligned)
  then have "m (?q + of_nat (unat a mod 4096)) = mem s (?q + of_nat (unat a mod 4096))"
    using ag by (simp add: agree_outside_def)
  then show ?thesis by (simp add: uview_def v Let_def)
qed (auto simp: uview_def v Let_def)

lemma page_no_less_MAXVA: "va < MAXVA \<Longrightarrow> page_no a = page_no va \<Longrightarrow> a < MAXVA"
proof -
  assume "va < MAXVA" "page_no a = page_no va"
  then have "unat a div 4096 < 0x4000000"
    by (simp add: page_no_def PGSIZE_def word_less_nat_alt MAXVA_eq less_mult_imp_div_less)
  then show ?thesis by (simp add: word_less_nat_alt MAXVA_eq)
qed

lemma copyout_write:
  assumes ok: "uproc_ok s xs root sz" and va: "va < MAXVA"
    and pte: "vpte (mem s) root (page_no va) AND PTE_V \<noteq> 0" "vpte (mem s) root (page_no va) AND PTE_U \<noteq> 0"
    and len: "length bs \<le> page_rest va"
  defines "pa \<equiv> PTE2PA (vpte (mem s) root (page_no va))"
  defines "m \<equiv> write_bytes (mem s) (pa + (va - PGROUNDDOWN va)) bs"
  shows "uproc_ok (s\<lparr>mem := m\<rparr>) xs root sz" "vpte m root = vpte (mem s) root"
    "uview m root sz = uwrite (uview (mem s) root sz) va bs"
proof -
  have uvm: "uvm_ok s xs root {0..<npg sz}" using ok by (simp add: uproc_ok_def)
  note pg = user_pte_page [OF ok pte, folded pa_def]
  have pal: "page_aligned pa" using pg(3) by (rule valid_page_aligned)
  let ?off = "unat va mod 4096"
  have off: "va - PGROUNDDOWN va = of_nat ?off" using page_offset(1) [of va, symmetric] by simp
  have fit: "?off + length bs \<le> 4096" using len by (simp add: page_rest_eq)
  have w: "agree_outside {page_no pa} (mem s) m" "m (pa + of_nat k) =
      (if ?off \<le> k \<and> k - ?off < length bs then bs ! (k - ?off) else mem s (pa + of_nat k))" if "k < 4096" for k
    using write_in_page [OF pal fit] that by (simp_all add: m_def off)
  note up = uproc_ok_user_page [OF ok pg(2) w(1) [of 0, simplified]]
  show "uproc_ok (s\<lparr>mem := m\<rparr>) xs root sz" by (rule up(1))
  show "vpte m root = vpte (mem s) root" by (rule up(2))
  show "uview m root sz = uwrite (uview (mem s) root sz) va bs"
  proof (rule ext)
    fix a
    show "uview m root sz a = uwrite (uview (mem s) root sz) va bs a"
    proof (cases "page_no a = page_no va")
      case True
      let ?k = "unat a mod 4096"
      have dec: "a = PGROUNDDOWN a + of_nat ?k" "va = PGROUNDDOWN va + of_nat ?off"
        using page_offset(1) [of a, symmetric] page_offset(1) [of va, symmetric] by simp_all
      have rd: "PGROUNDDOWN a = PGROUNDDOWN va"
        using True by (simp add: word_unat_eq_iff unat_PGROUNDDOWN page_no_def)
      have "a < MAXVA" using va True by (rule page_no_less_MAXVA)
      then have u: "uview m' root sz a = Some (m' (pa + of_nat ?k))" if "vpte m' root = vpte (mem s) root" for m'
        using pte True that by (simp add: uview_def pa_def)
      have "unat (a - va) < length bs \<longleftrightarrow> ?off \<le> ?k \<and> ?k - ?off < length bs"
        "?off \<le> ?k \<Longrightarrow> unat (a - va) = ?k - ?off"
        using diff_in_page [of a "PGROUNDDOWN va" ?k va ?off, OF dec(1) [unfolded rd] dec(2) _ fit] by simp_all
      then show ?thesis using w(2) [of ?k] by (auto simp: uwrite_def u up(2))
    next
      case False
      have "\<not> unat (a - va) < length bs"
      proof
        assume *: "unat (a - va) < length bs"
        then have "a = va + of_nat (unat (a - va))" "unat (a - va) < page_rest va" using len by simp_all
        then show False using False page_rest_addr(2) [of "unat (a - va)" va] by simp
      qed
      moreover have "uview m root sz a = uview (mem s) root sz a"
        by (rule uview_other_page [OF ok w(1) [of 0, simplified] up(2) _ pg(1) False]) (use pte in \<open>simp_all add: upage_def pa_def\<close>)
      ultimately show ?thesis by (simp add: uwrite_def)
    qed
  qed
qed

lemma copyout_round:
  assumes ok: "uproc_ok s xs root sz" and bs: "bs \<noteq> []"
  shows "\<exists>t ys. uproc_ok t ys root sz \<and> vm_mono (mem s) (mem t) root \<and>
    (copyout root va bs es s = Ok (- 1) t es \<and> uview (mem t) root sz = uview (mem s) root sz \<and>
       (uview (mem s) root sz va = None \<or> length ys \<le> 1 \<and> vpte (mem s) root (page_no va) AND PTE_V = 0 \<or>
        vpte (mem t) root (page_no va) AND PTE_W = 0) \<or>
     copyout root va bs es s = copyout root (va + of_nat (page_rest va)) (drop (page_rest va) bs) es t \<and>
       vpte (mem t) root (page_no va) AND PTE_V \<noteq> 0 \<and>
       uview (mem t) root sz = uwrite (uview (mem s) root sz) va (take (page_rest va) bs))"
proof (cases "PGROUNDDOWN va \<ge> MAXVA")
  case True
  then have "va \<ge> MAXVA" using page_offset(2) [of va] by order
  then have "uview (mem s) root sz va = None" by (simp add: uview_def)
  then show ?thesis using ok bs True by (intro exI [of _ s] exI [of _ xs]) (simp add: copyout.simps)
next
  case va0: False
  from user_page_spec [OF ok, of va es] obtain pa t ys where
    u: "user_page root (PGROUNDDOWN va) es s = Ok pa t es" "uproc_ok t ys root sz"
      "uview (mem t) root sz = uview (mem s) root sz" "vm_mono (mem s) (mem t) root"
    and pa: "pa = 0 \<and> (uview (mem s) root sz va = None \<or> length ys \<le> 1 \<and> vpte (mem s) root (page_no va) AND PTE_V = 0) \<or>
       pa \<noteq> 0 \<and> va < MAXVA \<and> vpte (mem t) root (page_no va) AND PTE_V \<noteq> 0 \<and>
       vpte (mem t) root (page_no va) AND PTE_U \<noteq> 0 \<and> pa = PTE2PA (vpte (mem t) root (page_no va))"
    by blast
  have vm: "vm_ok t ys root" using u(2) by (auto simp: uproc_ok_def intro: uvm_ok_vm)
  have lt: "PGROUNDDOWN va < MAXVA" using va0 by simp
  from walk_spec [OF vm lt, of False es] obtain p where
    w: "walk root (PGROUNDDOWN va) False es t = Ok p t es"
      "walk_result t ys root (page_no (PGROUNDDOWN va)) False p" by blast
  let ?w = "write_bytes (mem t) (pa + (va - PGROUNDDOWN va)) (take (page_rest va) bs)"
  let ?v = "vpte (mem t) root (page_no va)"
  have v: "?v = (if p = 0 then 0 else load64 (mem t) p)"
    using walk_result_vpte [OF w(2) page_no_MAXVA [OF lt]] by simp
  have "copyout root va bs es s =
    kif (pa = 0) (kret (- 1))
    (kbind (walk root (PGROUNDDOWN va) False) (\<lambda>pte.
     kthen (kpanic_if (\<lambda>_. pte = 0) ''kerneltrap'')
    (kbind (kget (\<lambda>s. load64 (mem s) pte)) (\<lambda>v.
     kif (v AND PTE_W = 0) (kret (- 1))
    (kthen (kmod (\<lambda>s. s\<lparr>mem := write_bytes (mem s) (pa + (va - PGROUNDDOWN va)) (take (page_rest va) bs)\<rparr>))
           (copyout root (PGROUNDDOWN va + 4096) (drop (page_rest va) bs))))))) es t"
    using u(1) bs va0 unfolding user_page_def by (subst copyout.simps) (auto elim!: kbind_OkE)
  then have run: "copyout root va bs es s = (if pa = 0 \<or> ?v AND PTE_W = 0 then Ok (- 1) t es
    else copyout root (va + of_nat (page_rest va)) (drop (page_rest va) bs) es (t\<lparr>mem := ?w\<rparr>))"
    using w(1) v pa by (cases "pa = 0") (auto simp: page_rest_next kif_def)
  show ?thesis
  proof (cases "pa = 0 \<or> ?v AND PTE_W = 0")
    case True
    then show ?thesis using run u pa by (intro exI [of _ t] exI [of _ ys]) auto
  next
    case False
    then have "uproc_ok (t\<lparr>mem := ?w\<rparr>) ys root sz" "vpte ?w root = vpte (mem t) root"
      "uview ?w root sz = uwrite (uview (mem t) root sz) va (take (page_rest va) bs)"
      using copyout_write [OF u(2), of va "take (page_rest va) bs"] pa by auto
    then show ?thesis using run False u(3,4) pa
      by (intro exI [of _ "t\<lparr>mem := ?w\<rparr>"] exI [of _ ys]) (simp add: vm_mono_def)
  qed
qed

lemma copyout_spec:
  fixes s :: "'z kproc_scheme"
  assumes "uproc_ok s xs root sz" "length bs < 2 ^ 64"
  shows "\<exists>r k s' xs'. copyout root va bs es s = Ok r s' es \<and> uproc_ok s' xs' root sz \<and> k \<le> length bs \<and>
    vm_mono (mem s) (mem s') root \<and> uview (mem s') root sz = uwrite (uview (mem s) root sz) va (take k bs) \<and>
    (\<forall>i < k. vpte (mem s') root (page_no (va + of_nat i)) AND PTE_V \<noteq> 0) \<and>
    (r = 0 \<and> k = length bs \<or>
     r = - 1 \<and> k < length bs \<and> (uview (mem s') root sz (va + of_nat k) = None \<or>
       length xs' \<le> 1 \<and> vpte (mem s) root (page_no (va + of_nat k)) AND PTE_V = 0 \<or>
       vpte (mem s') root (page_no (va + of_nat k)) AND PTE_W = 0))"
  using assms
proof (induction "length bs" arbitrary: va bs s xs rule: less_induct)
  case less
  let ?n = "page_rest va"
  show ?case
  proof (cases "bs = []")
    case True
    then show ?thesis using less.prems(1)
      by (intro exI [of _ 0] exI [of _ "0::nat"] exI [of _ s] exI [of _ xs]) (simp add: copyout.simps)
  next
    case False
    from copyout_round [OF less.prems(1) False, of va es] show ?thesis
    proof (elim exE conjE disjE)
      fix t ys assume t: "uproc_ok t ys root sz"
        "copyout root va bs es s = copyout root (va + of_nat ?n) (drop ?n bs) es t"
        "uview (mem t) root sz = uwrite (uview (mem s) root sz) va (take ?n bs)"
        "vm_mono (mem s) (mem t) root" "vpte (mem t) root (page_no va) AND PTE_V \<noteq> 0"
      have "length (drop ?n bs) < length bs" using False by simp
      moreover have "length (drop ?n bs) < 2 ^ 64" using less.prems(2) by simp
      ultimately obtain r k s' xs' where
        c: "copyout root (va + of_nat ?n) (drop ?n bs) es t = Ok r s' es" "uproc_ok s' xs' root sz" "k \<le> length bs - ?n"
          "uview (mem s') root sz = uwrite (uview (mem t) root sz) (va + of_nat ?n) (take k (drop ?n bs))"
          "r = 0 \<and> k = length bs - ?n \<or> r = - 1 \<and> k < length bs - ?n \<and>
           (uview (mem s') root sz (va + of_nat ?n + of_nat k) = None \<or>
            length xs' \<le> 1 \<and> vpte (mem t) root (page_no (va + of_nat ?n + of_nat k)) AND PTE_V = 0 \<or>
            vpte (mem s') root (page_no (va + of_nat ?n + of_nat k)) AND PTE_W = 0)"
          "vm_mono (mem t) (mem s') root"
          "\<forall>i < k. vpte (mem s') root (page_no (va + of_nat ?n + of_nat i)) AND PTE_V \<noteq> 0"
        using less.hyps [OF _ t(1), of "drop ?n bs" "va + of_nat ?n"] unfolding length_drop by blast
      have "uview (mem s') root sz = uwrite (uview (mem s) root sz) va (take (?n + k) bs)"
      proof (cases "k = 0")
        case True
        then show ?thesis using c(4) t(3) by simp
      next
        case False
        then have "length (take ?n bs) = ?n" "?n + k \<le> length bs" using c(3) by auto
        then show ?thesis
          unfolding c(4) t(3) take_add using uwrite_append [of "take ?n bs" "take k (drop ?n bs)"] less.prems(2) by simp
      qed
      moreover have "vpte (mem s') root (page_no (va + of_nat i)) AND PTE_V \<noteq> 0" if "i < ?n + k" for i
      proof (cases "i < ?n")
        case True
        then show ?thesis using t(5) c(6) page_rest_addr(2) [OF True] by (simp add: vm_mono_def)
      next
        case False
        then have "va + of_nat i = va + of_nat ?n + of_nat (i - ?n)" by simp
        moreover have "i - ?n < k" using that False by simp
        ultimately show ?thesis using c(7) by metis
      qed
      moreover have "vpte (mem s) root n AND PTE_V = 0" if "vpte (mem t) root n AND PTE_V = 0" for n
        using t(4) that unfolding vm_mono_def by metis
      ultimately show ?thesis using t(2) c vm_mono_trans [OF t(4) c(6)]
        by (intro exI [of _ r] exI [of _ "min (?n + k) (length bs)"] exI [of _ s'] exI [of _ xs'])
          (auto simp: add.assoc min_def)
    qed (use False in \<open>(intro exI [of _ "- 1"] exI [of _ "0::nat"], force)+\<close>)
  qed
qed

section \<open>Strings\<close>

lemma copyinstr_page_spec:
  "copyinstr_page m p n = (bs, got) \<Longrightarrow>
   length bs \<le> n \<and> bs = bytes_at m p (length bs) \<and>
   (if got then bs \<noteq> [] \<and> last bs = 0 \<and> 0 \<notin> set (butlast bs) else length bs = n \<and> 0 \<notin> set bs)"
proof (induction n arbitrary: p bs)
  case (Suc n)
  have shift: "bytes_at m p (Suc k) = m p # bytes_at m (p + 1) k" for k
    by (rule nth_equalityI) (auto simp: nth_Cons' add.assoc)
  show ?case
  proof (cases "m p = 0")
    case True
    then show ?thesis using Suc.prems shift [of 0] by (auto simp: bytes_at_def)
  next
    case False
    then obtain cs where "copyinstr_page m (p + 1) n = (cs, got)" "bs = m p # cs"
      using Suc.prems by (auto split: prod.splits)
    with Suc.IH [of "p + 1" cs] False show ?thesis by (auto simp: shift split: if_splits)
  qed
qed (simp add: bytes_at_def)

lemma copyinstr_spec:
  fixes s :: "'z kproc_scheme"
  assumes "uproc_ok s xs root sz"
  shows "\<exists>r bs. copyinstr root va maxlen es s = Ok (r, bs) s es \<and> length bs \<le> maxlen \<and>
    map Some bs = uread (uview (mem s) root sz) va (length bs) \<and>
    (r = 0 \<and> bs \<noteq> [] \<and> last bs = 0 \<and> 0 \<notin> set (butlast bs) \<or>
     r = - 1 \<and> 0 \<notin> set bs \<and> (length bs = maxlen \<or> va + of_nat (length bs) \<ge> MAXVA \<or>
       vpte (mem s) root (page_no (va + of_nat (length bs))) AND PTE_V = 0 \<or>
       vpte (mem s) root (page_no (va + of_nat (length bs))) AND PTE_U = 0))"
proof (induction maxlen arbitrary: va rule: less_induct)
  case (less maxlen)
  show ?case
  proof (cases "maxlen = 0")
    case True
    then show ?thesis by (simp add: copyinstr.simps uread_def)
  next
    case False
    let ?v = "vpte (mem s) root (page_no va)" and ?n = "min (page_rest va) maxlen"
    have vm: "vm_ok s xs root" using assms by (auto simp: uproc_ok_def intro: uvm_ok_vm)
    have lt: "PGROUNDDOWN va < MAXVA \<longleftrightarrow> va < MAXVA"
      by (auto simp: word_less_nat_alt unat_PGROUNDDOWN PGSIZE_def MAXVA_eq)
    note wa = walkaddr_spec [OF vm, of "PGROUNDDOWN va" es, simplified lt, simplified]
    show ?thesis
    proof (cases "va < MAXVA \<and> ?v AND PTE_V \<noteq> 0 \<and> ?v AND PTE_U \<noteq> 0")
      case bad: False
      then have "copyinstr root va maxlen es s = Ok (- 1, []) s es"
        using wa False by (subst copyinstr.simps) auto
      then show ?thesis using bad by (auto simp: uread_def not_less)
    next
      case True
      then have nz: "PTE2PA ?v \<noteq> 0"
        using user_pte_page(3) [OF assms, of "page_no va"] by (simp add: valid_page_def)
      let ?p = "PTE2PA ?v + (va - PGROUNDDOWN va)"
      obtain bs got where pg: "copyinstr_page (mem s) ?p ?n = (bs, got)" by (cases "copyinstr_page (mem s) ?p ?n")
      note b = copyinstr_page_spec [OF pg]
      have rd: "map Some bs = uread (uview (mem s) root sz) va (length bs)"
      proof -
        have "map Some (bytes_at (mem s) ?p k) = uread (uview (mem s) root sz) va k" if "k \<le> page_rest va" for k
          using that True uview_page [of va "mem s" root _ sz] by (auto simp: uread_def bytes_at_def)
        from this [of "length bs"] b show ?thesis by simp
      qed
      have run: "copyinstr root va maxlen es s =
        kif got (kret (0, bs)) (kbind (copyinstr root (PGROUNDDOWN va + 4096) (maxlen - ?n)) (\<lambda>(r, cs).
          kret (r, bs @ cs))) es s"
        using wa False True nz pg by (subst copyinstr.simps) simp
      show ?thesis
      proof (cases got)
        case True
        then show ?thesis using run b rd by auto
      next
        case g: False
        have "maxlen - ?n < maxlen" using False page_rest_bounds(1) [of va] by linarith
        from less.IH [OF this, of "PGROUNDDOWN va + 4096"] show ?thesis
        proof (elim exE conjE)
          fix r cs
          assume c: "copyinstr root (PGROUNDDOWN va + 4096) (maxlen - ?n) es s = Ok (r, cs) s es"
            "length cs \<le> maxlen - ?n"
            "map Some cs = uread (uview (mem s) root sz) (PGROUNDDOWN va + 4096) (length cs)"
            "r = 0 \<and> cs \<noteq> [] \<and> last cs = 0 \<and> 0 \<notin> set (butlast cs) \<or>
             r = - 1 \<and> 0 \<notin> set cs \<and> (length cs = maxlen - ?n \<or> PGROUNDDOWN va + 4096 + of_nat (length cs) \<ge> MAXVA \<or>
               vpte (mem s) root (page_no (PGROUNDDOWN va + 4096 + of_nat (length cs))) AND PTE_V = 0 \<or>
               vpte (mem s) root (page_no (PGROUNDDOWN va + 4096 + of_nat (length cs))) AND PTE_U = 0)"
          have n: "length bs = ?n" using b g by simp
          have nx: "PGROUNDDOWN va + 4096 = va + of_nat (length bs)" if "?n < maxlen"
            using that n page_rest_next [of va] by simp
          have 1: "map Some (bs @ cs) = uread (uview (mem s) root sz) va (length (bs @ cs))"
          proof (cases "?n < maxlen")
            case True
            then show ?thesis using rd c(3) nx by (simp add: uread_add)
          next
            case False
            then show ?thesis using rd c(2) by simp
          qed
          have 2: "va + of_nat (length (bs @ cs)) = PGROUNDDOWN va + 4096 + of_nat (length cs)" if "?n < maxlen"
            using nx [OF that] by simp
          have 3: "0 \<notin> set bs" using b g by simp
          show ?thesis
          proof (cases "?n < maxlen")
            case True
            have "length cs = maxlen - ?n \<longleftrightarrow> length (bs @ cs) = maxlen" using True n by auto
            note c4 = c(4) [unfolded this 2 [OF True, symmetric]]
            have "length (bs @ cs) \<le> maxlen" using c(2) n True by simp
            then show ?thesis using run g c(1) 1 3 c4
              by (intro exI [of _ r] exI [of _ "bs @ cs"]) (auto simp: butlast_append simp del: of_nat_add length_append)
          next
            case full: False
            then show ?thesis using run g c 1 n 3 by (intro exI [of _ r] exI [of _ "bs @ cs"]) auto
          qed
        qed
      qed
    qed
  qed
qed

section \<open>Correctness\<close>

text \<open>
  A small process for the examples: one page of memory, mapped readable and writable at address
  0 by a page table of three pages, and no page free.
\<close>

definition copy_page :: "nat \<Rightarrow> addr" where "copy_page i = PHYSTOP - 4096 * of_nat i"

definition copy_mem :: memory where
  "copy_mem =
     store64 (store64 (store64 (\<lambda>_. 0)
       (copy_page 5) (PA2PTE (copy_page 2) OR PTE_V))
       (copy_page 2) (PA2PTE (copy_page 3) OR PTE_V))
       (copy_page 3) (PA2PTE (copy_page 4) OR (PTE_W OR PTE_U OR PTE_R) OR PTE_V)"

definition copy_vm :: kproc where
  "copy_vm = \<lparr>held = [], kout = [], mem = copy_mem, freelist = 0, kend = KERNBASE,
     procs = (\<lambda>_. \<lparr>pstate = RUNNING, pchan = None, pkilled = False, xstate = 0, pid = 1, parent = None,
       kstack = 0, psz = 4096, pagetable = copy_page 5, trapframe = 0, pcontext = (\<lambda>_. 0),
       ofile = (\<lambda>_. None), cwd = None, pname = (\<lambda>_. 0)\<rparr>),
     cur = Some 0, initproc = None, nextpid = 2, slocks = (\<lambda>_. \<lparr>slocked = False, slpid = 0\<rparr>),
     kernel_pagetable = 0, trampoline = 0, etext = 0, forkret_addr = 0\<rparr>"

lemma copy_vm_mem [simp]: "mem copy_vm = copy_mem"
  by (simp add: copy_vm_def)

lemma copy_page_valid:
  assumes "0 < i" "i \<le> 5" shows "valid_page KERNBASE (copy_page i)"
proof -
  have "i = 1 \<or> i = 2 \<or> i = 3 \<or> i = 4 \<or> i = 5" using assms by linarith
  then show ?thesis
    by (auto simp: valid_page_def copy_page_def page_aligned_def PGSIZE_def PHYSTOP_eq KERNBASE_def)
qed

lemma copy_page_distinct:
  "copy_page 5 \<noteq> copy_page 2" "copy_page 5 \<noteq> copy_page 3" "copy_page 2 \<noteq> copy_page 3"
  "copy_page 4 \<notin> {copy_page 5, copy_page 2, copy_page 3}"
  by (simp_all add: copy_page_def PHYSTOP_eq)

lemma copy_mem_pt:
  "pt_wf KERNBASE copy_mem (copy_page 5)" "pt_pages copy_mem (copy_page 5) = {copy_page 5, copy_page 2, copy_page 3}"
  "vpte copy_mem (copy_page 5) = (\<lambda>_. 0)(0 := PA2PTE (copy_page 4) OR (PTE_W OR PTE_U OR PTE_R) OR PTE_V)"
proof -
  let ?m1 = "store64 (\<lambda>_. 0) (copy_page 5) (PA2PTE (copy_page 2) OR PTE_V)"
  let ?m2 = "store64 ?m1 (copy_page 2) (PA2PTE (copy_page 3) OR PTE_V)"
  let ?r = "copy_page 5"
  have z: "pt_wf KERNBASE (\<lambda>_. 0) ?r" by (rule pt_wf_zero) (simp add: copy_page_valid)
  note d = copy_page_distinct
  have v: "valid_page KERNBASE (copy_page 5)" "valid_page KERNBASE (copy_page 2)" "valid_page KERNBASE (copy_page 3)"
    by (simp_all add: copy_page_valid)
  have s0: "slot (\<lambda>_. 0) a j = 0" for a j by (simp add: slot_def load64_zero)
  note e1 = pt_extend [OF z, of "[]" ?r 0 "copy_page 2" "\<lambda>_. 0", simplified, OF s0 [THEN arg_cong [of _ _ "\<lambda>x. x AND PTE_V"], simplified] v(2) _ s0]
  have n1: "pt_node ?m1 ?r q = (if q = [0] then Some (copy_page 2) else if q = [] then Some ?r else None)"
    "pt_wf KERNBASE ?m1 ?r" "pt_pages ?m1 ?r = {copy_page 2, ?r}" "vpte ?m1 ?r = (\<lambda>_. 0)" if "length q \<le> 2" for q
    using e1 d that by (auto simp: pt_node_zero fun_eq_iff)
  have al: "page_aligned (copy_page 5)" "page_aligned (copy_page 2)" "page_aligned (copy_page 3)"
    using v by (simp_all add: valid_page_aligned)
  have s1: "slot ?m1 a j = (if a = copy_page 5 \<and> j = 0 then PA2PTE (copy_page 2) OR PTE_V else 0)"
    if "page_aligned a" "j < 512" for a j
    using slot_store [OF al(1) that(1) _ that(2), of 0 "\<lambda>_. 0"] s0 by simp
  have z1: "slot ?m1 (copy_page 2) 0 AND PTE_V = 0" "\<And>j. j < 512 \<Longrightarrow> slot ?m1 (copy_page 3) j = 0"
    using s1 al d by simp_all
  have c3: "copy_page 3 \<notin> pt_pages ?m1 ?r" using n1(3) [of "[]"] d by simp
  have p2: "pt_node ?m1 ?r [0] = Some (copy_page 2)" using n1(1) [of "[0]"] by simp
  note e2 = pt_extend [OF n1(2) [of "[]", simplified] p2 _ _ z1(1) v(3) c3 agree_outside_refl z1(2), simplified]
  have n2: "pt_node ?m2 ?r [0, 0] = Some (copy_page 3)" "pt_wf KERNBASE ?m2 ?r"
    "pt_pages ?m2 ?r = {copy_page 3, copy_page 2, ?r}" "vpte ?m2 ?r = (\<lambda>_. 0)"
    using e2(1) [of "[0, 0]"] e2(2-) n1(3,4) [of "[]"] by (simp_all del: pt_node.simps)
  have path: "pt_node ?m2 ?r (pt_path 0) = Some (copy_page 3)"
    using n2(1) by (simp add: pt_path_def del: pt_node.simps)
  note l = pt_leaf_store [OF n2(2) path, of "PA2PTE (copy_page 4) OR (PTE_W OR PTE_U OR PTE_R) OR PTE_V",
      simplified, folded copy_mem_def]
  show "pt_wf KERNBASE copy_mem (copy_page 5)"
    "pt_pages copy_mem (copy_page 5) = {copy_page 5, copy_page 2, copy_page 3}"
    "vpte copy_mem (copy_page 5) = (\<lambda>_. 0)(0 := PA2PTE (copy_page 4) OR (PTE_W OR PTE_U OR PTE_R) OR PTE_V)"
    using l n2(3,4) by auto
qed

lemma copy_vm_ok: "uproc_ok copy_vm [] (copy_page 5) 4096"
proof -
  let ?v = "PA2PTE (copy_page 4) OR (PTE_W OR PTE_U OR PTE_R) OR PTE_V"
  have v: "valid_page KERNBASE (copy_page 4)" by (simp add: copy_page_valid)
  have perm: "PTE_W OR PTE_U OR PTE_R < 1024" by (simp add: PTE_W_def PTE_U_def PTE_R_def)
  have pa: "PTE2PA ?v = copy_page 4"
    using PTE2PA_leaf [OF valid_page_aligned [OF v] valid_page_56 [OF v] perm] .
  have up: "upage copy_mem (copy_page 5) = (\<lambda>n. if n = 0 then Some (copy_page 4) else None)"
    using pa pte_valid_leaf by (auto simp: upage_def copy_mem_pt(3))
  have n: "npg 4096 = 1" by (simp add: npg_def)
  have "upages copy_mem (copy_page 5) {0..<npg 4096} = {copy_page 4}" by (auto simp: upages_def up n)
  then have "uvm_ok copy_vm [] (copy_page 5) {0..<npg 4096}"
    using v copy_mem_pt(1,2) copy_page_distinct(4)
    by (simp add: uvm_ok_def vm_ok_def kmem_ok_def copy_vm_def up)
  moreover have "cur copy_vm = Some 0" "pagetable (procs copy_vm 0) = copy_page 5" "psz (procs copy_vm 0) = 4096"
    by (simp_all add: copy_vm_def)
  ultimately show ?thesis
    using pte_valid_leaf by (simp add: uproc_ok_def MAXVA_eq copy_mem_pt(3) n)
qed


lemma copy_list: "length [1, 2, 3 :: byte] = 3" "(3 :: nat) < 2 ^ 64 \<longleftrightarrow> True"
  by simp_all


text \<open>
  C13: what \<open>copyout\<close> put into the user's memory, \<open>copyin\<close> of the same range gets back, whatever
  page boundaries the range crosses, and it does not change what the user sees.
\<close>

theorem copyin_copyout_roundtrip:
  fixes s :: "'z kproc_scheme"
  assumes "uproc_ok s xs root sz" "length bs < 2 ^ 64" "copyout root va bs es s = Ok 0 s1 es1"
  shows "\<exists>s2. copyin root va (length bs) es1 s1 = Ok (0, bs) s2 es1 \<and>
    uview (mem s2) root sz = uview (mem s1) root sz"
proof -
  from copyout_spec [OF assms(1,2), of va es] assms(3) obtain xs1 where
    o: "uproc_ok s1 xs1 root sz" "uview (mem s1) root sz = uwrite (uview (mem s) root sz) va bs"
      "\<forall>i < length bs. vpte (mem s1) root (page_no (va + of_nat i)) AND PTE_V \<noteq> 0" "es1 = es" by auto
  from copyin_spec [OF o(1), of va "length bs" es1] obtain r cs s2 xs2 where
    i: "copyin root va (length bs) es1 s1 = Ok (r, cs) s2 es1" "uview (mem s2) root sz = uview (mem s1) root sz"
      "length cs \<le> length bs" "map Some cs = uread (uview (mem s1) root sz) va (length cs)"
      "r = 0 \<and> length cs = length bs \<or> length cs < length bs \<and> (uview (mem s1) root sz (va + of_nat (length cs)) = None \<or>
        vpte (mem s1) root (page_no (va + of_nat (length cs))) AND PTE_V = 0)" by blast
  have "uview (mem s1) root sz (va + of_nat k) = Some (bs ! k)" if "k < length bs" for k
    using that assms(2) unfolding o(2) uwrite_def by (simp add: unat_of_nat)
  then have "r = 0" "length cs = length bs" using i(5) o(3) by auto
  moreover have "cs = bs"
    using i(4) uread_uwrite [OF assms(2)] o(2) \<open>length cs = length bs\<close> by (metis list.inj_map_strong option.inject)
  ultimately show ?thesis using i(1,2) by auto
qed

theorem copyin_copyout_roundtrip_witness:
  "\<exists>s1 s2. copyout (copy_page 5) 0x10 [1, 2, 3] [] copy_vm = Ok 0 s1 [] \<and>
     copyin (copy_page 5) 0x10 3 [] s1 = Ok (0, [1, 2, 3]) s2 []"
proof -
  have pn: "page_no (0x10 + of_nat k) = 0" if "k < 3" for k :: nat
  proof -
    have "k = 0 \<or> k = 1 \<or> k = 2" using that by linarith
    then show ?thesis by (auto simp: page_no_def PGSIZE_def)
  qed
  let ?v = "PA2PTE (copy_page 4) OR (PTE_W OR PTE_U OR PTE_R) OR PTE_V"
  have bits: "?v AND PTE_V \<noteq> 0" "?v AND PTE_U \<noteq> 0" "?v AND PTE_W \<noteq> 0"
    by (simp_all add: and_flag_eq_0_iff bit_or_iff bit_flag_iff)
  from copyout_spec [OF copy_vm_ok, of "[1, 2, 3]" "0x10" "[]"] obtain r k s1 xs1 where
    o: "copyout (copy_page 5) 0x10 [1, 2, 3] [] copy_vm = Ok r s1 []" "k \<le> 3" "vm_mono copy_mem (mem s1) (copy_page 5)"
      "r = 0 \<or> k < 3 \<and> (uview (mem s1) (copy_page 5) 4096 (0x10 + of_nat k) = None \<or>
         vpte copy_mem (copy_page 5) (page_no (0x10 + of_nat k)) AND PTE_V = 0 \<or>
         vpte (mem s1) (copy_page 5) (page_no (0x10 + of_nat k)) AND PTE_W = 0)"
    unfolding copy_vm_mem by (simp only: copy_list) blast
  have v: "vpte (mem s1) (copy_page 5) 0 = ?v" using o(3) bits by (simp add: vm_mono_def copy_mem_pt(3))
  have "uview (mem s1) (copy_page 5) 4096 (0x10 + of_nat k) \<noteq> None" if "k < 3"
  proof -
    have "(0 :: uint64) < MAXVA" "page_no (0 :: uint64) = 0" by (simp_all add: MAXVA_eq page_no_def)
    then have "0x10 + of_nat k < MAXVA" using page_no_less_MAXVA [of 0 "0x10 + of_nat k"] pn [OF that] by metis
    then show ?thesis using pn [OF that] v bits by (simp add: uview_def)
  qed
  moreover have "vpte copy_mem (copy_page 5) 0 = ?v" by (simp add: copy_mem_pt(3))
  ultimately have "r = 0" using o(4) pn v bits by metis
  then show ?thesis using copyin_copyout_roundtrip [OF copy_vm_ok, of "[1, 2, 3]" "0x10" "[]"] o(1)
    by (auto simp: numeral_3_eq_3)
qed

text \<open>
  C14: \<open>copyinstr\<close> gives the user's bytes up to and including the first NUL and returns 0, or
  returns -1; then the first \<open>max\<close> bytes hold no NUL, or it met an address with no page mapped
  for the user. It never allocates: the state is as before.
\<close>

theorem copyinstr_correct:
  fixes s :: "'z kproc_scheme"
  assumes "uproc_ok s xs root sz"
  shows "\<exists>r bs. copyinstr root va maxlen es s = Ok (r, bs) s es \<and> length bs \<le> maxlen \<and>
    map Some bs = uread (uview (mem s) root sz) va (length bs) \<and>
    (r = 0 \<and> bs \<noteq> [] \<and> last bs = 0 \<and> 0 \<notin> set (butlast bs) \<or>
     r = - 1 \<and> 0 \<notin> set bs \<and> (length bs = maxlen \<or> va + of_nat (length bs) \<ge> MAXVA \<or>
       vpte (mem s) root (page_no (va + of_nat (length bs))) AND PTE_V = 0 \<or>
       vpte (mem s) root (page_no (va + of_nat (length bs))) AND PTE_U = 0))"
  using copyinstr_spec [OF assms] .

theorem copyinstr_correct_witness:
  "\<exists>r bs. copyinstr (copy_page 5) 0xff0 128 [] copy_vm = Ok (r, bs) copy_vm [] \<and> length bs \<le> 128 \<and>
    map Some bs = uread (uview copy_mem (copy_page 5) 4096) 0xff0 (length bs)"
  using copyinstr_correct [OF copy_vm_ok, of "0xff0" 128 "[]"] unfolding copy_vm_mem by blast

end
