(* ===== verification/Xv6_Bio.thy ===== *)
theory Xv6_Bio
  imports Xv6_Copy
begin

text \<open>
  The buffer cache (\<open>kernel/bio.c\<close>, \<open>kernel/buf.h\<close>). The buffers are numbered from 0, and number
  \<open>NBUF\<close> is the list head \<open>bcache.head\<close>; the doubly linked list of the C code is kept link by link.
  The contents of a block, on the disk and in a buffer, are a function from the offset, of which
  the offsets below \<open>BSIZE\<close> exist; a block is always transferred and copied whole.

  \<open>disk_rw\<close> is the contract of the disk driver's \<open>virtio_disk_rw\<close>: when it returns, the block has
  been read or written. \<open>dtrace\<close> records the writes in the order they reached the disk, so that
  one can speak of the disk a crash leaves behind.
\<close>

definition BSIZE :: nat where "BSIZE = 1024"
definition NBUF :: nat where "NBUF = 30"
definition ROOTDEV :: uint32 where "ROOTDEV = 1"

abbreviation BHEAD :: nat where "BHEAD \<equiv> NBUF"

record buf =
  bvalid :: bool
  bdisk :: bool
  bdev :: uint32
  blockno :: uint32
  refcnt :: uint32
  bprev :: nat
  bnext :: nat
  bdata :: memory

record kbio = kproc +
  bufs :: "nat \<Rightarrow> buf"
  disk :: "uint32 \<Rightarrow> memory"
  dtrace :: "(uint32 \<times> memory) list"

definition set_buf :: "nat \<Rightarrow> (buf \<Rightarrow> buf) \<Rightarrow> ('z kbio_scheme, unit) km" where
  "set_buf b f = kmod (\<lambda>s. s\<lparr>bufs := (bufs s)(b := f (bufs s b))\<rparr>)"

definition buf_get :: "nat \<Rightarrow> (buf \<Rightarrow> 'a) \<Rightarrow> ('z kbio_scheme, 'a) km" where
  "buf_get b f = kget (\<lambda>s. f (bufs s b))"

definition disk_rw :: "nat \<Rightarrow> bool \<Rightarrow> ('z kbio_scheme, unit) km" where
  "disk_rw b write =
     kmod (\<lambda>s. if write
       then s\<lparr>disk := (disk s)(blockno (bufs s b) := bdata (bufs s b)),
              dtrace := dtrace s @ [(blockno (bufs s b), bdata (bufs s b))]\<rparr>
       else s\<lparr>bufs := (bufs s)(b := (bufs s b)\<lparr>bdata := disk s (blockno (bufs s b))\<rparr>)\<rparr>)"

section \<open>The operations\<close>

text \<open>Putting a buffer at the front of the list, as \<open>binit\<close> and \<open>brelse\<close> do.\<close>

definition push_front :: "nat \<Rightarrow> ('z kbio_scheme, unit) km" where
  "push_front b =
     kbind (buf_get BHEAD bnext) (\<lambda>n.
     kthen (set_buf b (\<lambda>q. q\<lparr>bnext := n\<rparr>))
    (kthen (set_buf b (\<lambda>q. q\<lparr>bprev := BHEAD\<rparr>))
    (kbind (buf_get BHEAD bnext) (\<lambda>n.
     kthen (set_buf n (\<lambda>q. q\<lparr>bprev := b\<rparr>))
           (set_buf BHEAD (\<lambda>q. q\<lparr>bnext := b\<rparr>))))))"

definition binit_one :: "nat \<Rightarrow> ('z kbio_scheme, unit) km" where
  "binit_one b = kthen (initsleeplock (BufSleep b)) (push_front b)"

definition binit :: "('z kbio_scheme, unit) km" where
  "binit =
     kthen (klock_init BcacheLock)
    (kthen (set_buf BHEAD (\<lambda>q. q\<lparr>bprev := BHEAD\<rparr>))
    (kthen (set_buf BHEAD (\<lambda>q. q\<lparr>bnext := BHEAD\<rparr>))
    (kfor [0..<NBUF] binit_one)))"

text \<open>
  The two searches of \<open>bget\<close>. They follow the links until they come back to the head; the fuel
  bounds the walk, and running out of it stands for a walk that never comes back. The list has
  \<open>NBUF\<close> buffers, so that \<open>Suc NBUF\<close> is enough.
\<close>

definition kstuck :: "('s, 'a) km" where
  "kstuck es s = Asleep s"

primrec bget_cached :: "nat \<Rightarrow> uint32 \<Rightarrow> uint32 \<Rightarrow> nat \<Rightarrow> ('z kbio_scheme, nat option) km" where
  "bget_cached 0 dev bno b = kstuck"
| "bget_cached (Suc fuel) dev bno b =
     kif (b = BHEAD) (kret None)
    (kbind (buf_get b id) (\<lambda>q.
     kif (bdev q = dev \<and> blockno q = bno) (kret (Some b))
         (bget_cached fuel dev bno (bnext q))))"

primrec bget_unused :: "nat \<Rightarrow> nat \<Rightarrow> ('z kbio_scheme, nat option) km" where
  "bget_unused 0 b = kstuck"
| "bget_unused (Suc fuel) b =
     kif (b = BHEAD) (kret None)
    (kbind (buf_get b id) (\<lambda>q.
     kif (refcnt q = 0) (kret (Some b))
         (bget_unused fuel (bprev q))))"

definition bget :: "uint32 \<Rightarrow> uint32 \<Rightarrow> ('z kbio_scheme, nat) km" where
  "bget dev bno =
     kthen (acquire BcacheLock)
    (kbind (buf_get BHEAD bnext) (\<lambda>b.
     kbind (bget_cached (Suc NBUF) dev bno b) (\<lambda>c. case c of
       Some b \<Rightarrow>
         kthen (set_buf b (\<lambda>q. q\<lparr>refcnt := refcnt q + 1\<rparr>))
        (kthen (release BcacheLock)
        (kthen (acquiresleep (BufSleep b))
               (kret b)))
     | None \<Rightarrow>
         kbind (buf_get BHEAD bprev) (\<lambda>b.
         kbind (bget_unused (Suc NBUF) b) (\<lambda>c. case c of
           Some b \<Rightarrow>
             kthen (set_buf b (\<lambda>q. q\<lparr>bdev := dev\<rparr>))
            (kthen (set_buf b (\<lambda>q. q\<lparr>blockno := bno\<rparr>))
            (kthen (set_buf b (\<lambda>q. q\<lparr>bvalid := False\<rparr>))
            (kthen (set_buf b (\<lambda>q. q\<lparr>refcnt := 1\<rparr>))
            (kthen (release BcacheLock)
            (kthen (acquiresleep (BufSleep b))
                   (kret b))))))
         | None \<Rightarrow> kpanic ''bget: no buffers'')))))"

definition bread :: "uint32 \<Rightarrow> uint32 \<Rightarrow> ('z kbio_scheme, nat) km" where
  "bread dev bno =
     kbind (bget dev bno) (\<lambda>b.
     kbind (buf_get b bvalid) (\<lambda>v.
     kthen (if v then kret ()
            else kthen (disk_rw b False) (set_buf b (\<lambda>q. q\<lparr>bvalid := True\<rparr>)))
           (kret b)))"

definition bwrite :: "nat \<Rightarrow> ('z kbio_scheme, unit) km" where
  "bwrite b =
     kbind (holdingsleep (BufSleep b)) (\<lambda>h.
     kthen (kpanic_if (\<lambda>_. \<not> h) ''bwrite'')
           (disk_rw b True))"

definition brelse :: "nat \<Rightarrow> ('z kbio_scheme, unit) km" where
  "brelse b =
     kbind (holdingsleep (BufSleep b)) (\<lambda>h.
     kthen (kpanic_if (\<lambda>_. \<not> h) ''brelse'')
    (kthen (releasesleep (BufSleep b))
    (kthen (acquire BcacheLock)
    (kthen (set_buf b (\<lambda>q. q\<lparr>refcnt := refcnt q - 1\<rparr>))
    (kbind (buf_get b refcnt) (\<lambda>r.
     kthen (if r = 0
            then kbind (buf_get b id) (\<lambda>q.
                 kthen (set_buf (bnext q) (\<lambda>x. x\<lparr>bprev := bprev q\<rparr>))
                (kbind (buf_get b id) (\<lambda>q.
                 kthen (set_buf (bprev q) (\<lambda>x. x\<lparr>bnext := bnext q\<rparr>))
                       (push_front b))))
            else kret ())
           (release BcacheLock)))))))"

definition bpin :: "nat \<Rightarrow> ('z kbio_scheme, unit) km" where
  "bpin b =
     kthen (acquire BcacheLock)
    (kthen (set_buf b (\<lambda>q. q\<lparr>refcnt := refcnt q + 1\<rparr>))
           (release BcacheLock))"

definition bunpin :: "nat \<Rightarrow> ('z kbio_scheme, unit) km" where
  "bunpin b =
     kthen (acquire BcacheLock)
    (kthen (set_buf b (\<lambda>q. q\<lparr>refcnt := refcnt q - 1\<rparr>))
           (release BcacheLock))"

lemma kbio_upd_commute [simp]: "s\<lparr>slocks := l, bufs := f\<rparr> = s\<lparr>bufs := f, slocks := l\<rparr>"
  by simp

lemma set_buf_Ok [simp]: "set_buf b f es s = Ok () (s\<lparr>bufs := (bufs s)(b := f (bufs s b))\<rparr>) es"
  by (simp add: set_buf_def)

lemma buf_get_Ok [simp]: "buf_get b f es s = Ok (f (bufs s b)) s es"
  by (simp add: buf_get_def)

lemma disk_rw_Ok [simp]:
  "disk_rw b True es s = Ok () (s\<lparr>disk := (disk s)(blockno (bufs s b) := bdata (bufs s b)),
      dtrace := dtrace s @ [(blockno (bufs s b), bdata (bufs s b))]\<rparr>) es"
  "disk_rw b False es s = Ok () (s\<lparr>bufs := (bufs s)(b := (bufs s b)\<lparr>bdata := disk s (blockno (bufs s b))\<rparr>)\<rparr>) es"
  by (simp_all add: disk_rw_def)

section \<open>The list\<close>

text \<open>
  \<open>linked f ys\<close>: each element of \<open>ys\<close> is linked to the next one in both directions. The list of
  buffers \<open>xs\<close> is linked into a ring through the head.
\<close>

fun linked :: "(nat \<Rightarrow> buf) \<Rightarrow> nat list \<Rightarrow> bool" where
  "linked f (a # b # ys) \<longleftrightarrow> bnext (f a) = b \<and> bprev (f b) = a \<and> linked f (b # ys)"
| "linked f _ \<longleftrightarrow> True"

definition lru :: "(nat \<Rightarrow> buf) \<Rightarrow> nat list \<Rightarrow> bool" where
  "lru f xs \<longleftrightarrow> distinct (BHEAD # xs) \<and> linked f (BHEAD # xs @ [BHEAD])"

lemma linked_cong:
  "(\<And>x. x \<in> set (butlast ys) \<Longrightarrow> bnext (f x) = bnext (g x)) \<Longrightarrow>
   (\<And>x. x \<in> set (tl ys) \<Longrightarrow> bprev (f x) = bprev (g x)) \<Longrightarrow> linked f ys = linked g ys"
  by (induction f ys rule: linked.induct) auto

lemma linked_join:
  "linked f (as @ [a]) \<Longrightarrow> linked f (b # bs) \<Longrightarrow> bnext (f a) = b \<Longrightarrow> bprev (f b) = a \<Longrightarrow> linked f (as @ a # b # bs)"
proof (induction as)
  case (Cons x as)
  then show ?case by (cases as) auto
qed simp

lemma linked_split: "linked f (as @ a # bs) \<Longrightarrow> linked f (as @ [a]) \<and> linked f (a # bs)"
proof (induction as)
  case (Cons x as)
  then show ?case by (cases as) auto
qed simp

lemma bget_cached_Ok:
  assumes "linked (bufs s) (a # ys @ [BHEAD])" "BHEAD \<notin> set ys" "length ys < fuel"
  shows "bget_cached fuel dev bno (hd (ys @ [BHEAD])) es s =
    Ok (List.find (\<lambda>b. bdev (bufs s b) = dev \<and> blockno (bufs s b) = bno) ys) s es"
  using assms
proof (induction ys arbitrary: a fuel)
  case Nil
  then show ?case by (cases fuel) simp_all
next
  case (Cons y ys)
  then obtain n where n: "fuel = Suc n" by (cases fuel) auto
  have "bnext (bufs s y) = hd (ys @ [BHEAD])" using Cons.prems(1) by (cases ys) auto
  then show ?case using Cons.IH [of y n] Cons.prems n by (auto simp: kif_def)
qed

lemma bget_unused_Ok:
  assumes "linked (bufs s) (BHEAD # ys @ [a])" "BHEAD \<notin> set ys" "length ys < fuel"
  shows "bget_unused fuel (last (BHEAD # ys)) es s =
    Ok (List.find (\<lambda>b. refcnt (bufs s b) = 0) (rev ys)) s es"
  using assms
proof (induction ys arbitrary: a fuel rule: rev_induct)
  case Nil
  then show ?case by (cases fuel) simp_all
next
  case (snoc y ys)
  then obtain n where n: "fuel = Suc n" by (cases fuel) auto
  have l: "linked (bufs s) (BHEAD # ys @ [y])" using snoc.prems(1) linked_split [of "bufs s" "BHEAD # ys" y "[a]"] by simp
  have "linked (bufs s) ((butlast (BHEAD # ys)) @ last (BHEAD # ys) # [y])" using l
    by (metis append.assoc append_Cons append_Nil append_butlast_last_id list.distinct(1))
  then have "bprev (bufs s y) = last (BHEAD # ys)" using linked_split [of "bufs s" "butlast (BHEAD # ys)"] by fastforce
  then show ?case using snoc.IH [OF l, of n] snoc.prems n by (auto simp: kif_def)
qed

text \<open>The two list updates.\<close>

definition push_links :: "(nat \<Rightarrow> buf) \<Rightarrow> nat \<Rightarrow> nat \<Rightarrow> buf" where
  "push_links f b =
     (let n = bnext (f BHEAD);
          f1 = f(b := (f b)\<lparr>bnext := n, bprev := BHEAD\<rparr>);
          m = bnext (f1 BHEAD);
          f2 = f1(m := (f1 m)\<lparr>bprev := b\<rparr>)
      in f2(BHEAD := (f2 BHEAD)\<lparr>bnext := b\<rparr>))"

lemma push_front_Ok: "push_front b es s = Ok () (s\<lparr>bufs := push_links (bufs s) b\<rparr>) es"
  by (simp add: push_front_def push_links_def Let_def)

lemma lru_push:
  assumes "lru f xs" "b \<notin> set xs" "b \<noteq> BHEAD"
  shows "lru (push_links f b) (b # xs)"
proof -
  let ?g = "push_links f b" and ?n = "hd (xs @ [BHEAD])"
  have n: "bnext (f BHEAD) = ?n" using assms(1) by (cases xs) (auto simp: lru_def)
  have nb: "?n \<noteq> b" using assms by (cases xs) auto
  have nx: "bnext (?g x) = (if x = BHEAD then b else if x = b then ?n else bnext (f x))" for x
    using assms(3) n nb by (simp add: push_links_def Let_def)
  have pv: "bprev (?g x) = (if x = ?n then b else if x = b then BHEAD else bprev (f x))" for x
    using assms(3) n nb by (simp add: push_links_def Let_def)
  have d: "distinct (BHEAD # xs)" and l: "linked f (BHEAD # xs @ [BHEAD])" using assms(1) by (simp_all add: lru_def)
  have "linked f (xs @ [BHEAD])" using l by (cases xs) auto
  moreover have "linked f (xs @ [BHEAD]) = linked ?g (xs @ [BHEAD])"
    by (rule linked_cong; cases xs) (use d assms(2,3) in \<open>auto simp: nx pv\<close>)
  ultimately have "linked ?g (xs @ [BHEAD])" by simp
  then have "linked ?g (BHEAD # b # xs @ [BHEAD])"
    using nx [of BHEAD] nx [of b] pv [of b] pv [of ?n] assms(3) nb by (cases xs) auto
  then show ?thesis using d assms(2,3) by (auto simp: lru_def)
qed

definition unlink :: "(nat \<Rightarrow> buf) \<Rightarrow> nat \<Rightarrow> nat \<Rightarrow> buf" where
  "unlink f b =
     (let f1 = f(bnext (f b) := (f (bnext (f b)))\<lparr>bprev := bprev (f b)\<rparr>)
      in f1(bprev (f1 b) := (f1 (bprev (f1 b)))\<lparr>bnext := bnext (f1 b)\<rparr>))"

lemma lru_unlink:
  assumes "lru f (xs @ b # ys)"
  shows "lru (unlink f b) (xs @ ys)"
proof -
  let ?g = "unlink f b"
  obtain zs p where p: "BHEAD # xs = zs @ [p]" by (metis rev_exhaust list.distinct(1))
  obtain n ns where n: "ys @ [BHEAD] = n # ns" by (cases ys) auto
  have d: "distinct (BHEAD # xs)" "distinct (b # ys)" "set xs \<inter> set ys = {}" "b \<notin> set xs" "b \<noteq> BHEAD" "BHEAD \<notin> set ys"
    using assms by (auto simp: lru_def)
  have "(BHEAD # xs) @ b # (ys @ [BHEAD]) = zs @ p # b # n # ns" by (simp only: p n) simp
  then have l: "linked f (zs @ p # b # n # ns)" using assms by (simp add: lru_def)
  note s = linked_split [OF l]
  have lb: "bnext (f b) = n" "bprev (f b) = p" using s by auto
  have sets: "set (zs @ [p]) = insert BHEAD (set xs)" "set (n # ns) = insert BHEAD (set ys)"
    using p n by (metis list.simps(15)) (metis n Un_insert_right list.set(1) list.simps(15) set_append sup_bot_right)
  have z: "distinct (zs @ [p])" using d(1) p by simp
  have y: "distinct (n # ns)" unfolding n [symmetric] using d(2,6) by simp
  have b: "b \<noteq> p" "b \<noteq> n" using sets d(2,4,5) by auto
  have ap: "p \<notin> set ys" "n \<notin> set xs" 
  proof -
    have "p \<in> insert BHEAD (set xs)" "n \<in> insert BHEAD (set ys)" unfolding sets [symmetric] by simp_all
    then show "p \<notin> set ys" "n \<notin> set xs" using d(1,3,6) by auto
  qed
  have nx: "bnext (?g x) = (if x = p then n else bnext (f x))"
    and pv: "bprev (?g x) = (if x = n then p else bprev (f x))" for x
    using lb b by (simp_all add: unlink_def Let_def)
  have "set (tl (zs @ [p])) = set xs" using p by (metis list.sel(3))
  then have 1: "linked ?g (zs @ [p])"
    using s z ap by (subst linked_cong [of _ ?g f]) (auto simp: nx pv dest: linked_split)
  have "set (butlast (n # ns)) = set ys" using n by (metis butlast_snoc)
  then have "linked ?g (n # ns)"
    using s y ap by (subst linked_cong [of _ ?g f]) (auto simp: nx pv simp del: butlast.simps)
  then have "linked ?g (zs @ p # n # ns)" using linked_join [OF 1] nx pv by simp
  moreover have "zs @ p # n # ns = BHEAD # (xs @ ys) @ [BHEAD]"
    using p n by (metis append.assoc append_Cons append_Nil)
  ultimately show ?thesis using d by (simp add: lru_def)
qed

section \<open>The cache as its callers see it\<close>

text \<open>
  The contents of a block as the file system sees them: those of a buffer that caches it, else
  those on the disk. There is one disk, \<open>ROOTDEV\<close>.
\<close>

definition caches :: "(nat \<Rightarrow> buf) \<Rightarrow> uint32 \<Rightarrow> nat \<Rightarrow> bool" where
  "caches f bno b \<longleftrightarrow> bdev (f b) = ROOTDEV \<and> blockno (f b) = bno"

definition lview :: "'z kbio_scheme \<Rightarrow> uint32 \<Rightarrow> memory" where
  "lview s bno =
     (case List.find (\<lambda>b. caches (bufs s) bno b \<and> bvalid (bufs s b)) [0..<NBUF] of
        Some b \<Rightarrow> bdata (bufs s b) | None \<Rightarrow> disk s bno)"

text \<open>
  The invariant of the cache between two calls of the running process: it has the buffers \<open>H\<close>
  locked, no one else has any, and \<open>pins\<close> counts the references that \<open>bpin\<close> took. A buffer is
  unused (never used so far, in fact) or caches a block that no other buffer caches; a valid
  buffer that no one refers to holds what is on the disk, so that it can be recycled.
\<close>

definition bio_inv :: "'z kbio_scheme \<Rightarrow> nat set \<Rightarrow> (nat \<Rightarrow> nat) \<Rightarrow> bool" where
  "bio_inv s H pins \<longleftrightarrow>
     (\<exists>xs. lru (bufs s) xs \<and> set xs = {0..<NBUF}) \<and>
     (\<forall>b < NBUF. bdev (bufs s b) = ROOTDEV \<or> bdev (bufs s b) = 0 \<and> \<not> bvalid (bufs s b) \<and> b \<notin> H \<and> pins b = 0) \<and>
     (\<forall>b < NBUF. \<forall>c < NBUF. \<forall>bno. caches (bufs s) bno b \<longrightarrow> caches (bufs s) bno c \<longrightarrow> b = c) \<and>
     H \<subseteq> {0..<NBUF} \<and>
     (\<forall>b < NBUF. slocked (slocks s (BufSleep b)) \<longleftrightarrow> b \<in> H) \<and>
     (\<forall>b \<in> H. \<forall>p. cur s = Some p \<longrightarrow> slpid (slocks s (BufSleep b)) = pid (procs s p)) \<and>
     (\<forall>b < NBUF. refcnt (bufs s b) = of_nat (pins b + (if b \<in> H then 1 else 0)) \<and> pins b < 1000) \<and>
     (\<forall>b < NBUF. (b \<in> H \<or> 0 < pins b) \<longrightarrow> bvalid (bufs s b)) \<and>
     (\<forall>b < NBUF. bvalid (bufs s b) \<longrightarrow> b \<notin> H \<longrightarrow> pins b = 0 \<longrightarrow> bdata (bufs s b) = disk s (blockno (bufs s b)))"

definition bio_free :: "'z kproc_scheme \<Rightarrow> bool" where
  "bio_free s \<longleftrightarrow> BcacheLock \<notin> set (held s) \<and> (\<forall>p. ProcLock p \<notin> set (held s)) \<and>
     (\<forall>lk. SleepLk lk \<notin> set (held s)) \<and> cur s \<noteq> None"

text \<open>What the operations may change at all.\<close>

definition bio_frame :: "'z kbio_scheme \<Rightarrow> 'z kbio_scheme \<Rightarrow> bool" where
  "bio_frame s t \<longleftrightarrow>
     t = s\<lparr>bufs := bufs t, slocks := slocks t, procs := procs t, disk := disk t, dtrace := dtrace t\<rparr> \<and>
     (\<forall>i. slocks t (InodeSleep i) = slocks s (InodeSleep i)) \<and>
     (\<forall>p. cur s = Some p \<longrightarrow> procs t p = procs s p)"

lemma bio_frame_refl [simp]: "bio_frame s s"
  by (simp add: bio_frame_def)

lemma bio_frame_trans:
  assumes "bio_frame s t" "bio_frame t u" shows "bio_frame s u"
proof -
  have t: "t = s\<lparr>bufs := bufs t, slocks := slocks t, procs := procs t, disk := disk t, dtrace := dtrace t\<rparr>"
    and u: "u = t\<lparr>bufs := bufs u, slocks := slocks u, procs := procs u, disk := disk u, dtrace := dtrace u\<rparr>"
    using assms by (simp_all add: bio_frame_def)
  have "u = s\<lparr>bufs := bufs u, slocks := slocks u, procs := procs u, disk := disk u, dtrace := dtrace u\<rparr>"
    by (subst u, subst t) simp
  moreover have "cur t = cur s" by (subst t) simp
  ultimately show ?thesis using assms by (auto simp: bio_frame_def)
qed

lemma bio_frame_simps:
  assumes "bio_frame s t"
  shows "held t = held s" "cur t = cur s" "mem t = mem s" "bio_free t = bio_free s"
proof -
  have t: "t = s\<lparr>bufs := bufs t, slocks := slocks t, procs := procs t, disk := disk t, dtrace := dtrace t\<rparr>"
    using assms by (simp add: bio_frame_def)
  show 1: "held t = held s" "cur t = cur s" by (subst t, simp)+
  show "mem t = mem s" by (subst t, simp)
  show "bio_free t = bio_free s" using 1 by (simp add: bio_free_def)
qed

lemma find_SomeD: "List.find P xs = Some x \<Longrightarrow> x \<in> set xs \<and> P x"
  by (induction xs) (auto split: if_splits)

lemma find_NoneD: "List.find P xs = None \<Longrightarrow> x \<in> set xs \<Longrightarrow> \<not> P x"
  by (induction xs) (auto split: if_splits)

lemma find_upt:
  assumes "b < n" "P b" "\<And>c. c < n \<Longrightarrow> P c \<Longrightarrow> c = b"
  shows "List.find P [0..<n] = Some b"
proof (cases "List.find P [0..<n]")
  case None
  then show ?thesis using find_NoneD [OF None, of b] assms(1,2) by simp
next
  case (Some c)
  then show ?thesis using find_SomeD [OF Some] assms(3) [of c] by simp
qed

lemma bio_inv_unique:
  "bio_inv s H pins \<Longrightarrow> b < NBUF \<Longrightarrow> c < NBUF \<Longrightarrow> caches (bufs s) bno b \<Longrightarrow> caches (bufs s) bno c \<Longrightarrow> b = c"
  unfolding bio_inv_def by blast

lemma lview_cached:
  assumes "bio_inv s H pins" "b < NBUF" "caches (bufs s) bno b" "bvalid (bufs s b)"
  shows "lview s bno = bdata (bufs s b)"
proof -
  have "List.find (\<lambda>b. caches (bufs s) bno b \<and> bvalid (bufs s b)) [0..<NBUF] = Some b"
    using assms bio_inv_unique [OF assms(1)] by (intro find_upt) blast+
  then show ?thesis by (simp add: lview_def)
qed

lemma lview_uncached:
  assumes "\<And>b. b < NBUF \<Longrightarrow> caches (bufs s) bno b \<Longrightarrow> \<not> bvalid (bufs s b)"
  shows "lview s bno = disk s bno"
proof -
  have "List.find (\<lambda>b. caches (bufs s) bno b \<and> bvalid (bufs s b)) [0..<NBUF] = None"
    using assms by (auto simp: find_None_iff)
  then show ?thesis by (simp add: lview_def)
qed

lemma bio_invD:
  assumes "bio_inv s H pins" "b < NBUF"
  shows "bdev (bufs s b) = ROOTDEV \<or> bdev (bufs s b) = 0 \<and> \<not> bvalid (bufs s b) \<and> b \<notin> H \<and> pins b = 0"
    "slocked (slocks s (BufSleep b)) \<longleftrightarrow> b \<in> H"
    "refcnt (bufs s b) = of_nat (pins b + (if b \<in> H then 1 else 0))" "pins b < 1000"
    "b \<in> H \<or> 0 < pins b \<Longrightarrow> bvalid (bufs s b) \<and> caches (bufs s) (blockno (bufs s b)) b"
    "bvalid (bufs s b) \<Longrightarrow> b \<notin> H \<Longrightarrow> pins b = 0 \<Longrightarrow> bdata (bufs s b) = disk s (blockno (bufs s b))"
  using assms unfolding bio_inv_def caches_def by blast+

lemma bio_inv_held: "bio_inv s H pins \<Longrightarrow> b \<in> H \<Longrightarrow> b < NBUF"
  by (auto simp: bio_inv_def)

lemma lru_links:
  assumes "lru f xs" "\<And>b. bnext (g b) = bnext (f b)" "\<And>b. bprev (g b) = bprev (f b)"
  shows "lru g xs"
  using assms linked_cong [of "BHEAD # xs @ [BHEAD]" g f] by (simp add: lru_def)

lemma lview_eqI:
  assumes inv: "bio_inv s H pins" "bio_inv t H' pins'" and d: "\<And>n. n \<noteq> bno \<Longrightarrow> disk t n = disk s n"
    and b: "b < NBUF" "caches (bufs t) bno b" "bvalid (bufs t b)"
    and same: "\<And>c. c < NBUF \<Longrightarrow> c \<noteq> b \<Longrightarrow> bdev (bufs t c) = bdev (bufs s c) \<and> blockno (bufs t c) = blockno (bufs s c) \<and>
      bvalid (bufs t c) = bvalid (bufs s c) \<and> bdata (bufs t c) = bdata (bufs s c)"
    and old: "\<not> caches (bufs s) bno b \<Longrightarrow> bvalid (bufs s b) \<Longrightarrow> bdata (bufs s b) = disk s (blockno (bufs s b))"
  shows "lview t = (lview s)(bno := bdata (bufs t b))"
proof (rule ext)
  fix n
  show "lview t n = ((lview s)(bno := bdata (bufs t b))) n"
  proof (cases "n = bno")
    case True
    then show ?thesis using lview_cached [OF inv(2) b] by simp
  next
    case False
    show ?thesis
    proof (cases "\<exists>c < NBUF. c \<noteq> b \<and> caches (bufs s) n c \<and> bvalid (bufs s c)")
      case True
      then obtain c where c: "c < NBUF" "c \<noteq> b" "caches (bufs s) n c" "bvalid (bufs s c)" by blast
      then have "caches (bufs t) n c" "bvalid (bufs t c)" using same [OF c(1,2)] by (simp_all add: caches_def)
      then show ?thesis using lview_cached [OF inv(2) c(1)] lview_cached [OF inv(1) c(1,3,4)] same [OF c(1,2)] False by simp
    next
      case no: False
      have "lview t n = disk t n"
        using no False b(2) same by (intro lview_uncached) (metis caches_def)
      moreover have "lview s n = disk s n"
      proof (cases "caches (bufs s) n b \<and> bvalid (bufs s b)")
        case True
        then have "lview s n = bdata (bufs s b)" using lview_cached [OF inv(1) b(1)] by blast
        then show ?thesis using True False old by (auto simp: caches_def)
      next
        case False
        then show ?thesis using no by (intro lview_uncached) metis
      qed
      ultimately show ?thesis using False d by simp
    qed
  qed
qed

lemma bio_inv_take:
  assumes inv: "bio_inv s H pins" and cur: "cur s = Some p" and b: "b < NBUF" "b \<notin> H"
    and q: "bdev q = ROOTDEV" "blockno q = bno" "bvalid q" "bdata q = lview s bno"
      "refcnt q = of_nat (pins b + 1)" "bnext q = bnext (bufs s b)" "bprev q = bprev (bufs s b)"
    and c: "caches (bufs s) bno b \<or> (\<forall>c < NBUF. \<not> caches (bufs s) bno c) \<and> pins b = 0"
    and t: "t = s\<lparr>bufs := (bufs s)(b := q),
      slocks := (slocks s)(BufSleep b := \<lparr>slocked = True, slpid = pid (procs s p)\<rparr>)\<rparr>"
  shows "bio_inv t (insert b H) pins" "lview t = lview s" "bio_frame s t"
proof -
  have bt: "bufs t = (bufs s)(b := q)" and st: "slocks t = (slocks s)(BufSleep b := \<lparr>slocked = True, slpid = pid (procs s p)\<rparr>)"
    and dt: "disk t = disk s" "cur t = cur s" "procs t = procs s" using t by simp_all
  obtain xs where xs: "lru (bufs s) xs" "set xs = {0..<NBUF}" using inv by (auto simp: bio_inv_def)
  have lt: "lru (bufs t) xs" by (rule lru_links [OF xs(1)]) (simp_all add: bt q)
  have uniq: "x = y" if "x < NBUF" "y < NBUF" "caches (bufs t) n x" "caches (bufs t) n y" for x y n
    using that c q(1,2) bio_inv_unique [OF inv, of _ _ n] b(1) unfolding bt caches_def
    by (auto split: if_splits)
  have slp: "slpid (slocks s (BufSleep x)) = pid (procs s p)" if "x \<in> H" for x
    using inv cur that unfolding bio_inv_def by blast
  note D = bio_invD [OF inv]
  have 1: "\<forall>x < NBUF. bdev (bufs t x) = ROOTDEV \<or> bdev (bufs t x) = 0 \<and> \<not> bvalid (bufs t x) \<and> x \<notin> insert b H \<and> pins x = 0"
    using D(1) q(1) unfolding bt by auto
  have 2: "\<forall>x < NBUF. slocked (slocks t (BufSleep x)) \<longleftrightarrow> x \<in> insert b H" using D(2) unfolding st by auto
  have 3: "\<forall>x \<in> insert b H. \<forall>p. cur t = Some p \<longrightarrow> slpid (slocks t (BufSleep x)) = pid (procs t p)"
    using slp cur unfolding st dt by auto
  have 4: "\<forall>x < NBUF. refcnt (bufs t x) = of_nat (pins x + (if x \<in> insert b H then 1 else 0)) \<and> pins x < 1000"
    using D(3,4) q(5) b(2) unfolding bt by auto
  have 5: "\<forall>x < NBUF. x \<in> insert b H \<or> 0 < pins x \<longrightarrow> bvalid (bufs t x)" using D(5) q(3) unfolding bt by auto
  have 6: "\<forall>x < NBUF. bvalid (bufs t x) \<longrightarrow> x \<notin> insert b H \<longrightarrow> pins x = 0 \<longrightarrow> bdata (bufs t x) = disk t (blockno (bufs t x))"
    using D(6) unfolding bt dt by auto
  have H: "insert b H \<subseteq> {0..<NBUF}" using inv b(1) by (auto simp: bio_inv_def)
  show inv': "bio_inv t (insert b H) pins"
    unfolding bio_inv_def using lt xs(2) uniq 1 2 3 4 5 6 H by blast
  have "lview t = (lview s)(bno := bdata (bufs t b))"
    by (rule lview_eqI [OF inv inv' _ b(1)])
      (use q c dt D(6) [OF b(1)] b in \<open>auto simp: bt caches_def\<close>)
  then show "lview t = lview s" by (simp add: bt q fun_upd_idem)
  show "bio_frame s t" unfolding bio_frame_def t by simp
qed

lemma bget_find:
  assumes inv: "bio_inv s H pins"
  shows "\<exists>xs. set xs = {0..<NBUF} \<and>
    (\<forall>h dev es. bget_cached (Suc NBUF) dev bno (bnext (bufs s BHEAD)) es (s\<lparr>held := h\<rparr>) =
       Ok (List.find (\<lambda>b. bdev (bufs s b) = dev \<and> blockno (bufs s b) = bno) xs) (s\<lparr>held := h\<rparr>) es) \<and>
    (\<forall>h es. bget_unused (Suc NBUF) (bprev (bufs s BHEAD)) es (s\<lparr>held := h\<rparr>) =
       Ok (List.find (\<lambda>b. refcnt (bufs s b) = 0) (rev xs)) (s\<lparr>held := h\<rparr>) es)"
proof -
  obtain xs where xs: "lru (bufs s) xs" "set xs = {0..<NBUF}" using inv by (auto simp: bio_inv_def)
  have d: "distinct xs" "BHEAD \<notin> set xs" and l: "linked (bufs s) (BHEAD # xs @ [BHEAD])"
    using xs(1) by (auto simp: lru_def)
  have len: "length xs = NBUF" using d(1) xs(2) by (metis card_atLeastLessThan diff_zero distinct_card)
  have n: "bnext (bufs s BHEAD) = hd (xs @ [BHEAD])" using l by (cases xs) auto
  have "linked (bufs s) (butlast (BHEAD # xs) @ last (BHEAD # xs) # [BHEAD])"
    using l by (metis append.assoc append_Cons append_Nil append_butlast_last_id list.distinct(1))
  then have p: "bprev (bufs s BHEAD) = last (BHEAD # xs)" using linked_split [of "bufs s" "butlast (BHEAD # xs)"] by fastforce
  have 1: "bget_cached (Suc NBUF) dev bno (bnext (bufs s BHEAD)) es (s\<lparr>held := h\<rparr>) =
    Ok (List.find (\<lambda>b. bdev (bufs s b) = dev \<and> blockno (bufs s b) = bno) xs) (s\<lparr>held := h\<rparr>) es" for h dev es
    unfolding n using bget_cached_Ok [of "s\<lparr>held := h\<rparr>" BHEAD xs "Suc NBUF" dev bno es] d l len by (simp del: bget_cached.simps)
  have 2: "bget_unused (Suc NBUF) (bprev (bufs s BHEAD)) es (s\<lparr>held := h\<rparr>) =
    Ok (List.find (\<lambda>b. refcnt (bufs s b) = 0) (rev xs)) (s\<lparr>held := h\<rparr>) es" for h es
    unfolding p using bget_unused_Ok [of "s\<lparr>held := h\<rparr>" xs BHEAD "Suc NBUF" es] d l len
    by (simp del: bget_unused.simps last.simps)
  show ?thesis using xs(2) 1 2 by blast
qed

lemma bio_pins_unused:
  assumes "bio_inv s H pins" "b < NBUF"
  shows "refcnt (bufs s b) = 0 \<longleftrightarrow> b \<notin> H \<and> pins b = 0"
proof -
  have "pins b + (if b \<in> H then 1 else 0) < 2 ^ LENGTH(32)" using bio_invD(4) [OF assms] by auto
  then have "(of_nat (pins b + (if b \<in> H then 1 else 0)) :: uint32) = of_nat 0 \<longleftrightarrow> pins b + (if b \<in> H then 1 else 0) = 0"
    by (intro of_nat_word_inj) simp_all
  then show ?thesis using bio_invD(3) [OF assms] by (auto split: if_splits)
qed

lemma bread_spec:
  assumes inv: "bio_inv s H pins" and free: "bio_free s" and nl: "\<And>b. b \<in> H \<Longrightarrow> blockno (bufs s b) \<noteq> bno"
    and room: "(\<exists>c < NBUF. caches (bufs s) bno c) \<or> (\<exists>c < NBUF. c \<notin> H \<and> pins c = 0)"
  shows "\<exists>b t. bread ROOTDEV bno es s = Ok b t es \<and> b < NBUF \<and> b \<notin> H \<and> bio_inv t (insert b H) pins \<and>
    caches (bufs t) bno b \<and> bdata (bufs t b) = lview s bno \<and> lview t = lview s \<and> bio_frame s t \<and>
    disk t = disk s \<and> dtrace t = dtrace s \<and> (\<forall>c. c \<noteq> b \<longrightarrow> bufs t c = bufs s c) \<and>
    (caches (bufs s) bno b \<or> pins b = 0)"
proof -
  obtain p where p: "cur s = Some p" using free by (auto simp: bio_free_def)
  have hl: "BcacheLock \<notin> set (held s)" "\<And>lk. SleepLk lk \<notin> set (held s)" using free by (auto simp: bio_free_def)
  obtain xs where xs: "set xs = {0..<NBUF}"
    and f: "\<forall>h dev es. bget_cached (Suc NBUF) dev bno (bnext (bufs s BHEAD)) es (s\<lparr>held := h\<rparr>) =
       Ok (List.find (\<lambda>b. bdev (bufs s b) = dev \<and> blockno (bufs s b) = bno) xs) (s\<lparr>held := h\<rparr>) es"
      "\<forall>h es. bget_unused (Suc NBUF) (bprev (bufs s BHEAD)) es (s\<lparr>held := h\<rparr>) =
       Ok (List.find (\<lambda>b. refcnt (bufs s b) = 0) (rev xs)) (s\<lparr>held := h\<rparr>) es"
    using bget_find [OF inv, of bno] by (elim exE conjE)
  define lk where "lk b = (slocks s)(BufSleep b := \<lparr>slocked = True, slpid = pid (procs s p)\<rparr>)" for b
  note D = bio_invD [OF inv]
  have acq: "acquiresleep (BufSleep b) es (s\<lparr>bufs := f\<rparr>) = Ok () (s\<lparr>bufs := f, slocks := lk b\<rparr>) es"
    if "b < NBUF" "b \<notin> H" for b f
    using acquiresleep_Ok [of "s\<lparr>bufs := f\<rparr>" p "BufSleep b" es] p D(2) [OF that(1)] that(2) hl(2) by (simp add: lk_def)
  let ?fin = "\<lambda>b q. s\<lparr>bufs := (bufs s)(b := q), slocks := lk b\<rparr>"
  show ?thesis
  proof (cases "List.find (\<lambda>b. bdev (bufs s b) = ROOTDEV \<and> blockno (bufs s b) = bno) xs")
    case (Some b)
    then have b: "b < NBUF" "caches (bufs s) bno b" using find_SomeD [OF Some] xs by (auto simp: caches_def)
    then have bH: "b \<notin> H" using nl by (auto simp: caches_def)
    define q where "q = (bufs s b)\<lparr>refcnt := refcnt (bufs s b) + 1, bdata := lview s bno, bvalid := True\<rparr>"
    have v: "lview s bno = (if bvalid (bufs s b) then bdata (bufs s b) else disk s bno)"
      using lview_cached [OF inv b] lview_uncached [of s bno] bio_inv_unique [OF inv _ b(1) _ b(2)] by auto
    have q': "(bufs s b)\<lparr>refcnt := refcnt (bufs s b) + 1\<rparr> = q" if "bvalid (bufs s b)"
      using that v by (cases "bufs s b") (simp add: q_def)
    have "bread ROOTDEV bno es s = Ok b (?fin b q) es"
    proof (cases "bvalid (bufs s b)")
      case True
      have "bvalid q" by (simp add: q_def)
      then show ?thesis using acq [OF b(1) bH] hl(1) Some f(1) b(2) q' [OF True]
        by (simp add: bread_def bget_def caches_def del: bget_cached.simps)
    next
      case False
      then show ?thesis using acq [OF b(1) bH] hl(1) Some f(1) b(2) v
        by (simp add: bread_def bget_def q_def caches_def del: bget_cached.simps)
    qed
    moreover note take = bio_inv_take [OF inv p b(1) bH, of q bno "?fin b q"]
    have "bio_inv (?fin b q) (insert b H) pins" "lview (?fin b q) = lview s" "bio_frame s (?fin b q)"
      by (rule take; use b bH D(3) [OF b(1)] in \<open>simp add: q_def lk_def caches_def\<close>)+
    ultimately show ?thesis using b bH
      by (intro exI [of _ b] exI [of _ "?fin b q"]) (simp add: q_def caches_def)
  next
    case None
    then have nc: "\<forall>c < NBUF. \<not> caches (bufs s) bno c" using find_NoneD [OF None] xs by (auto simp: caches_def)
    then obtain c where c: "c < NBUF" "refcnt (bufs s c) = 0" using room bio_pins_unused [OF inv] by blast
    then obtain b where fb: "List.find (\<lambda>b. refcnt (bufs s b) = 0) (rev xs) = Some b"
      using find_NoneD [of "\<lambda>b. refcnt (bufs s b) = 0" "rev xs" c] xs by fastforce
    then have b: "b < NBUF" "refcnt (bufs s b) = 0" using find_SomeD [OF fb] xs by auto
    then have bH: "b \<notin> H" "pins b = 0" using bio_pins_unused [OF inv] by auto
    define q where "q = (bufs s b)\<lparr>bdev := ROOTDEV, blockno := bno, refcnt := 1, bdata := lview s bno, bvalid := True\<rparr>"
    have v: "lview s bno = disk s bno" using nc by (intro lview_uncached) blast
    have "bread ROOTDEV bno es s = Ok b (?fin b q) es"
      using acq [OF b(1) bH(1)] hl(1) None fb f v
      by (simp add: bread_def bget_def q_def del: bget_cached.simps bget_unused.simps)
    moreover note take = bio_inv_take [OF inv p b(1) bH(1), of q bno "?fin b q"]
    have "bio_inv (?fin b q) (insert b H) pins" "lview (?fin b q) = lview s" "bio_frame s (?fin b q)"
      by (rule take; use bH nc in \<open>simp add: q_def lk_def\<close>)+
    ultimately show ?thesis using b bH
      by (intro exI [of _ b] exI [of _ "?fin b q"]) (simp add: q_def caches_def)
  qed
qed

lemma lview_clean:
  assumes inv: "bio_inv s H pins" and c: "\<And>c. c < NBUF \<Longrightarrow> caches (bufs s) n c \<Longrightarrow> c \<notin> H \<and> pins c = 0"
  shows "lview s n = disk s n"
proof (cases "\<exists>c < NBUF. caches (bufs s) n c \<and> bvalid (bufs s c)")
  case True
  then obtain b where b: "b < NBUF" "caches (bufs s) n b" "bvalid (bufs s b)" by blast
  then show ?thesis using lview_cached [OF inv b] bio_invD(6) [OF inv b(1,3)] c [OF b(1,2)] by (simp add: caches_def)
next
  case False
  then show ?thesis by (intro lview_uncached) blast
qed

text \<open>Changing the contents of a locked buffer changes the view of its block.\<close>

lemma bio_set_data:
  fixes m :: memory
  assumes inv: "bio_inv s H pins" and b: "b \<in> H" "caches (bufs s) bno b"
  defines "t \<equiv> s\<lparr>bufs := (bufs s)(b := (bufs s b)\<lparr>bdata := m\<rparr>)\<rparr>"
  shows "bio_inv t H pins" "lview t = (lview s)(bno := m)" "bio_frame s t"
proof -
  have bn: "b < NBUF" using bio_inv_held [OF inv b(1)] .
  obtain xs where xs: "lru (bufs s) xs" "set xs = {0..<NBUF}" using inv by (auto simp: bio_inv_def)
  have lt: "lru (bufs t) xs" by (rule lru_links [OF xs(1)]) (simp_all add: t_def)
  have eq: "caches (bufs t) n c = caches (bufs s) n c" "refcnt (bufs t c) = refcnt (bufs s c)"
    "bvalid (bufs t c) = bvalid (bufs s c)" "blockno (bufs t c) = blockno (bufs s c)" "bdev (bufs t c) = bdev (bufs s c)"
    "slocks t = slocks s" "cur t = cur s" "procs t = procs s" "disk t = disk s" for c n
    by (simp_all add: t_def caches_def)
  have dat: "bdata (bufs t c) = bdata (bufs s c)" if "c \<notin> H" for c using that b(1) by (auto simp: t_def)
  show inv': "bio_inv t H pins"
    using inv unfolding bio_inv_def eq
    by (elim conjE, intro conjI; (assumption | (use lt xs(2) in blast) | (simp add: dat)))
  have "lview t = (lview s)(bno := bdata (bufs t b))"
    by (rule lview_eqI [OF inv inv' _ bn]) (use b bio_invD(5) [OF inv bn] in \<open>auto simp: t_def caches_def\<close>)
  then show "lview t = (lview s)(bno := m)" by (simp add: t_def)
  show "bio_frame s t" unfolding bio_frame_def t_def by simp
qed

lemma bwrite_spec:
  assumes inv: "bio_inv s H pins" and free: "bio_free s" and b: "b \<in> H" "caches (bufs s) bno b"
  shows "\<exists>t. bwrite b es s = Ok () t es \<and> bio_inv t H pins \<and> lview t = lview s \<and> bio_frame s t \<and>
    bufs t = bufs s \<and> disk t = (disk s)(bno := bdata (bufs s b)) \<and>
    dtrace t = dtrace s @ [(bno, bdata (bufs s b))]"
proof -
  let ?t = "s\<lparr>disk := (disk s)(bno := bdata (bufs s b)), dtrace := dtrace s @ [(bno, bdata (bufs s b))]\<rparr>"
  obtain p where p: "cur s = Some p" using free by (auto simp: bio_free_def)
  have bn: "b < NBUF" using bio_inv_held [OF inv b(1)] .
  have lk: "slocked (slocks s (BufSleep b))" "slpid (slocks s (BufSleep b)) = pid (procs s p)"
    using inv b(1) bn p unfolding bio_inv_def by blast+
  have "SleepLk (BufSleep b) \<notin> set (held s)" using free by (auto simp: bio_free_def)
  then have "bwrite b es s = Ok () ?t es"
    using holdingsleep_Ok [of s p "BufSleep b" es] lk p b(2) by (simp add: bwrite_def caches_def)
  moreover have "bio_inv ?t H pins"
  proof -
    have "blockno (bufs s c) \<noteq> bno" if "c < NBUF" "bvalid (bufs s c)" "c \<notin> H" for c
      using bio_invD(1) [OF inv that(1)] that bio_inv_unique [OF inv that(1) bn _ b(2)] b(1) by (auto simp: caches_def)
    then show ?thesis using inv by (auto simp: bio_inv_def)
  qed
  moreover have "lview ?t = lview s"
  proof -
    have "lview ?t = (lview s)(bno := bdata (bufs ?t b))"
      by (rule lview_eqI [OF inv \<open>bio_inv ?t H pins\<close> _ bn])
        (use b bio_invD(5) [OF inv bn] in \<open>auto simp: caches_def\<close>)
    moreover have "lview s bno = bdata (bufs s b)"
      using lview_cached [OF inv bn b(2)] bio_invD(5) [OF inv bn] b(1) by blast
    ultimately show ?thesis by (simp add: fun_upd_idem)
  qed
  moreover have "bio_frame s ?t" by (simp add: bio_frame_def)
  ultimately show ?thesis by (intro exI [of _ ?t]) simp
qed

lemma bio_inv_counts:
  assumes inv: "bio_inv s H pins" and l: "lru (bufs t) xs" "set xs = {0..<NBUF}"
    and same: "\<And>c. c < NBUF \<Longrightarrow> bdev (bufs t c) = bdev (bufs s c) \<and> blockno (bufs t c) = blockno (bufs s c) \<and>
      bvalid (bufs t c) = bvalid (bufs s c) \<and> bdata (bufs t c) = bdata (bufs s c)" and d: "disk t = disk s"
    and H: "H' \<subseteq> H" "\<And>c. c < NBUF \<Longrightarrow> slocked (slocks t (BufSleep c)) \<longleftrightarrow> c \<in> H'"
    and me: "cur t = Some p" "cur s = Some p" "pid (procs t p) = pid (procs s p)"
      "\<And>c. c \<in> H' \<Longrightarrow> slpid (slocks t (BufSleep c)) = slpid (slocks s (BufSleep c))"
    and cnt: "\<And>c. c < NBUF \<Longrightarrow> refcnt (bufs t c) = of_nat (pins' c + (if c \<in> H' then 1 else 0)) \<and> pins' c < 1000"
      "\<And>c. c < NBUF \<Longrightarrow> 0 < pins' c \<Longrightarrow> c \<in> H \<or> 0 < pins c"
      "\<And>c. c < NBUF \<Longrightarrow> c \<notin> H' \<Longrightarrow> pins' c = 0 \<Longrightarrow> c \<in> H \<or> 0 < pins c \<Longrightarrow> bdata (bufs s c) = disk s (blockno (bufs s c))"
  shows "bio_inv t H' pins'" "lview t = lview s"
proof -
  note D = bio_invD [OF inv]
  have c: "caches (bufs t) n c = caches (bufs s) n c" if "c < NBUF" for n c using same [OF that] by (simp add: caches_def)
  have uniq: "x = y" if "x < NBUF" "y < NBUF" "caches (bufs t) n x" "caches (bufs t) n y" for x y n
    using that c bio_inv_unique [OF inv] by blast
  have 1: "bdev (bufs t x) = ROOTDEV \<or> bdev (bufs t x) = 0 \<and> \<not> bvalid (bufs t x) \<and> x \<notin> H' \<and> pins' x = 0" if "x < NBUF" for x
  proof -
    have "pins' x = 0" if "x \<notin> H" "pins x = 0" using cnt(2) [OF \<open>x < NBUF\<close>] that by (cases "pins' x") auto
    then show ?thesis using D(1) [OF that] same [OF that] H(1) by auto
  qed
  have "slpid (slocks s (BufSleep x)) = pid (procs s p)" if "x \<in> H" for x
    using inv me(2) that unfolding bio_inv_def by blast
  then have 2: "slpid (slocks t (BufSleep x)) = pid (procs t p')" if "x \<in> H'" "cur t = Some p'" for x p'
    using that me H(1) by auto
  have 3: "bvalid (bufs t x)" if "x < NBUF" "x \<in> H' \<or> 0 < pins' x" for x
    using D(5) [OF that(1)] that(2) same [OF that(1)] H(1) cnt(2) [OF that(1)] by auto
  have 4: "bdata (bufs t x) = disk t (blockno (bufs t x))" if "x < NBUF" "bvalid (bufs t x)" "x \<notin> H'" "pins' x = 0" for x
    using D(6) [OF that(1)] same [OF that(1)] that cnt(3) [OF that(1)] d by (cases "x \<in> H \<or> 0 < pins x") auto
  have HN: "H' \<subseteq> {0..<NBUF}" using H(1) inv by (auto simp: bio_inv_def)
  show "bio_inv t H' pins'"
    unfolding bio_inv_def using l uniq 1 2 3 4 HN H(2) cnt(1) by blast
  show "lview t = lview s"
  proof (rule ext)
    fix n
    have "List.find (\<lambda>b. caches (bufs t) n b \<and> bvalid (bufs t b)) [0..<NBUF] =
        List.find (\<lambda>b. caches (bufs s) n b \<and> bvalid (bufs s b)) [0..<NBUF]"
      using c same by (intro find_cong) auto
    then show "lview t n = lview s n"
      using same d by (auto simp: lview_def split: option.splits dest!: find_SomeD)
  qed
qed

lemma bio_lruE:
  assumes "bio_inv s H pins" obtains xs where "lru (bufs s) xs" "set xs = {0..<NBUF}"
  using assms unfolding bio_inv_def by blast

lemma of_nat_Suc_minus: "(of_nat (Suc n) :: uint32) - 1 = of_nat n"
  by simp

definition same_data :: "'z kbio_scheme \<Rightarrow> 'z kbio_scheme \<Rightarrow> bool" where
  "same_data s t \<longleftrightarrow> disk t = disk s \<and> dtrace t = dtrace s \<and> (\<forall>c. bdev (bufs t c) = bdev (bufs s c) \<and>
     blockno (bufs t c) = blockno (bufs s c) \<and> bvalid (bufs t c) = bvalid (bufs s c) \<and> bdata (bufs t c) = bdata (bufs s c))"

lemma bpin_spec:
  assumes inv: "bio_inv s H pins" and free: "BcacheLock \<notin> set (held s)" "cur s = Some p" and b: "b \<in> H" "pins b < 999"
  shows "\<exists>t. bpin b es s = Ok () t es \<and> bio_inv t H (pins(b := Suc (pins b))) \<and> lview t = lview s \<and> bio_frame s t \<and>
    same_data s t"
proof -
  let ?t = "s\<lparr>bufs := (bufs s)(b := (bufs s b)\<lparr>refcnt := refcnt (bufs s b) + 1\<rparr>)\<rparr>"
  obtain xs where xs: "lru (bufs s) xs" "set xs = {0..<NBUF}" using bio_lruE [OF inv] .
  have "lru (bufs ?t) xs" by (rule lru_links [OF xs(1)]) simp_all
  note c = bio_inv_counts [OF inv this xs(2), of H p "pins(b := Suc (pins b))"]
  have cnt: "refcnt (bufs ?t x) = of_nat ((pins(b := Suc (pins b))) x + (if x \<in> H then 1 else 0)) \<and> (pins(b := Suc (pins b))) x < 1000"
    if "x < NBUF" for x using b bio_invD(3,4) [OF inv that] by auto
  have "bio_inv ?t H (pins(b := Suc (pins b)))" "lview ?t = lview s"
    by (rule c; use free b cnt bio_invD(2) [OF inv] in \<open>auto split: if_splits\<close>)+
  then show ?thesis using free by (intro exI [of _ ?t]) (simp add: bpin_def bio_frame_def same_data_def)
qed

lemma bunpin_spec:
  assumes inv: "bio_inv s H pins" and free: "BcacheLock \<notin> set (held s)" "cur s = Some p" and b: "b < NBUF" "pins b = Suc n"
    and clean: "b \<in> H \<or> 0 < n \<or> bdata (bufs s b) = disk s (blockno (bufs s b))"
  shows "\<exists>t. bunpin b es s = Ok () t es \<and> bio_inv t H (pins(b := n)) \<and> lview t = lview s \<and> bio_frame s t \<and>
    same_data s t"
proof -
  let ?t = "s\<lparr>bufs := (bufs s)(b := (bufs s b)\<lparr>refcnt := refcnt (bufs s b) - 1\<rparr>)\<rparr>"
  obtain xs where xs: "lru (bufs s) xs" "set xs = {0..<NBUF}" using bio_lruE [OF inv] .
  have "lru (bufs ?t) xs" by (rule lru_links [OF xs(1)]) simp_all
  note c = bio_inv_counts [OF inv this xs(2), of H p "pins(b := n)"]
  have cnt: "refcnt (bufs ?t x) = of_nat ((pins(b := n)) x + (if x \<in> H then 1 else 0)) \<and> (pins(b := n)) x < 1000"
    if "x < NBUF" for x using b bio_invD(3,4) [OF inv that] by auto
  have "bio_inv ?t H (pins(b := n))" "lview ?t = lview s"
    by (rule c; use free b clean cnt bio_invD(2) [OF inv] in \<open>auto split: if_splits\<close>)+
  then show ?thesis using free by (intro exI [of _ ?t]) (simp add: bunpin_def bio_frame_def same_data_def)
qed

lemma links_data:
  "bdev (push_links f b c) = bdev (f c)" "blockno (push_links f b c) = blockno (f c)"
  "bvalid (push_links f b c) = bvalid (f c)" "bdata (push_links f b c) = bdata (f c)"
  "refcnt (push_links f b c) = refcnt (f c)"
  "bdev (unlink f b c) = bdev (f c)" "blockno (unlink f b c) = blockno (f c)"
  "bvalid (unlink f b c) = bvalid (f c)" "bdata (unlink f b c) = bdata (f c)" "refcnt (unlink f b c) = refcnt (f c)"
  by (simp_all add: push_links_def unlink_def Let_def)

definition released :: "(nat \<Rightarrow> buf) \<Rightarrow> nat \<Rightarrow> nat \<Rightarrow> nat \<Rightarrow> buf" where
  "released f b n =
     (let g = f(b := (f b)\<lparr>refcnt := of_nat n\<rparr>) in if n = 0 then push_links (unlink g b) b else g)"

lemma released_data:
  "bdev (released f b n c) = bdev (f c)" "blockno (released f b n c) = blockno (f c)"
  "bvalid (released f b n c) = bvalid (f c)" "bdata (released f b n c) = bdata (f c)"
  "refcnt (released f b n c) = (if c = b then of_nat n else refcnt (f c))"
  by (simp_all add: released_def Let_def links_data)

lemma lru_released:
  assumes "lru f (us @ b # vs)"
  shows "lru (released f b n) (if n = 0 then b # us @ vs else us @ b # vs)"
proof -
  let ?g = "f(b := (f b)\<lparr>refcnt := of_nat n\<rparr>)"
  have l: "lru ?g (us @ b # vs)" by (rule lru_links [OF assms]) simp_all
  have "lru (push_links (unlink ?g b) b) (b # us @ vs)"
    using lru_push [OF lru_unlink [OF l]] assms by (auto simp: lru_def)
  then show ?thesis using l by (cases "n = 0") (simp_all add: released_def)
qed

lemma brelse_run:
  assumes inv: "bio_inv s H pins" and free: "bio_free s" and b: "b \<in> H"
  shows "brelse b es s = Ok () (s\<lparr>slocks := (slocks s)(BufSleep b := \<lparr>slocked = False, slpid = 0\<rparr>),
    procs := woken_all (ChSleep (BufSleep b)) (cur s) (procs s), bufs := released (bufs s) b (pins b)\<rparr>) es"
proof -
  obtain p where p: "cur s = Some p" using free by (auto simp: bio_free_def)
  have hl: "BcacheLock \<notin> set (held s)" "\<And>lk. SleepLk lk \<notin> set (held s)" "\<And>p. ProcLock p \<notin> set (held s)"
    using free by (auto simp: bio_free_def)
  have bn: "b < NBUF" using bio_inv_held [OF inv b] .
  have lk: "slocked (slocks s (BufSleep b))" "slpid (slocks s (BufSleep b)) = pid (procs s p)"
    using inv b bn p unfolding bio_inv_def by blast+
  have ref: "refcnt (bufs s b) - 1 = of_nat (pins b)" using bio_invD(3) [OF inv bn] b by simp
  have ref0: "(of_nat (pins b) :: uint32) = 0 \<longleftrightarrow> pins b = 0"
    using of_nat_word_inj [of "pins b" 0, where 'a = 32] bio_invD(4) [OF inv bn] by simp
  show ?thesis
    using holdingsleep_Ok [of s p "BufSleep b" es] releasesleep_Ok [of s "BufSleep b" es] lk p hl ref ref0
    by (cases "pins b = 0") (simp_all add: brelse_def released_def push_front_Ok unlink_def Let_def)
qed

lemma brelse_spec:
  assumes inv: "bio_inv s H pins" and free: "bio_free s" and b: "b \<in> H"
    and clean: "0 < pins b \<or> bdata (bufs s b) = disk s (blockno (bufs s b))"
  shows "\<exists>t. brelse b es s = Ok () t es \<and> bio_inv t (H - {b}) pins \<and> lview t = lview s \<and> bio_frame s t \<and> same_data s t"
proof -
  obtain p where p: "cur s = Some p" using free by (auto simp: bio_free_def)
  define t where "t = s\<lparr>slocks := (slocks s)(BufSleep b := \<lparr>slocked = False, slpid = 0\<rparr>),
    procs := woken_all (ChSleep (BufSleep b)) (cur s) (procs s), bufs := released (bufs s) b (pins b)\<rparr>"
  note run = brelse_run [OF inv free b, of es, folded t_def]
  obtain xs where xs: "lru (bufs s) xs" "set xs = {0..<NBUF}" using bio_lruE [OF inv] .
  have "b \<in> set xs" using bio_inv_held [OF inv b] xs(2) by simp
  then obtain us vs where us: "xs = us @ b # vs" by (meson split_list)
  have ys: "lru (bufs t) (if pins b = 0 then b # us @ vs else us @ b # vs)"
    "set (if pins b = 0 then b # us @ vs else us @ b # vs) = {0..<NBUF}"
    using lru_released [OF xs(1) [unfolded us], of "pins b"] xs(2) us by (auto simp: t_def)
  note c = bio_inv_counts [OF inv ys, of "H - {b}" p pins]
  have cnt: "refcnt (bufs t x) = of_nat (pins x + (if x \<in> H - {b} then 1 else 0)) \<and> pins x < 1000" if "x < NBUF" for x
    using bio_invD(3,4) [OF inv that] by (auto simp: t_def released_data)
  have "bio_inv t (H - {b}) pins" "lview t = lview s"
    by (rule c; use cnt clean b p bio_invD(2) [OF inv] in \<open>auto simp: t_def released_data\<close>)+
  moreover have "bio_frame s t" "same_data s t" using p by (auto simp: bio_frame_def same_data_def t_def released_data)
  ultimately show ?thesis using run by blast
qed

section \<open>Initialisation\<close>

lemma initsleeplock_Ok [simp]:
  "initsleeplock lk es s = Ok () (s\<lparr>held := removeAll (SleepLk lk) (held s),
     slocks := (slocks s)(lk := \<lparr>slocked = False, slpid = 0\<rparr>)\<rparr>) es"
  by (simp add: initsleeplock_def klock_init_def)

lemma binit_loop:
  assumes "lru (bufs s) ys" "distinct xs" "set xs \<inter> set ys = {}" "BHEAD \<notin> set xs"
  shows "\<exists>t. kfor xs binit_one es s = Ok () t es \<and>
    lru (bufs t) (rev xs @ ys) \<and> t = s\<lparr>held := held t, slocks := slocks t, bufs := bufs t\<rparr> \<and> set (held t) \<subseteq> set (held s) \<and>
    (\<forall>b \<in> set xs. \<not> slocked (slocks t (BufSleep b))) \<and>
    (\<forall>b. b \<notin> set xs \<longrightarrow> slocks t (BufSleep b) = slocks s (BufSleep b)) \<and>
    (\<forall>i. slocks t (InodeSleep i) = slocks s (InodeSleep i)) \<and>
    (\<forall>c. bdev (bufs t c) = bdev (bufs s c) \<and> blockno (bufs t c) = blockno (bufs s c) \<and> bvalid (bufs t c) = bvalid (bufs s c) \<and>
      bdata (bufs t c) = bdata (bufs s c) \<and> refcnt (bufs t c) = refcnt (bufs s c))"
  using assms
proof (induction xs arbitrary: s ys)
  case Nil
  then show ?case by (intro exI [of _ s]) simp
next
  case (Cons x xs)
  let ?s1 = "s\<lparr>held := removeAll (SleepLk (BufSleep x)) (held s),
    slocks := (slocks s)(BufSleep x := \<lparr>slocked = False, slpid = 0\<rparr>), bufs := push_links (bufs s) x\<rparr>"
  have "lru (bufs ?s1) (x # ys)" using lru_push [OF Cons.prems(1), of x] Cons.prems by auto
  moreover have "distinct xs" "set xs \<inter> set (x # ys) = {}" "BHEAD \<notin> set xs" using Cons.prems by auto
  ultimately obtain t where t: "kfor xs binit_one es ?s1 = Ok () t es"
    "lru (bufs t) (rev xs @ x # ys)" "t = ?s1\<lparr>held := held t, slocks := slocks t, bufs := bufs t\<rparr>"
    "set (held t) \<subseteq> set (held ?s1)" "\<forall>b \<in> set xs. \<not> slocked (slocks t (BufSleep b))"
    "\<forall>b. b \<notin> set xs \<longrightarrow> slocks t (BufSleep b) = slocks ?s1 (BufSleep b)"
    "\<forall>i. slocks t (InodeSleep i) = slocks ?s1 (InodeSleep i)"
    "\<forall>c. bdev (bufs t c) = bdev (bufs ?s1 c) \<and> blockno (bufs t c) = blockno (bufs ?s1 c) \<and> bvalid (bufs t c) = bvalid (bufs ?s1 c) \<and>
      bdata (bufs t c) = bdata (bufs ?s1 c) \<and> refcnt (bufs t c) = refcnt (bufs ?s1 c)"
    using Cons.IH [of ?s1 "x # ys"] by blast
  have "kfor (x # xs) binit_one es s = Ok () t es"
    using t(1) by (simp add: binit_one_def push_front_Ok)
  moreover have "t = s\<lparr>held := held t, slocks := slocks t, bufs := bufs t\<rparr>" by (subst t(3)) simp
  ultimately show ?case using t(2,4-) Cons.prems(2) by (intro exI [of _ t]) (auto simp: links_data)
qed

lemma binit_spec:
  assumes boot: "\<And>b. bdev (bufs s b) = 0 \<and> \<not> bvalid (bufs s b) \<and> refcnt (bufs s b) = 0" "\<exists>p. cur s = Some p"
  shows "\<exists>t. binit es s = Ok () t es \<and> bio_inv t {} (\<lambda>_. 0) \<and> lview t = disk s \<and> disk t = disk s \<and> dtrace t = dtrace s \<and>
    set (held t) \<subseteq> set (held s) \<and> (\<forall>i. slocks t (InodeSleep i) = slocks s (InodeSleep i)) \<and>
    t = s\<lparr>held := held t, slocks := slocks t, bufs := bufs t\<rparr>"
proof -
  define s1 where "s1 = s\<lparr>held := removeAll BcacheLock (held s),
    bufs := (bufs s)(BHEAD := (bufs s BHEAD)\<lparr>bprev := BHEAD, bnext := BHEAD\<rparr>)\<rparr>"
  have l1: "lru (bufs s1) []" by (simp add: lru_def s1_def)
  have z: "bdev (bufs s1 b) = 0" "\<not> bvalid (bufs s1 b)" "refcnt (bufs s1 b) = 0" for b using boot(1) by (simp_all add: s1_def)
  have run: "binit es s = kfor [0..<NBUF] binit_one es s1" by (simp add: binit_def klock_init_def s1_def)
  obtain t where t: "kfor [0..<NBUF] binit_one es s1 = Ok () t es" "lru (bufs t) (rev [0..<NBUF])"
    "t = s1\<lparr>held := held t, slocks := slocks t, bufs := bufs t\<rparr>" "set (held t) \<subseteq> set (held s1)"
    "\<forall>b \<in> set [0..<NBUF]. \<not> slocked (slocks t (BufSleep b))"
    "\<forall>i. slocks t (InodeSleep i) = slocks s1 (InodeSleep i)"
    "\<forall>c. bdev (bufs t c) = bdev (bufs s1 c) \<and> blockno (bufs t c) = blockno (bufs s1 c) \<and> bvalid (bufs t c) = bvalid (bufs s1 c) \<and>
      bdata (bufs t c) = bdata (bufs s1 c) \<and> refcnt (bufs t c) = refcnt (bufs s1 c)"
    using binit_loop [OF l1, of "[0..<NBUF]" es] by auto
  have "t = s\<lparr>held := held t, slocks := slocks t, bufs := bufs t\<rparr>" by (subst t(3)) (simp add: s1_def)
  moreover have d: "disk t = disk s" "dtrace t = dtrace s" "slocks s1 = slocks s" by (subst t(3), simp add: s1_def)+ (simp add: s1_def)
  moreover have "bio_inv t {} (\<lambda>_. 0)"
    unfolding bio_inv_def using t(2,5,7) z by (auto simp: caches_def ROOTDEV_def intro!: exI [of _ "rev [0..<NBUF]"])
  moreover have "lview t = disk s" using t(7) z d(1) lview_uncached [of t] by (intro ext) auto
  ultimately show ?thesis using run t(1,4,6) by (intro exI [of _ t]) (auto simp: s1_def)
qed

section \<open>Correctness\<close>

text \<open>A machine that has just started, and a cache in which every buffer is in use.\<close>

definition bio_boot :: kbio where
  "bio_boot = kproc.extend copy_vm (kbio.fields
     (\<lambda>_. \<lparr>bvalid = False, bdisk = False, bdev = 0, blockno = 0, refcnt = 0, bprev = 0, bnext = 0, bdata = (\<lambda>_. 0)\<rparr>)
     (\<lambda>n _. of_nat (unat n)) [])"

definition bio_full :: kbio where
  "bio_full = bio_boot\<lparr>bufs := \<lambda>b. \<lparr>bvalid = True, bdisk = False, bdev = ROOTDEV, blockno = of_nat b, refcnt = 1,
     bprev = (b + NBUF) mod Suc NBUF, bnext = Suc b mod Suc NBUF, bdata = (\<lambda>_. 0)\<rparr>\<rparr>"

lemma bio_boot_simps:
  "bdev (bufs bio_boot b) = 0" "\<not> bvalid (bufs bio_boot b)" "refcnt (bufs bio_boot b) = 0" "cur bio_boot = Some 0"
  "held bio_boot = []" "disk bio_boot n = (\<lambda>_. of_nat (unat n))" "dtrace bio_boot = []" "procs bio_boot = procs copy_vm"
  "slocks bio_boot = slocks copy_vm"
  by (simp_all add: bio_boot_def copy_vm_def kproc.defs kbio.defs)

lemma bio_boot_init:
  obtains t where "binit [] bio_boot = Ok () t []" "bio_inv t {} (\<lambda>_. 0)" "bio_free t" "lview t = disk bio_boot"
proof -
  obtain t where t: "binit [] bio_boot = Ok () t []" "bio_inv t {} (\<lambda>_. 0)" "lview t = disk bio_boot"
    "set (held t) \<subseteq> set (held bio_boot)" "t = bio_boot\<lparr>held := held t, slocks := slocks t, bufs := bufs t\<rparr>"
    using binit_spec [of bio_boot "[]"] bio_boot_simps by blast
  have "cur t = Some 0" by (subst t(5)) (simp add: bio_boot_simps)
  then have "bio_free t" using t(4) by (simp add: bio_free_def bio_boot_simps)
  with t that show thesis by blast
qed



text \<open>
  C18: a buffer whose last reference \<open>brelse\<close> drops moves to the front of the list and the others
  keep their order, so that the list, walked from the back by \<open>bget\<close>, is ordered by last use;
  the contents of every block stay what they were, and the buffer is unlocked.
\<close>

theorem brelse_moves_to_front:
  assumes "bio_inv s H pins" "bio_free s" "b \<in> H" "pins b = 0"
    "lru (bufs s) (us @ b # vs)" "bdata (bufs s b) = disk s (blockno (bufs s b))"
  shows "\<exists>t. brelse b es s = Ok () t es \<and> lru (bufs t) (b # us @ vs) \<and> refcnt (bufs t b) = 0 \<and>
    bio_inv t (H - {b}) pins \<and> lview t = lview s \<and> bio_frame s t"
proof -
  obtain t where t: "brelse b es s = Ok () t es" "bio_inv t (H - {b}) pins" "lview t = lview s" "bio_frame s t"
    using brelse_spec [OF assms(1-3), of es] assms(6) by blast
  then have "bufs t = released (bufs s) b 0" using brelse_run [OF assms(1-3), of es] assms(4) by auto
  then show ?thesis using t lru_released [OF assms(5), of 0] by (auto simp: released_data)
qed

theorem brelse_moves_to_front_witness:
  "\<exists>s b t u us vs. binit [] bio_boot = Ok () s [] \<and> bread ROOTDEV 7 [] s = Ok b t [] \<and>
     lru (bufs t) (us @ b # vs) \<and> brelse b [] t = Ok () u [] \<and> lru (bufs u) (b # us @ vs)"
proof -
  obtain s where s: "binit [] bio_boot = Ok () s []" "bio_inv s {} (\<lambda>_. 0)" "bio_free s" "lview s = disk bio_boot"
    by (rule bio_boot_init)
  have room: "(\<exists>c < NBUF. caches (bufs s) 7 c) \<or> (\<exists>c < NBUF. c \<notin> {} \<and> (\<lambda>_. 0 :: nat) c = 0)"
    by (intro disjI2 exI [of _ 0]) (simp add: NBUF_def)
  obtain b t where t: "bread ROOTDEV 7 [] s = Ok b t []" "bio_inv t {b} (\<lambda>_. 0)" "caches (bufs t) 7 b"
    "bdata (bufs t b) = lview s 7" "bio_frame s t" "disk t = disk s"
    using bread_spec [OF s(2,3) _ room, of "[]"] by auto
  have cl: "lview s 7 = disk s 7" by (rule lview_clean [OF s(2)]) simp
  obtain xs where xs: "lru (bufs t) xs" "set xs = {0..<NBUF}" using bio_lruE [OF t(2)] .
  have "b \<in> set xs" using bio_inv_held [OF t(2)] xs(2) by simp
  then obtain us vs where us: "xs = us @ b # vs" by (meson split_list)
  show ?thesis
    using brelse_moves_to_front [OF t(2) _ _ _ xs(1) [unfolded us], of "[]"] s(1,3) t bio_frame_simps(4) [OF t(5)] cl xs(1) us
    by (auto simp: caches_def)
qed

lemma bread_full:
  assumes "bio_inv s H pins" "bio_free s" "\<forall>c < NBUF. \<not> caches (bufs s) bno c" "\<forall>c < NBUF. c \<in> H \<or> 0 < pins c"
  shows "bread ROOTDEV bno es s = Panic ''bget: no buffers''"
proof -
  obtain xs where xs: "set xs = {0..<NBUF}"
    and f: "\<forall>h dev es. bget_cached (Suc NBUF) dev bno (bnext (bufs s BHEAD)) es (s\<lparr>held := h\<rparr>) =
       Ok (List.find (\<lambda>b. bdev (bufs s b) = dev \<and> blockno (bufs s b) = bno) xs) (s\<lparr>held := h\<rparr>) es"
      "\<forall>h es. bget_unused (Suc NBUF) (bprev (bufs s BHEAD)) es (s\<lparr>held := h\<rparr>) =
       Ok (List.find (\<lambda>b. refcnt (bufs s b) = 0) (rev xs)) (s\<lparr>held := h\<rparr>) es"
    using bget_find [OF assms(1), of bno] by (elim exE conjE)
  have "List.find (\<lambda>b. bdev (bufs s b) = ROOTDEV \<and> blockno (bufs s b) = bno) xs = None"
    using assms(3) xs by (auto simp: find_None_iff caches_def)
  moreover have "List.find (\<lambda>b. refcnt (bufs s b) = 0) (rev xs) = None"
    using assms(4) xs bio_pins_unused [OF assms(1)] by (auto simp: find_None_iff)
  moreover have "BcacheLock \<notin> set (held s)" using assms(2) by (auto simp: bio_free_def)
  ultimately show ?thesis using f
    by (simp add: bread_def bget_def del: bget_cached.simps bget_unused.simps)
qed

text \<open>
  C30: when the block is not cached and every buffer is in use, \<open>bread\<close> panics: the cache never
  gives away a buffer that someone refers to.
\<close>

theorem bread_no_buffers:
  assumes "bio_inv s H pins" "bio_free s" "\<forall>c < NBUF. \<not> caches (bufs s) bno c" "\<forall>c < NBUF. c \<in> H \<or> 0 < pins c"
  shows "bread ROOTDEV bno es s = Panic ''bget: no buffers''"
  by (rule bread_full [OF assms])

lemma bio_full_lru: "lru (bufs bio_full) [0..<NBUF]"
  by (simp add: lru_def bio_full_def NBUF_def upt_rec)

lemma bio_full_inv: "bio_inv bio_full {} (\<lambda>_. 1)"
  unfolding bio_inv_def using bio_full_lru
  by (auto simp: bio_full_def caches_def NBUF_def bio_boot_simps copy_vm_def of_nat_word_inj intro!: exI [of _ "[0..<NBUF]"])

theorem bread_no_buffers_witness: "bread ROOTDEV 99 [] bio_full = Panic ''bget: no buffers''"
proof (rule bread_no_buffers [OF bio_full_inv])
  show "bio_free bio_full" by (simp add: bio_free_def bio_full_def bio_boot_simps)
  show "\<forall>c < NBUF. \<not> caches (bufs bio_full) 99 c"
  proof (intro allI impI)
    fix c assume "c < NBUF"
    then show "\<not> caches (bufs bio_full) 99 c"
      using of_nat_word_inj [of c 99, where 'a = 32] by (auto simp: caches_def bio_full_def NBUF_def)
  qed
qed simp

end
