(* ===== verification/Xv6_Block.thy ===== *)
theory Xv6_Block
  imports Xv6_Bio
begin

text \<open>
  Fields of 2 and 4 bytes in a block or in memory, least significant byte first, as the C code
  accesses them through pointers to \<open>struct\<close>s.
\<close>

type_synonym uint16 = "16 word"

definition load32 :: "memory \<Rightarrow> addr \<Rightarrow> uint32" where
  "load32 m a = of_nat (load_le m a 4)"

definition store32 :: "memory \<Rightarrow> addr \<Rightarrow> uint32 \<Rightarrow> memory" where
  "store32 m a v = write_bytes m a (bytes_le 4 (unat v))"

definition load16 :: "memory \<Rightarrow> addr \<Rightarrow> uint16" where
  "load16 m a = of_nat (load_le m a 2)"

definition store16 :: "memory \<Rightarrow> addr \<Rightarrow> uint16 \<Rightarrow> memory" where
  "store16 m a v = write_bytes m a (bytes_le 2 (unat v))"

lemma load32_store32_same [simp]: "load32 (store32 m a v) a = v"
proof -
  have "unat v < 256 ^ 4" using unsigned_less [of v] by simp
  then show ?thesis by (simp add: load32_def store32_def load_le_write_same)
qed

lemma load16_store16_same [simp]: "load16 (store16 m a v) a = v"
proof -
  have "unat v < 256 ^ 2" using unsigned_less [of v] by simp
  then show ?thesis by (simp add: load16_def store16_def load_le_write_same)
qed

text \<open>Offsets in a block are small numbers; ranges that do not overlap do not interfere.\<close>

definition disjoint_ranges :: "nat \<Rightarrow> nat \<Rightarrow> nat \<Rightarrow> nat \<Rightarrow> bool" where
  "disjoint_ranges a n b k \<longleftrightarrow> a + n \<le> b \<or> b + k \<le> a"

lemma write_bytes_at:
  assumes "b + length xs \<le> 2 ^ 32" "a < 2 ^ 32"
  shows "write_bytes m (of_nat b) xs (of_nat a) = (if b \<le> a \<and> a < b + length xs then xs ! (a - b) else m (of_nat a))"
proof (cases "b \<le> a")
  case True
  then have "unat (of_nat a - of_nat b :: uint64) = a - b"
    using assms by (simp flip: of_nat_diff add: unat_of_nat)
  then show ?thesis using True by (auto simp: write_bytes_def)
next
  case False
  then have lt: "(of_nat a :: uint64) < of_nat b" using assms by (simp add: word_less_nat_alt unat_of_nat)
  have "unat (of_nat a - of_nat b :: uint64) = 2 ^ 64 + a - b"
    using unat_sub_if_size [of "of_nat a :: uint64" "of_nat b"] lt assms False
    by (simp add: word_size unat_of_nat word_le_nat_alt)
  then show ?thesis using False assms by (auto simp: write_bytes_def)
qed

lemma load_le_other:
  assumes "disjoint_ranges a n b (length xs)" "b + length xs \<le> 2 ^ 32" "a + n \<le> 2 ^ 32"
  shows "load_le (write_bytes m (of_nat b) xs) (of_nat a) n = load_le m (of_nat a) n"
proof (rule load_le_cong)
  fix i assume "i < n"
  then show "write_bytes m (of_nat b) xs (of_nat a + of_nat i) = m (of_nat a + of_nat i)"
    using write_bytes_at [of b xs "a + i" m] assms by (auto simp: disjoint_ranges_def)
qed

lemma load32_other:
  assumes "disjoint_ranges a 4 b (length xs)" "b + length xs \<le> 2 ^ 32" "a + 4 \<le> 2 ^ 32"
  shows "load32 (write_bytes m (of_nat b) xs) (of_nat a) = load32 m (of_nat a)"
  using load_le_other [OF assms] by (simp add: load32_def)

lemma load16_other:
  assumes "disjoint_ranges a 2 b (length xs)" "b + length xs \<le> 2 ^ 32" "a + 2 \<le> 2 ^ 32"
  shows "load16 (write_bytes m (of_nat b) xs) (of_nat a) = load16 m (of_nat a)"
  using load_le_other [OF assms] by (simp add: load16_def)

lemma load32_store32_other:
  "disjoint_ranges a 4 b 4 \<Longrightarrow> a < 2 ^ 31 \<Longrightarrow> b < 2 ^ 31 \<Longrightarrow>
   load32 (store32 m (of_nat b) v) (of_nat a) = load32 m (of_nat a)"
  unfolding store32_def by (rule load32_other) simp_all

end
