(* ===== verification/Xv6_Log.thy ===== *)
theory Xv6_Log
  imports Xv6_Block
begin

text \<open>
  The write-ahead log (\<open>kernel/log.c\<close>): its operations on top of the buffer cache. The header block
  holds the number of logged blocks at offset 0 and their block numbers from offset 4 on. The
  \<open>int\<close>s of \<open>struct log\<close> stay small and are integers of the model; block numbers are 32-bit words.
\<close>

definition MAXOPBLOCKS :: nat where "MAXOPBLOCKS = 10"
definition LOGBLOCKS :: nat where "LOGBLOCKS = MAXOPBLOCKS * 3"

record klog = kbio +
  log_start :: uint32
  log_outstanding :: int
  log_committing :: bool
  log_dev :: uint32
  lh_n :: int
  lh_block :: "nat \<Rightarrow> uint32"

text \<open>The header block: \<open>lh->n\<close> and \<open>lh->block[i]\<close>.\<close>

definition head_n :: "memory \<Rightarrow> int" where
  "head_n m = sint (load32 m 0)"

definition head_block :: "memory \<Rightarrow> nat \<Rightarrow> uint32" where
  "head_block m i = load32 m (of_nat (4 + 4 * i))"

definition put_head :: "memory \<Rightarrow> int \<Rightarrow> (nat \<Rightarrow> uint32) \<Rightarrow> memory" where
  "put_head m n f = fold (\<lambda>i m. store32 m (of_nat (4 + 4 * i)) (f i)) [0..<nat n] (store32 m 0 (of_int n))"

definition install_one :: "bool \<Rightarrow> nat \<Rightarrow> ('z klog_scheme, unit) km" where
  "install_one recovering tail =
     kbind (kget (\<lambda>s. lh_block s tail)) (\<lambda>dst.
     kthen (if recovering then kprintf ''recovering tail %d dst %d\<newline>'' [int tail, sint dst] else kret ())
    (kbind (kget log_dev) (\<lambda>dev.
     kbind (kget log_start) (\<lambda>start.
     kbind (bread dev (start + of_nat tail + 1)) (\<lambda>lbuf.
     kbind (bread dev dst) (\<lambda>dbuf.
     kbind (buf_get lbuf bdata) (\<lambda>d.
     kthen (set_buf dbuf (\<lambda>q. q\<lparr>bdata := d\<rparr>))
    (kthen (bwrite dbuf)
    (kthen (if recovering then kret () else bunpin dbuf)
    (kthen (brelse lbuf)
           (brelse dbuf)))))))))))"

definition install_trans :: "bool \<Rightarrow> ('z klog_scheme, unit) km" where
  "install_trans recovering = kbind (kget lh_n) (\<lambda>n. kfor [0..<nat n] (install_one recovering))"

definition read_head :: "('z klog_scheme, unit) km" where
  "read_head =
     kbind (kget log_dev) (\<lambda>dev.
     kbind (kget log_start) (\<lambda>start.
     kbind (bread dev start) (\<lambda>b.
     kbind (buf_get b bdata) (\<lambda>d.
     kthen (kmod (\<lambda>s. s\<lparr>lh_n := head_n d\<rparr>))
    (kthen (kmod (\<lambda>s. s\<lparr>lh_block := \<lambda>i. if int i < lh_n s then head_block d i else lh_block s i\<rparr>))
           (brelse b))))))"

definition write_head :: "('z klog_scheme, unit) km" where
  "write_head =
     kbind (kget log_dev) (\<lambda>dev.
     kbind (kget log_start) (\<lambda>start.
     kbind (bread dev start) (\<lambda>b.
     kbind (kget lh_n) (\<lambda>n.
     kbind (kget lh_block) (\<lambda>f.
     kthen (set_buf b (\<lambda>q. q\<lparr>bdata := put_head (bdata q) n f\<rparr>))
    (kthen (bwrite b)
           (brelse b)))))))"

definition recover_from_log :: "('z klog_scheme, unit) km" where
  "recover_from_log =
     kthen read_head
    (kthen (install_trans True)
    (kthen (kmod (\<lambda>s. s\<lparr>lh_n := 0\<rparr>))
           write_head))"

text \<open>\<open>initlog\<close>; its second argument is the field \<open>logstart\<close> of the superblock it is given.\<close>

definition initlog :: "uint32 \<Rightarrow> uint32 \<Rightarrow> ('z klog_scheme, unit) km" where
  "initlog dev logstart =
     kthen (kpanic_if (\<lambda>_. 4 + 4 * LOGBLOCKS \<ge> BSIZE) ''initlog: too big logheader'')
    (kthen (klock_init LogLock)
    (kthen (kmod (\<lambda>s. s\<lparr>log_start := logstart\<rparr>))
    (kthen (kmod (\<lambda>s. s\<lparr>log_dev := dev\<rparr>))
           recover_from_log)))"

function begin_op_loop :: "('z klog_scheme, unit) km" where
  "begin_op_loop es s =
     kbind (kget (\<lambda>s. log_committing s)) (\<lambda>c.
     kbind (kget (\<lambda>s. lh_n s + (log_outstanding s + 1) * int MAXOPBLOCKS > int LOGBLOCKS)) (\<lambda>full.
     kif c (kthen (sleep ChLog LogLock) begin_op_loop)
    (kif full (kthen (sleep ChLog LogLock) begin_op_loop)
    (kthen (kmod (\<lambda>s. s\<lparr>log_outstanding := log_outstanding s + 1\<rparr>))
           (release LogLock))))) es s"
  by pat_completeness auto
termination
  by (relation "measure (\<lambda>(es, s). length es)") (auto dest: sleep_Ok_length)

declare begin_op_loop.simps [simp del]

definition begin_op :: "('z klog_scheme, unit) km" where
  "begin_op = kthen (acquire LogLock) begin_op_loop"

definition write_log_one :: "nat \<Rightarrow> ('z klog_scheme, unit) km" where
  "write_log_one tail =
     kbind (kget log_dev) (\<lambda>dev.
     kbind (kget log_start) (\<lambda>start.
     kbind (bread dev (start + of_nat tail + 1)) (\<lambda>to.
     kbind (kget (\<lambda>s. lh_block s tail)) (\<lambda>bno.
     kbind (bread dev bno) (\<lambda>from.
     kbind (buf_get from bdata) (\<lambda>d.
     kthen (set_buf to (\<lambda>q. q\<lparr>bdata := d\<rparr>))
    (kthen (bwrite to)
    (kthen (brelse from)
           (brelse to)))))))))"

definition write_log :: "('z klog_scheme, unit) km" where
  "write_log = kbind (kget lh_n) (\<lambda>n. kfor [0..<nat n] write_log_one)"

definition commit :: "('z klog_scheme, unit) km" where
  "commit =
     kbind (kget lh_n) (\<lambda>n.
     kif (n > 0)
       (kthen write_log
       (kthen write_head
       (kthen (install_trans False)
       (kthen (kmod (\<lambda>s. s\<lparr>lh_n := 0\<rparr>))
              write_head))))
       (kret ()))"

definition end_op :: "('z klog_scheme, unit) km" where
  "end_op =
     kthen (acquire LogLock)
    (kthen (kmod (\<lambda>s. s\<lparr>log_outstanding := log_outstanding s - 1\<rparr>))
    (kthen (kpanic_if log_committing ''log.committing'')
    (kbind (kget (\<lambda>s. log_outstanding s = 0)) (\<lambda>do_commit.
     kthen (if do_commit then kmod (\<lambda>s. s\<lparr>log_committing := True\<rparr>) else wakeup ChLog)
    (kthen (release LogLock)
           (if do_commit
            then kthen commit
                (kthen (acquire LogLock)
                (kthen (kmod (\<lambda>s. s\<lparr>log_committing := False\<rparr>))
                (kthen (wakeup ChLog)
                       (release LogLock))))
            else kret ()))))))"

text \<open>The index at which \<open>log_write\<close> puts a block number: where it is already, or the end.\<close>

function log_index :: "(nat \<Rightarrow> uint32) \<Rightarrow> uint32 \<Rightarrow> nat \<Rightarrow> nat \<Rightarrow> nat" where
  "log_index f bno n i = (if i < n then if f i = bno then i else log_index f bno n (Suc i) else i)"
  by pat_completeness auto
termination
  by (relation "measure (\<lambda>(f, bno, n, i). n - i)") auto

declare log_index.simps [simp del]

definition log_write :: "nat \<Rightarrow> ('z klog_scheme, unit) km" where
  "log_write b =
     kthen (acquire LogLock)
    (kthen (kpanic_if (\<lambda>s. lh_n s \<ge> int LOGBLOCKS) ''too big a transaction'')
    (kthen (kpanic_if (\<lambda>s. log_outstanding s < 1) ''log_write outside of trans'')
    (kbind (buf_get b blockno) (\<lambda>bno.
     kbind (kget (\<lambda>s. log_index (lh_block s) bno (nat (lh_n s)) 0)) (\<lambda>i.
     kthen (kmod (\<lambda>s. s\<lparr>lh_block := (lh_block s)(i := bno)\<rparr>))
    (kthen (kbind (kget lh_n) (\<lambda>n.
            kif (int i = n) (kthen (bpin b) (kmod (\<lambda>s. s\<lparr>lh_n := lh_n s + 1\<rparr>))) (kret ())))
           (release LogLock)))))))"

section \<open>The header block\<close>

lemma put_head_loop:
  assumes "a < 2 ^ 31" "4 dvd a" "n \<le> 30"
  shows "load32 (fold (\<lambda>i m. store32 m (of_nat (4 + 4 * i)) (f i)) [0..<n] m) (of_nat a) =
    (if \<exists>i < n. a = 4 + 4 * i then f ((a - 4) div 4) else load32 m (of_nat a))"
  using assms(3)
proof (induction n)
  case (Suc n)
  let ?m = "fold (\<lambda>i m. store32 m (of_nat (4 + 4 * i)) (f i)) [0..<n] m"
  show ?case
  proof (cases "a = 4 + 4 * n")
    case True
    then show ?thesis using load32_store32_same [of ?m "of_nat (4 + 4 * n)" "f n"] by auto
  next
    case False
    obtain c where c: "a = 4 * c" using assms(2) by (elim dvdE)
    have "disjoint_ranges a 4 (4 + 4 * n) 4" using False unfolding disjoint_ranges_def c by presburger
    then have "load32 (store32 ?m (of_nat (4 + 4 * n)) (f n)) (of_nat a) = load32 ?m (of_nat a)"
      using assms(1) Suc.prems by (intro load32_store32_other) simp_all
    then show ?thesis using Suc False by (auto simp: less_Suc_eq)
  qed
qed simp

lemma put_head:
  assumes "0 \<le> n" "n \<le> 30"
  shows "head_n (put_head m n f) = n" "i < nat n \<Longrightarrow> head_block (put_head m n f) i = f i"
proof -
  have n: "nat n \<le> 30" using assms by simp
  have "load32 (put_head m n f) (of_nat 0) = of_int n"
    unfolding put_head_def using put_head_loop [OF _ _ n, of 0 f "store32 m 0 (of_int n)"] by simp
  moreover have "sint (of_int n :: uint32) = n"
    using assms by (simp add: sint_sbintrunc' signed_take_bit_int_eq_self)
  ultimately show "head_n (put_head m n f) = n" by (simp add: head_n_def)
  show "head_block (put_head m n f) i = f i" if "i < nat n"
    unfolding put_head_def head_block_def
    using put_head_loop [OF _ _ n, of "4 + 4 * i" f "store32 m 0 (of_int n)"] that n by auto
qed

section \<open>Writes, crashes and recovery\<close>

text \<open>
  What the disk holds after some of the writes of a run, and what installing the log makes of a
  disk. \<open>in_log\<close> is the region of the log: the header block and \<open>LOGBLOCKS\<close> more.
\<close>

type_synonym disk_image = "uint32 \<Rightarrow> memory"

definition apply_writes :: "disk_image \<Rightarrow> (uint32 \<times> memory) list \<Rightarrow> disk_image" where
  "apply_writes d ws = fold (\<lambda>(n, m) d. d(n := m)) ws d"

definition in_log :: "uint32 \<Rightarrow> uint32 \<Rightarrow> bool" where
  "in_log start b \<longleftrightarrow> unat (b - start) \<le> LOGBLOCKS"

definition log_block :: "uint32 \<Rightarrow> nat \<Rightarrow> uint32" where
  "log_block start i = start + of_nat i + 1"

definition recovered :: "uint32 \<Rightarrow> disk_image \<Rightarrow> disk_image" where
  "recovered start d =
     apply_writes d (map (\<lambda>i. (head_block (d start) i, d (log_block start i))) [0..<nat (head_n (d start))])"

lemma apply_writes_simps [simp]:
  "apply_writes d [] = d" "apply_writes d ((n, m) # ws) = apply_writes (d(n := m)) ws"
  "apply_writes d (ws @ vs) = apply_writes (apply_writes d ws) vs"
  by (simp_all add: apply_writes_def)

lemma apply_writes_other: "b \<notin> fst ` set ws \<Longrightarrow> apply_writes d ws b = d b"
proof (induction ws arbitrary: d)
  case (Cons w ws)
  then show ?case by (cases w) auto
qed simp

lemma apply_writes_map:
  assumes "inj_on f A" "set xs \<subseteq> A" "i \<in> A"
  shows "apply_writes d (map (\<lambda>j. (f j, v j)) xs) (f i) = (if i \<in> set xs then v i else d (f i))"
  using assms(2)
proof (induction xs arbitrary: d)
  case (Cons x xs)
  then have "f x = f i \<longleftrightarrow> x = i" using assms(1,3) by (auto dest: inj_onD)
  then show ?case using Cons by auto
qed simp

lemma log_block_in:
  assumes "i < LOGBLOCKS"
  shows "in_log start (log_block start i)" "log_block start i \<noteq> start"
    "j < LOGBLOCKS \<Longrightarrow> log_block start i = log_block start j \<longleftrightarrow> i = j"
proof -
  have "of_nat i + 1 = (of_nat (Suc i) :: uint32)" by simp
  then have e: "log_block start i - start = of_nat (Suc i)" by (simp add: log_block_def)
  have u: "unat (of_nat (Suc i) :: uint32) = Suc i" using assms by (simp only: unat_of_nat) (simp add: LOGBLOCKS_def MAXOPBLOCKS_def)
  show "in_log start (log_block start i)" using assms unfolding in_log_def e u by simp
  have "of_nat (Suc i) \<noteq> (0 :: uint32)" using u by (metis nat.distinct(1) unat_0)
  then show "log_block start i \<noteq> start" using e by auto
  show "log_block start i = log_block start j \<longleftrightarrow> i = j" if "j < LOGBLOCKS"
    using of_nat_word_inj [of i j, where 'a = 32] assms that by (simp add: log_block_def LOGBLOCKS_def MAXOPBLOCKS_def)
qed

lemma in_log_start [simp]: "in_log start start"
  by (simp add: in_log_def)

text \<open>
  The writes of a commit of the blocks \<open>f 0, \<dots>, f (n - 1)\<close> with the contents \<open>v 0, \<dots>\<close>: the log
  blocks, the header \<open>h1\<close>, the home blocks, and the cleared header \<open>h2\<close>.
\<close>

definition log_writes :: "uint32 \<Rightarrow> (nat \<Rightarrow> memory) \<Rightarrow> nat list \<Rightarrow> (uint32 \<times> memory) list" where
  "log_writes start v xs = map (\<lambda>i. (log_block start i, v i)) xs"

definition home_writes :: "(nat \<Rightarrow> uint32) \<Rightarrow> (nat \<Rightarrow> memory) \<Rightarrow> nat list \<Rightarrow> (uint32 \<times> memory) list" where
  "home_writes f v xs = map (\<lambda>i. (f i, v i)) xs"

definition commit_writes ::
    "uint32 \<Rightarrow> (nat \<Rightarrow> uint32) \<Rightarrow> (nat \<Rightarrow> memory) \<Rightarrow> nat \<Rightarrow> memory \<Rightarrow> memory \<Rightarrow> (uint32 \<times> memory) list" where
  "commit_writes start f v n h1 h2 =
     log_writes start v [0..<n] @ [(start, h1)] @ home_writes f v [0..<n] @ [(start, h2)]"

lemma log_writes_at:
  assumes "n \<le> LOGBLOCKS" "\<And>i. i \<in> set xs \<Longrightarrow> i < n"
  shows "apply_writes d (log_writes start v xs) start = d start"
    "\<not> in_log start b \<Longrightarrow> apply_writes d (log_writes start v xs) b = d b"
    "j < n \<Longrightarrow> apply_writes d (log_writes start v xs) (log_block start j) =
       (if j \<in> set xs then v j else d (log_block start j))"
proof -
  have lt: "i < LOGBLOCKS" if "i \<in> set xs" for i using assms(2) [OF that] assms(1) by simp
  have fst: "fst ` set (log_writes start v xs) = log_block start ` set xs" by (force simp: log_writes_def)
  have ne: "start \<noteq> log_block start i" "in_log start (log_block start i)" if "i \<in> set xs" for i
    using log_block_in(1,2) [OF lt [OF that], of start] by auto
  have "start \<notin> fst ` set (log_writes start v xs)" unfolding fst using ne(1) by blast
  then show "apply_writes d (log_writes start v xs) start = d start" by (rule apply_writes_other)
  show "apply_writes d (log_writes start v xs) b = d b" if "\<not> in_log start b"
    by (rule apply_writes_other) (use that ne(2) in \<open>unfold fst, blast\<close>)
  have "inj_on (log_block start) {0..<LOGBLOCKS}" using log_block_in(3) by (auto simp: inj_on_def)
  then show "apply_writes d (log_writes start v xs) (log_block start j) =
       (if j \<in> set xs then v j else d (log_block start j))" if "j < n"
    unfolding log_writes_def using that assms(1) lt by (intro apply_writes_map) auto
qed

lemma home_writes_at:
  assumes "inj_on f {0..<n}" "\<And>i. i < n \<Longrightarrow> \<not> in_log start (f i)" "\<And>i. i \<in> set xs \<Longrightarrow> i < n"
  shows "in_log start b \<Longrightarrow> apply_writes d (home_writes f v xs) b = d b"
    "b \<notin> f ` {0..<n} \<Longrightarrow> apply_writes d (home_writes f v xs) b = d b"
    "j < n \<Longrightarrow> apply_writes d (home_writes f v xs) (f j) = (if j \<in> set xs then v j else d (f j))"
proof -
  show "apply_writes d (home_writes f v xs) b = d b" if "in_log start b"
    using assms(2,3) that by (intro apply_writes_other) (force simp: home_writes_def)
  show "apply_writes d (home_writes f v xs) b = d b" if "b \<notin> f ` {0..<n}"
    using assms(3) that by (intro apply_writes_other) (force simp: home_writes_def)
  show "apply_writes d (home_writes f v xs) (f j) = (if j \<in> set xs then v j else d (f j))" if "j < n"
    unfolding home_writes_def using that assms(3) by (intro apply_writes_map [OF assms(1)]) auto
qed

lemma recovered_clear: "head_n (d start) = 0 \<Longrightarrow> recovered start d = d"
  by (simp add: recovered_def)

lemma recovered_full:
  assumes "head_n (d start) = int n" "\<And>i. i < n \<Longrightarrow> head_block (d start) i = f i" "\<And>i. i < n \<Longrightarrow> d (log_block start i) = v i"
  shows "recovered start d = apply_writes d (home_writes f v [0..<n])"
proof -
  have "map (\<lambda>i. (head_block (d start) i, d (log_block start i))) [0..<n] = home_writes f v [0..<n]"
    using assms(2,3) by (auto simp: home_writes_def)
  then show ?thesis using assms(1) by (simp add: recovered_def)
qed

text \<open>Whichever prefix of the writes reached the disk, recovery gives the old blocks or all the new ones.\<close>

lemma commit_crash:
  fixes v :: "nat \<Rightarrow> memory"
  assumes n: "n \<le> LOGBLOCKS" and f: "inj_on f {0..<n}" "\<And>i. i < n \<Longrightarrow> \<not> in_log start (f i)"
    and h0: "head_n (d start) = 0"
    and h1: "head_n h1 = int n" "\<And>i. i < n \<Longrightarrow> head_block h1 i = f i" and h2: "head_n h2 = 0"
    and b: "\<not> in_log start b"
  defines "ws \<equiv> commit_writes start f v n h1 h2"
  shows "k \<le> n \<Longrightarrow> recovered start (apply_writes d (take k ws)) b = d b"
    "n < k \<Longrightarrow> recovered start (apply_writes d (take k ws)) b = apply_writes d (home_writes f v [0..<n]) b"
proof -
  have xs: "i < n" if "i \<in> set (take k [0..<n])" for i k using that by (auto dest: in_set_takeD)
  have len: "length (log_writes start v [0..<n]) = n" "length (home_writes f v [0..<n]) = n"
    by (simp_all add: log_writes_def home_writes_def)
  show "recovered start (apply_writes d (take k ws)) b = d b" if "k \<le> n"
  proof -
    have "take k ws = log_writes start v (take k [0..<n])"
      using that by (simp add: ws_def commit_writes_def log_writes_def take_map)
    moreover have "apply_writes d (log_writes start v (take k [0..<n])) start = d start"
      "apply_writes d (log_writes start v (take k [0..<n])) b = d b"
      by (rule log_writes_at(1) [OF n], erule xs, rule log_writes_at(2) [OF n _ b], erule xs)
    ultimately show ?thesis using h0 by (simp add: recovered_clear)
  qed
  show "recovered start (apply_writes d (take k ws)) b = apply_writes d (home_writes f v [0..<n]) b" if "n < k"
  proof -
    let ?d1 = "(apply_writes d (log_writes start v [0..<n]))(start := h1)" and ?m = "k - n - 1"
    have lw: "?d1 (log_block start i) = v i" if "i < n" for i
      using log_writes_at(3) [OF n, of "[0..<n]" i d start v] log_block_in(2) [of i start] that n by simp
    have lo: "?d1 c = d c" if "\<not> in_log start c" for c
      using log_writes_at(2) [OF n, of "[0..<n]" start c d v] that by auto
    have hw: "apply_writes e (home_writes f v [0..<n]) b = apply_writes d (home_writes f v [0..<n]) b"
      if "b \<notin> f ` {0..<n} \<Longrightarrow> e b = d b" for e
    proof (cases "b \<in> f ` {0..<n}")
      case True
      then obtain j where "j < n" "b = f j" by auto
      then show ?thesis using home_writes_at(3) [OF f, of "[0..<n]" j] by simp
    next
      case False
      then show ?thesis using home_writes_at(2) [OF f, of "[0..<n]" b] that by simp
    qed
    have tk: "take k ws = log_writes start v [0..<n] @ [(start, h1)] @ take ?m (home_writes f v [0..<n] @ [(start, h2)])"
      using that len by (simp add: ws_def commit_writes_def take_Cons' Suc_diff_Suc)
    show ?thesis
    proof (cases "?m \<le> n")
      case True
      let ?d = "apply_writes ?d1 (home_writes f v (take ?m [0..<n]))"
      have eq: "apply_writes d (take k ws) = ?d"
        unfolding tk using True len by (simp add: home_writes_def take_map)
      have hm: "in_log start c \<Longrightarrow> ?d c = ?d1 c" "c \<notin> f ` {0..<n} \<Longrightarrow> ?d c = ?d1 c" for c
        by (rule home_writes_at(1) [OF f], assumption, erule xs, assumption)
          (rule home_writes_at(2) [OF f], assumption, erule xs, assumption)
      have "?d start = h1" using hm(1) [of start] by simp
      moreover have "?d (log_block start i) = v i" if "i < n" for i
        using hm(1) [of "log_block start i"] log_block_in(1) [of i start] lw that n by simp
      ultimately have "recovered start ?d = apply_writes ?d (home_writes f v [0..<n])"
        using h1 by (intro recovered_full) auto
      moreover have "?d b = d b" if "b \<notin> f ` {0..<n}" using hm(2) [OF that] lo [OF b] by simp
      ultimately show ?thesis unfolding eq using hw [of ?d] by simp
    next
      case False
      then have eq: "apply_writes d (take k ws) = (apply_writes ?d1 (home_writes f v [0..<n]))(start := h2)"
        unfolding tk using len by simp
      have "b \<noteq> start" using b by auto
      then show ?thesis unfolding eq using h2 hw [of ?d1] lo [OF b] by (simp add: recovered_clear)
    qed
  qed
qed

section \<open>The steps of a commit\<close>

text \<open>
  \<open>log_step s ws t\<close>: from \<open>s\<close> to \<open>t\<close> the writes \<open>ws\<close> went to the disk, in this order, and they are
  all that changed of the contents of the blocks; the fields of the log are as before.
\<close>

definition log_frame :: "'z klog_scheme \<Rightarrow> 'z klog_scheme \<Rightarrow> bool" where
  "log_frame s t \<longleftrightarrow> bio_frame (s\<lparr>kout := kout t\<rparr>) t"

definition log_step :: "'z klog_scheme \<Rightarrow> (uint32 \<times> memory) list \<Rightarrow> 'z klog_scheme \<Rightarrow> bool" where
  "log_step s ws t \<longleftrightarrow> disk t = apply_writes (disk s) ws \<and> lview t = apply_writes (lview s) ws \<and>
     dtrace t = dtrace s @ ws \<and> log_frame s t"

lemma bio_log_frame:
  fixes s t :: "'z klog_scheme"
  assumes "bio_frame s t" shows "log_frame s t"
proof -
  have t: "t = s\<lparr>bufs := bufs t, slocks := slocks t, procs := procs t, disk := disk t, dtrace := dtrace t\<rparr>"
    using assms by (simp add: bio_frame_def)
  have "kout t = kout s" by (subst t) simp
  then show ?thesis using assms by (simp add: log_frame_def)
qed

lemma log_frame_simps:
  fixes s t :: "'z klog_scheme"
  assumes "log_frame s t"
  shows "log_start t = log_start s" "log_dev t = log_dev s" "lh_n t = lh_n s" "lh_block t = lh_block s"
    "log_outstanding t = log_outstanding s" "log_committing t = log_committing s" "bio_free t = bio_free s" "held t = held s"
    "cur t = cur s"
proof -
  have t: "t = (s\<lparr>kout := kout t\<rparr>)\<lparr>bufs := bufs t, slocks := slocks t, procs := procs t, disk := disk t, dtrace := dtrace t\<rparr>"
    using assms by (simp add: log_frame_def bio_frame_def)
  show "log_start t = log_start s" "log_dev t = log_dev s" "lh_n t = lh_n s" "lh_block t = lh_block s"
    "log_outstanding t = log_outstanding s" "log_committing t = log_committing s" by (subst t, simp)+
  show 1: "held t = held s" "cur t = cur s" by (subst t, simp)+
  show "bio_free t = bio_free s" using 1 by (simp add: bio_free_def)
qed

lemma log_frame_trans:
  fixes s t u :: "'z klog_scheme"
  assumes "log_frame s t" "log_frame t u" shows "log_frame s u"
proof -
  have t: "t = (s\<lparr>kout := kout t\<rparr>)\<lparr>bufs := bufs t, slocks := slocks t, procs := procs t, disk := disk t, dtrace := dtrace t\<rparr>"
    using assms by (simp add: log_frame_def bio_frame_def)
  have "t\<lparr>kout := kout u\<rparr> = (s\<lparr>kout := kout u\<rparr>)\<lparr>bufs := bufs t, slocks := slocks t, procs := procs t, disk := disk t, dtrace := dtrace t\<rparr>"
    by (subst (1) t) simp
  then have "bio_frame (s\<lparr>kout := kout u\<rparr>) (t\<lparr>kout := kout u\<rparr>)"
    using assms(1) by (auto simp: log_frame_def bio_frame_def)
  then show ?thesis using assms(2) bio_frame_trans unfolding log_frame_def by blast
qed

lemma log_step_trans:
  fixes s t u :: "'z klog_scheme"
  shows "log_step s ws t \<Longrightarrow> log_step t vs u \<Longrightarrow> log_step s (ws @ vs) u"
  by (auto simp: log_step_def intro: log_frame_trans)

lemma log_step_refl:
  fixes s :: "'z klog_scheme"
  shows "log_step s [] s"
  by (simp add: log_step_def bio_log_frame)

definition keys_kept :: "(nat \<Rightarrow> nat) \<Rightarrow> 'z kbio_scheme \<Rightarrow> 'z kbio_scheme \<Rightarrow> bool" where
  "keys_kept pins s t \<longleftrightarrow> (\<forall>b < NBUF. 0 < pins b \<longrightarrow> (\<forall>n. caches (bufs t) n b = caches (bufs s) n b))"

lemma keys_kept_trans: "keys_kept pins s t \<Longrightarrow> keys_kept pins t u \<Longrightarrow> keys_kept pins s u"
  by (simp add: keys_kept_def)

lemma keys_keptI:
  assumes "caches (bufs u) x b" "\<forall>c. c \<noteq> b \<longrightarrow> bufs u c = bufs s c" "caches (bufs s) x b \<or> pins b = 0"
  shows "keys_kept pins s u"
  unfolding keys_kept_def
proof (intro allI impI)
  fix d n assume "0 < pins d"
  then show "caches (bufs u) n d = caches (bufs s) n d" using assms by (cases "d = b") (auto simp: caches_def)
qed

lemma same_data_caches: "same_data s t \<Longrightarrow> caches (bufs t) = caches (bufs s)"
  by (intro ext) (simp add: same_data_def caches_def)

text \<open>Both loops lock two different blocks at a time.\<close>

lemma bread_two:
  fixes s :: "'z klog_scheme"
  assumes inv: "bio_inv s {} pins" and free: "bio_free s" and ne: "x \<noteq> y"
    and room: "\<exists>c < NBUF. pins c = 0" "(\<exists>c < NBUF. caches (bufs s) y c \<and> 0 < pins c) \<or> (\<forall>c. pins c = 0)"
  shows "\<exists>b c u t. bread ROOTDEV x es s = Ok b u es \<and> bread ROOTDEV y es u = Ok c t es \<and> b \<noteq> c \<and>
    bio_inv t {b, c} pins \<and> caches (bufs t) x b \<and> caches (bufs t) y c \<and>
    bdata (bufs t b) = lview s x \<and> bdata (bufs t c) = lview s y \<and> lview t = lview s \<and> bio_frame s t \<and> log_frame s u \<and>
    disk t = disk s \<and> dtrace t = dtrace s \<and> keys_kept pins s t"
proof -
  obtain b u where b: "bread ROOTDEV x es s = Ok b u es" "b < NBUF" "bio_inv u {b} pins" "caches (bufs u) x b"
    "bdata (bufs u b) = lview s x" "lview u = lview s" "bio_frame s u" "disk u = disk s" "dtrace u = dtrace s"
    "\<forall>c. c \<noteq> b \<longrightarrow> bufs u c = bufs s c" "caches (bufs s) x b \<or> pins b = 0"
    using bread_spec [OF inv free, of x es] room(1) by auto
  have fu: "bio_free u" using free bio_frame_simps(4) [OF b(7)] by simp
  have k1: "keys_kept pins s u" by (rule keys_keptI) (fact b(4,10,11))+
  have r2: "(\<exists>c < NBUF. caches (bufs u) y c) \<or> (\<exists>c < NBUF. c \<notin> {b} \<and> pins c = 0)"
  proof (cases "\<forall>c. pins c = 0")
    case True
    have "\<exists>c < NBUF. c \<noteq> b" by (rule exI [of _ "if b = 0 then 1 else 0"]) (simp add: NBUF_def)
    then show ?thesis using True by auto
  next
    case False
    then show ?thesis using room(2) k1 by (auto simp: keys_kept_def)
  qed
  have "\<And>c. c \<in> {b} \<Longrightarrow> blockno (bufs u c) \<noteq> y" using b(4) ne by (auto simp: caches_def)
  from bread_spec [OF b(3) fu this r2, of es] obtain c t where
    c: "bread ROOTDEV y es u = Ok c t es" "c < NBUF" "c \<noteq> b" "bio_inv t {c, b} pins" "caches (bufs t) y c"
    "bdata (bufs t c) = lview u y" "lview t = lview u" "bio_frame u t" "disk t = disk u" "dtrace t = dtrace u"
    "\<forall>d. d \<noteq> c \<longrightarrow> bufs t d = bufs u d" "caches (bufs u) y c \<or> pins c = 0" by auto
  have k2: "keys_kept pins u t" by (rule keys_keptI) (fact c(5,11,12))+
  have "bufs t b = bufs u b" using c(3,11) by simp
  then show ?thesis
    using b c keys_kept_trans [OF k1 k2] bio_frame_trans [OF b(7) c(8)] bio_log_frame [OF b(7)]
    by (intro exI [of _ b] exI [of _ c] exI [of _ u] exI [of _ t]) (simp add: caches_def insert_commute)
qed

lemma write_log_one_spec:
  fixes s :: "'z klog_scheme"
  assumes inv: "bio_inv s {} pins" and free: "bio_free s" and dev: "log_dev s = ROOTDEV"
    and i: "i < LOGBLOCKS" "\<not> in_log (log_start s) (lh_block s i)"
    and room: "\<exists>c < NBUF. pins c = 0" "\<exists>c < NBUF. caches (bufs s) (lh_block s i) c \<and> 0 < pins c"
  shows "\<exists>t. write_log_one i es s = Ok () t es \<and> bio_inv t {} pins \<and> keys_kept pins s t \<and>
    log_step s [(log_block (log_start s) i, lview s (lh_block s i))] t"
proof -
  let ?x = "log_block (log_start s) i" and ?y = "lh_block s i"
  have ne: "?x \<noteq> ?y" using log_block_in(1) [OF i(1), of "log_start s"] i(2) by auto
  obtain b c u t where r: "bread ROOTDEV ?x es s = Ok b u es" "bread ROOTDEV ?y es u = Ok c t es" "b \<noteq> c"
    "bio_inv t {b, c} pins" "caches (bufs t) ?x b" "caches (bufs t) ?y c"
    "bdata (bufs t b) = lview s ?x" "bdata (bufs t c) = lview s ?y" "lview t = lview s" "bio_frame s t" "log_frame s u"
    "disk t = disk s" "dtrace t = dtrace s" "keys_kept pins s t"
    using bread_two [OF inv free ne room(1), of es] room(2) by blast
  define t3 where "t3 = t\<lparr>bufs := (bufs t)(b := (bufs t b)\<lparr>bdata := lview s ?y\<rparr>)\<rparr>"
  note sd = bio_set_data [OF r(4) _ r(5), of "lview s ?y", folded t3_def, simplified]
  have f3: "bio_free t3" using free bio_frame_simps(4) [OF r(10)] bio_frame_simps(4) [OF sd(3)] by simp
  have b3: "caches (bufs t3) n d = caches (bufs t) n d" "bdata (bufs t3 b) = lview s ?y" "bufs t3 c = bufs t c" for n d
    using r(3) by (simp_all add: t3_def caches_def)
  obtain t4 where w: "bwrite b es t3 = Ok () t4 es" "bio_inv t4 {b, c} pins" "lview t4 = lview t3" "bio_frame t3 t4"
    "bufs t4 = bufs t3" "disk t4 = (disk t3)(?x := lview s ?y)" "dtrace t4 = dtrace t3 @ [(?x, lview s ?y)]"
    using bwrite_spec [OF sd(1) f3, of b ?x es] b3 r(5) by auto
  have f4: "bio_free t4" using f3 bio_frame_simps(4) [OF w(4)] by simp
  have pc: "0 < pins c"
  proof -
    obtain d where d: "d < NBUF" "caches (bufs s) ?y d" "0 < pins d" using room(2) by blast
    then have "caches (bufs t) ?y d" using r(14) by (simp add: keys_kept_def)
    then have "d = c" using bio_inv_unique [OF r(4) d(1) _ _ r(6)] bio_inv_held [OF r(4), of c] by simp
    then show ?thesis using d(3) by simp
  qed
  obtain t5 where e: "brelse c es t4 = Ok () t5 es" "bio_inv t5 {b} pins" "lview t5 = lview t4" "bio_frame t4 t5" "same_data t4 t5"
    using brelse_spec [OF w(2) f4, of c es] pc r(3) by (auto simp: insert_Diff_if)
  have f5: "bio_free t5" using f4 bio_frame_simps(4) [OF e(4)] by simp
  have "blockno (bufs t3 b) = ?x" using r(5) by (simp add: t3_def caches_def)
  then have cl: "bdata (bufs t5 b) = disk t5 (blockno (bufs t5 b))"
    using e(5) w(5,6) b3(2) by (simp add: same_data_def)
  obtain t6 where g: "brelse b es t5 = Ok () t6 es" "bio_inv t6 {} pins" "lview t6 = lview t5" "bio_frame t5 t6" "same_data t5 t6"
    using brelse_spec [OF e(2) f5, of b es] cl by auto
  have fr: "bio_frame s t6"
    using bio_frame_trans [OF bio_frame_trans [OF bio_frame_trans [OF bio_frame_trans [OF r(10) sd(3)] w(4)] e(4)] g(4)] .
  have "write_log_one i es s = Ok () t6 es"
    using r(1,2) w(1) e(1) g(1) dev log_frame_simps(1,2,4) [OF r(11)] r(8)
    by (simp add: write_log_one_def log_block_def t3_def [symmetric])
  moreover have "log_step s [(?x, lview s ?y)] t6"
    using fr w(3,6,7) sd(2) r(9,12,13) e(3,5) g(3,5) by (simp add: log_step_def same_data_def bio_log_frame t3_def)
  moreover have "keys_kept pins s t6"
    using r(14) b3(1) w(5) same_data_caches [OF e(5)] same_data_caches [OF g(5)] by (simp add: keys_kept_def)
  ultimately show ?thesis using g(2) by blast
qed

lemma lview_cong: "bufs t = bufs s \<Longrightarrow> disk t = disk s \<Longrightarrow> lview t = lview s"
  by (rule ext) (simp add: lview_def cong: option.case_cong)

lemma bio_inv_cong:
  "bufs t = bufs s \<Longrightarrow> disk t = disk s \<Longrightarrow> slocks t = slocks s \<Longrightarrow> cur t = cur s \<Longrightarrow> procs t = procs s \<Longrightarrow>
   bio_inv t H pins = bio_inv s H pins"
  by (simp add: bio_inv_def)

lemma install_one_spec:
  fixes s :: "'z klog_scheme"
  assumes inv: "bio_inv s {} pins" and free: "bio_free s" and dev: "log_dev s = ROOTDEV"
    and i: "i < LOGBLOCKS" "\<not> in_log (log_start s) (lh_block s i)"
    and room: "\<exists>c < NBUF. pins c = 0" "if rec then \<forall>c. pins c = 0
      else \<exists>c < NBUF. caches (bufs s) (lh_block s i) c \<and> pins c = 1"
    and lv: "lview s (log_block (log_start s) i) = disk s (log_block (log_start s) i)"
  shows "\<exists>t pins'. install_one rec i es s = Ok () t es \<and> bio_inv t {} pins' \<and>
    (\<forall>b < NBUF. pins' b = (if caches (bufs s) (lh_block s i) b then 0 else pins b)) \<and> keys_kept pins s t \<and>
    log_step s [(lh_block s i, lview s (log_block (log_start s) i))] t"
proof -
  let ?x = "log_block (log_start s) i" and ?y = "lh_block s i"
  define s0 where "s0 = (if rec then s\<lparr>kout := kout s @ [(''recovering tail %d dst %d\<newline>'', [int i, sint ?y])]\<rparr> else s)"
  have e0: "bufs s0 = bufs s" "disk s0 = disk s" "slocks s0 = slocks s" "cur s0 = cur s" "procs s0 = procs s"
    by (simp_all add: s0_def)
  have s0: "bio_inv s0 {} pins" "bio_free s0" "bufs s0 = bufs s" "lview s0 = lview s" "disk s0 = disk s" "dtrace s0 = dtrace s"
    using inv free bio_inv_cong [OF e0] lview_cong [OF e0(1,2)] by (simp_all add: s0_def bio_free_def)
  have fr0: "log_frame s s0" by (simp add: s0_def log_frame_def bio_frame_def)
  have ne: "?x \<noteq> ?y" using log_block_in(1) [OF i(1), of "log_start s"] i(2) by auto
  have "(\<exists>c < NBUF. caches (bufs s0) ?y c \<and> 0 < pins c) \<or> (\<forall>c. pins c = 0)"
    using room(2) s0(3) by (auto split: if_splits)
  then obtain b c u t where r: "bread ROOTDEV ?x es s0 = Ok b u es" "bread ROOTDEV ?y es u = Ok c t es" "b \<noteq> c"
    "bio_inv t {b, c} pins" "caches (bufs t) ?x b" "caches (bufs t) ?y c"
    "bdata (bufs t b) = lview s ?x" "bdata (bufs t c) = lview s ?y" "lview t = lview s" "bio_frame s0 t" "log_frame s0 u"
    "disk t = disk s" "dtrace t = dtrace s" "keys_kept pins s0 t"
    using bread_two [OF s0(1,2) ne room(1), of es, unfolded s0(4-6)] by blast
  define t3 where "t3 = t\<lparr>bufs := (bufs t)(c := (bufs t c)\<lparr>bdata := lview s ?x\<rparr>)\<rparr>"
  note sd = bio_set_data [OF r(4) _ r(6), of "lview s ?x", folded t3_def, simplified]
  have f3: "bio_free t3" using s0(2) bio_frame_simps(4) [OF r(10)] bio_frame_simps(4) [OF sd(3)] by simp
  have b3: "caches (bufs t3) n d = caches (bufs t) n d" "bdata (bufs t3 c) = lview s ?x" "bufs t3 b = bufs t b" for n d
    using r(3) by (simp_all add: t3_def caches_def)
  have no: "blockno (bufs t3 b) = ?x" "blockno (bufs t3 c) = ?y" using r(3,5,6) by (simp_all add: t3_def caches_def)
  obtain t4 where w: "bwrite c es t3 = Ok () t4 es" "bio_inv t4 {b, c} pins" "lview t4 = lview t3" "bio_frame t3 t4"
    "bufs t4 = bufs t3" "disk t4 = (disk t3)(?y := lview s ?x)" "dtrace t4 = dtrace t3 @ [(?y, lview s ?x)]"
    using bwrite_spec [OF sd(1) f3, of c ?y es] b3 r(6) by auto
  have f4: "bio_free t4" using f3 bio_frame_simps(4) [OF w(4)] by simp
  have cn: "c < NBUF" "b < NBUF" using bio_inv_held [OF r(4)] by auto
  have pc: "pins c = (if rec then 0 else 1)"
  proof (cases rec)
    case False
    then obtain d where d: "d < NBUF" "caches (bufs s) ?y d" "pins d = 1" using room(2) by auto
    then have "caches (bufs t) ?y d" using r(14) s0(3) by (simp add: keys_kept_def)
    then have "d = c" using bio_inv_unique [OF r(4) d(1) cn(1) _ r(6)] by simp
    then show ?thesis using d(3) False by simp
  qed (use room(2) in simp)
  have "\<exists>t5. (if rec then kret () else bunpin c) es t4 = Ok () t5 es \<and> bio_inv t5 {b, c} (pins(c := 0)) \<and>
      lview t5 = lview t4 \<and> bio_frame t4 t5 \<and> same_data t4 t5"
  proof (cases rec)
    case True
    then have "pins(c := 0) = pins" using pc by (auto simp: fun_upd_idem)
    then show ?thesis using True w(2) by (simp add: same_data_def)
  next
    case False
    then show ?thesis using bunpin_spec [OF w(2), of _ c 0 es] f4 pc cn by (auto simp: bio_free_def)
  qed
  then obtain t5 where p: "(if rec then kret () else bunpin c) es t4 = Ok () t5 es" "bio_inv t5 {b, c} (pins(c := 0))"
      "lview t5 = lview t4" "bio_frame t4 t5" "same_data t4 t5" by blast
  have f5: "bio_free t5" using f4 bio_frame_simps(4) [OF p(4)] by simp
  have cl: "bdata (bufs t5 b) = disk t5 (blockno (bufs t5 b))" "bdata (bufs t5 c) = disk t5 (blockno (bufs t5 c))"
    using p(5) w(5,6) b3(2,3) no r(7,12) lv ne by (simp_all add: same_data_def t3_def)
  obtain t6 where e: "brelse b es t5 = Ok () t6 es" "bio_inv t6 {c} (pins(c := 0))" "lview t6 = lview t5" "bio_frame t5 t6" "same_data t5 t6"
    using brelse_spec [OF p(2) f5, of b es] cl(1) r(3) by (auto simp: insert_Diff_if)
  have f6: "bio_free t6" using f5 bio_frame_simps(4) [OF e(4)] by simp
  have "bdata (bufs t6 c) = disk t6 (blockno (bufs t6 c))" using cl(2) e(5) by (simp add: same_data_def)
  then obtain t7 where g: "brelse c es t6 = Ok () t7 es" "bio_inv t7 {} (pins(c := 0))" "lview t7 = lview t6" "bio_frame t6 t7" "same_data t6 t7"
    using brelse_spec [OF e(2) f6, of c es] by auto
  have fr: "log_frame s t7"
    by (rule log_frame_trans [OF fr0], rule bio_log_frame)
      (rule bio_frame_trans [OF bio_frame_trans [OF bio_frame_trans [OF bio_frame_trans [OF bio_frame_trans
        [OF r(10) sd(3)] w(4)] p(4)] e(4)] g(4)])
  have l0: "log_start s0 = log_start s" "log_dev s0 = ROOTDEV" "log_start u = log_start s" "log_dev u = ROOTDEV"
    using dev log_frame_simps(1,2) [OF fr0] log_frame_simps(1,2) [OF r(11)] by simp_all
  have k0: "(if rec then kprintf ''recovering tail %d dst %d\<newline>'' [int i, sint ?y] else kret ()) es s = Ok () s0 es"
    by (simp add: s0_def)
  have st: "set_buf c (\<lambda>q. q\<lparr>bdata := lview s ?x\<rparr>) es t = Ok () t3 es" by (simp add: t3_def)
  have "install_one rec i es s = Ok () t7 es"
    unfolding install_one_def log_block_def [symmetric]
    using r(1,2) r(7) w(1) p(1) e(1) g(1) l0 k0 st by (simp add: log_block_def del: set_buf_Ok)
  moreover have "log_step s [(?y, lview s ?x)] t7"
    using fr w(3,6,7) sd(2) r(9,12,13) p(3,5) e(3,5) g(3,5) by (simp add: log_step_def same_data_def t3_def)
  moreover have "keys_kept pins s t7"
    using r(14) s0(3) b3(1) w(5) same_data_caches [OF p(5)] same_data_caches [OF e(5)] same_data_caches [OF g(5)]
    by (simp add: keys_kept_def)
  moreover have "\<forall>b < NBUF. (pins(c := 0)) b = (if caches (bufs s) ?y b then 0 else pins b)"
  proof (intro allI impI)
    fix d assume d: "d < NBUF"
    show "(pins(c := 0)) d = (if caches (bufs s) ?y d then 0 else pins d)"
    proof (cases rec)
      case True
      then show ?thesis using room(2) by simp
    next
      case False
      then obtain a where a: "a < NBUF" "caches (bufs s) ?y a" "pins a = 1" using room(2) by auto
      then have "caches (bufs t) ?y a" using r(14) s0(3) by (simp add: keys_kept_def)
      then have ac: "a = c" using bio_inv_unique [OF r(4) a(1) cn(1) _ r(6)] by simp
      have "caches (bufs s) ?y d \<longleftrightarrow> d = c" using bio_inv_unique [OF inv d a(1) _ a(2)] a(2) unfolding ac by blast
      then show ?thesis by simp
    qed
  qed
  ultimately show ?thesis using g(2) by blast
qed

section \<open>Committing\<close>

text \<open>
  A transaction of \<open>n\<close> blocks, ready to be committed: the logged blocks are distinct, lie outside
  the log, and are cached in pinned buffers, and no other buffer is pinned. As \<open>n\<close> is less than
  \<open>NBUF\<close>, a buffer is left for the log's own blocks.
\<close>

definition tx_ok :: "'z klog_scheme \<Rightarrow> nat \<Rightarrow> (nat \<Rightarrow> nat) \<Rightarrow> bool" where
  "tx_ok s n pins \<longleftrightarrow>
     bio_inv s {} pins \<and> bio_free s \<and> log_dev s = ROOTDEV \<and> lh_n s = int n \<and> n < NBUF \<and>
     inj_on (lh_block s) {0..<n} \<and> (\<forall>i < n. \<not> in_log (log_start s) (lh_block s i)) \<and>
     (\<forall>i < n. \<exists>b < NBUF. caches (bufs s) (lh_block s i) b) \<and>
     (\<forall>b < NBUF. pins b = (if \<exists>i < n. caches (bufs s) (lh_block s i) b then 1 else 0))"

lemma tx_room:
  assumes "tx_ok s n pins" shows "\<exists>c < NBUF. pins c = 0"
proof (rule ccontr)
  assume "\<not> (\<exists>c < NBUF. pins c = 0)"
  then have all: "\<exists>i < n. caches (bufs s) (lh_block s i) b" if "b < NBUF" for b
    using assms that unfolding tx_ok_def by metis
  define g where "g b = (SOME i. i < n \<and> caches (bufs s) (lh_block s i) b)" for b
  have g: "g b < n \<and> caches (bufs s) (lh_block s (g b)) b" if "b < NBUF" for b
    unfolding g_def using someI_ex [OF all [OF that]] .
  have "inj_on g {0..<NBUF}"
  proof (rule inj_onI)
    fix b c assume "b \<in> {0..<NBUF}" "c \<in> {0..<NBUF}" "g b = g c"
    then show "b = c" using g [of b] g [of c] bio_inv_unique [of s "{}" pins b c] assms by (simp add: tx_ok_def)
  qed
  moreover have "g ` {0..<NBUF} \<subseteq> {0..<n}" using g by auto
  ultimately have "NBUF \<le> n" using card_inj_on_le [of g "{0..<NBUF}" "{0..<n}"] by simp
  then show False using assms by (simp add: tx_ok_def)
qed

lemma kfor_append [simp]: "kfor (xs @ ys) f es s = kthen (kfor xs f) (kfor ys f) es s"
proof (induction xs arbitrary: es s)
  case (Cons x xs)
  then show ?case by (simp add: kthen_def kbind_def split: kres.splits)
qed simp

lemma NBUF_LOGBLOCKS: "NBUF = LOGBLOCKS"
  by (simp add: NBUF_def LOGBLOCKS_def MAXOPBLOCKS_def)

lemma write_log_loop:
  fixes s :: "'z klog_scheme"
  assumes tx: "tx_ok s n pins" and k: "k \<le> n"
  shows "\<exists>t. kfor [0..<k] write_log_one es s = Ok () t es \<and> bio_inv t {} pins \<and> keys_kept pins s t \<and>
    log_step s (log_writes (log_start s) (\<lambda>i. lview s (lh_block s i)) [0..<k]) t"
  using k
proof (induction k)
  case 0
  then show ?case using tx by (simp add: tx_ok_def log_writes_def log_step_refl keys_kept_def)
next
  case (Suc k)
  let ?v = "\<lambda>i. lview s (lh_block s i)" and ?st = "log_start s"
  obtain t where t: "kfor [0..<k] write_log_one es s = Ok () t es" "bio_inv t {} pins" "keys_kept pins s t"
    "log_step s (log_writes ?st ?v [0..<k]) t" using Suc by auto
  have fr: "log_frame s t" and lv: "lview t = apply_writes (lview s) (log_writes ?st ?v [0..<k])"
    using t(4) by (simp_all add: log_step_def)
  note ls = log_frame_simps [OF fr]
  have n: "k < n" "n \<le> LOGBLOCKS" using Suc.prems tx NBUF_LOGBLOCKS by (auto simp: tx_ok_def)
  have kn: "\<not> in_log ?st (lh_block s k)" using tx n(1) by (simp add: tx_ok_def)
  have pin: "\<exists>c < NBUF. caches (bufs s) (lh_block s k) c \<and> 0 < pins c" using tx n(1) unfolding tx_ok_def by fastforce
  have "\<exists>u. write_log_one k es t = Ok () u es \<and> bio_inv u {} pins \<and> keys_kept pins t u \<and>
    log_step t [(log_block (log_start t) k, lview t (lh_block t k))] u"
    by (rule write_log_one_spec [OF t(2)])
      (use ls tx kn n pin t(3) tx_room [OF tx] in \<open>auto simp: tx_ok_def keys_kept_def\<close>)
  then obtain u where u: "write_log_one k es t = Ok () u es" "bio_inv u {} pins" "keys_kept pins t u"
    "log_step t [(log_block (log_start t) k, lview t (lh_block t k))] u" by blast
  have "lview t (lh_block s k) = ?v k"
    unfolding lv by (rule log_writes_at(2) [OF _ _ kn, of k]) (use n in auto)
  then have "log_step s (log_writes ?st ?v [0..<Suc k]) u"
    using log_step_trans [OF t(4) u(4)] ls by (simp add: log_writes_def)
  then show ?case using t(1) u keys_kept_trans [OF t(3) u(3)] by (intro exI [of _ u]) simp
qed

lemma write_head_spec:
  fixes s :: "'z klog_scheme"
  assumes inv: "bio_inv s {} pins" and free: "bio_free s" and dev: "log_dev s = ROOTDEV" and room: "\<exists>c < NBUF. pins c = 0"
  shows "\<exists>t. write_head es s = Ok () t es \<and> bio_inv t {} pins \<and> keys_kept pins s t \<and>
    log_step s [(log_start s, put_head (lview s (log_start s)) (lh_n s) (lh_block s))] t"
proof -
  let ?x = "log_start s" and ?h = "put_head (lview s (log_start s)) (lh_n s) (lh_block s)"
  obtain b t where b: "bread ROOTDEV ?x es s = Ok b t es" "b < NBUF" "bio_inv t {b} pins" "caches (bufs t) ?x b"
    "bdata (bufs t b) = lview s ?x" "lview t = lview s" "bio_frame s t" "disk t = disk s" "dtrace t = dtrace s"
    "\<forall>c. c \<noteq> b \<longrightarrow> bufs t c = bufs s c" "caches (bufs s) ?x b \<or> pins b = 0"
    using bread_spec [OF inv free, of ?x es] room by auto
  note ls = log_frame_simps [OF bio_log_frame [OF b(7)]]
  define t3 where "t3 = t\<lparr>bufs := (bufs t)(b := (bufs t b)\<lparr>bdata := ?h\<rparr>)\<rparr>"
  note sd = bio_set_data [OF b(3) _ b(4), of ?h, folded t3_def, simplified]
  have f3: "bio_free t3" using free bio_frame_simps(4) [OF b(7)] bio_frame_simps(4) [OF sd(3)] by simp
  have b3: "caches (bufs t3) n d = caches (bufs t) n d" "bdata (bufs t3 b) = ?h" for n d
    by (simp_all add: t3_def caches_def)
  obtain t4 where w: "bwrite b es t3 = Ok () t4 es" "bio_inv t4 {b} pins" "lview t4 = lview t3" "bio_frame t3 t4"
    "bufs t4 = bufs t3" "disk t4 = (disk t3)(?x := ?h)" "dtrace t4 = dtrace t3 @ [(?x, ?h)]"
    using bwrite_spec [OF sd(1) f3, of b ?x es] b3 b(4) by auto
  have f4: "bio_free t4" using f3 bio_frame_simps(4) [OF w(4)] by simp
  have "blockno (bufs t3 b) = ?x" using b(4) by (simp add: t3_def caches_def)
  then have cl: "bdata (bufs t4 b) = disk t4 (blockno (bufs t4 b))" using w(5,6) b3(2) by simp
  obtain t5 where e: "brelse b es t4 = Ok () t5 es" "bio_inv t5 {} pins" "lview t5 = lview t4" "bio_frame t4 t5" "same_data t4 t5"
    using brelse_spec [OF w(2) f4, of b es] cl by auto
  have st: "set_buf b (\<lambda>q. q\<lparr>bdata := put_head (bdata q) (lh_n s) (lh_block s)\<rparr>) es t = Ok () t3 es"
    using b(5) by (simp add: t3_def)
  have "write_head es s = Ok () t5 es"
    using b(1) ls dev st w(1) e(1) by (simp add: write_head_def del: set_buf_Ok)
  moreover have "log_step s [(?x, ?h)] t5"
    using bio_log_frame [OF bio_frame_trans [OF bio_frame_trans [OF bio_frame_trans [OF b(7) sd(3)] w(4)] e(4)]]
      w(3,6,7) sd(2) b(6,8,9) e(3,5) by (simp add: log_step_def same_data_def t3_def)
  moreover have "keys_kept pins s t5"
  proof -
    have "keys_kept pins s t" by (rule keys_keptI) (fact b(4,10,11))+
    then show ?thesis using b3(1) w(5) same_data_caches [OF e(5)] by (simp add: keys_kept_def)
  qed
  ultimately show ?thesis using e(2) by blast
qed

text \<open>
  Installing, in the commit and in recovery: \<open>v\<close> are the contents of the log blocks, which are
  the same in the cache and on the disk.
\<close>

lemma install_loop:
  fixes s :: "'z klog_scheme"
  assumes inv: "bio_inv s {} pins" and free: "bio_free s" and dev: "log_dev s = ROOTDEV" and n: "n \<le> LOGBLOCKS" "k \<le> n"
    and f: "\<And>i. i < n \<Longrightarrow> \<not> in_log (log_start s) (lh_block s i)" and room: "\<exists>c < NBUF. pins c = 0"
    and v: "\<And>i. i < n \<Longrightarrow> lview s (log_block (log_start s) i) = v i \<and> disk s (log_block (log_start s) i) = v i"
    and pin: "if rec then \<forall>c. pins c = 0
      else inj_on (lh_block s) {0..<n} \<and> (\<forall>i < n. \<exists>c < NBUF. caches (bufs s) (lh_block s i) c \<and> pins c = 1)"
  shows "\<exists>t pins'. kfor [0..<k] (install_one rec) es s = Ok () t es \<and> bio_inv t {} pins' \<and> keys_kept pins' s t \<and>
    (\<forall>b < NBUF. pins' b = (if \<exists>i < k. caches (bufs s) (lh_block s i) b then 0 else pins b)) \<and> (rec \<longrightarrow> (\<forall>b. pins' b = 0)) \<and>
    log_step s (home_writes (lh_block s) v [0..<k]) t"
  using n(2)
proof (induction k)
  case 0
  then show ?case using inv pin by (intro exI [of _ s] exI [of _ pins]) (simp add: home_writes_def log_step_refl keys_kept_def)
next
  case (Suc k)
  let ?st = "log_start s" and ?f = "lh_block s"
  obtain t ps where t: "kfor [0..<k] (install_one rec) es s = Ok () t es" "bio_inv t {} ps" "keys_kept ps s t"
    "\<forall>b < NBUF. ps b = (if \<exists>i < k. caches (bufs s) (?f i) b then 0 else pins b)" "rec \<longrightarrow> (\<forall>b. ps b = 0)"
    "log_step s (home_writes ?f v [0..<k]) t" using Suc by auto
  have fr: "log_frame s t" and lv: "lview t = apply_writes (lview s) (home_writes ?f v [0..<k])"
    and dt: "disk t = apply_writes (disk s) (home_writes ?f v [0..<k])"
    using t(6) by (simp_all add: log_step_def)
  note ls = log_frame_simps [OF fr]
  have k: "k < n" using Suc.prems by simp
  have "log_block ?st k \<notin> fst ` set (home_writes ?f v [0..<k])"
    using log_block_in(1) [of k ?st] f k n(1) by (auto simp: home_writes_def)
  then have vk: "lview t (log_block ?st k) = v k" "disk t (log_block ?st k) = v k"
    unfolding lv dt using v [OF k] by (simp_all add: apply_writes_other)
  have room': "\<exists>c < NBUF. ps c = 0" using room t(4) by (metis (no_types, lifting))
  have p1: "\<exists>c < NBUF. caches (bufs t) (?f k) c \<and> ps c = 1 \<and> caches (bufs s) (?f k) c" if nr: "\<not> rec"
  proof -
    obtain c where c: "c < NBUF" "caches (bufs s) (?f k) c" "pins c = 1" using pin nr k by auto
    have "\<not> caches (bufs s) (?f i) c" if "i < k" for i
    proof
      assume "caches (bufs s) (?f i) c"
      then have "?f i = ?f k" using c(2) by (simp add: caches_def)
      then show False using pin nr that k inj_onD [of ?f "{0..<n}" i k] by simp
    qed
    then have "ps c = 1" using t(4) c by auto
    then show ?thesis using c t(3) by (auto simp: keys_kept_def)
  qed
  have "\<exists>u ps'. install_one rec k es t = Ok () u es \<and> bio_inv u {} ps' \<and>
    (\<forall>b < NBUF. ps' b = (if caches (bufs t) (lh_block t k) b then 0 else ps b)) \<and> keys_kept ps t u \<and>
    log_step t [(lh_block t k, lview t (log_block (log_start t) k))] u"
    by (rule install_one_spec [OF t(2)]) (use ls free dev f k n(1) room' t(5) p1 vk in auto)
  then obtain u ps' where u: "install_one rec k es t = Ok () u es" "bio_inv u {} ps'"
    "\<forall>b < NBUF. ps' b = (if caches (bufs t) (?f k) b then 0 else ps b)" "keys_kept ps t u"
    "log_step t [(?f k, v k)] u" using ls vk by auto
  define qs where "qs b = (if b < NBUF then ps' b else 0)" for b
  have q: "\<forall>b < NBUF. qs b = (if \<exists>i < Suc k. caches (bufs s) (?f i) b then 0 else pins b)"
  proof (intro allI impI)
    fix b assume b: "b < NBUF"
    have ps: "ps b = (if \<exists>i < k. caches (bufs s) (?f i) b then 0 else pins b)" using t(4) b by simp
    show "qs b = (if \<exists>i < Suc k. caches (bufs s) (?f i) b then 0 else pins b)"
    proof (cases "ps b = 0")
      case True
      then have "qs b = 0" using u(3) b by (simp add: qs_def)
      moreover have "(\<exists>i < k. caches (bufs s) (?f i) b) \<or> pins b = 0"
        using ps True by (cases "\<exists>i < k. caches (bufs s) (?f i) b") simp_all
      ultimately show ?thesis by (auto simp: less_Suc_eq)
    next
      case False
      then have "caches (bufs t) (?f k) b = caches (bufs s) (?f k) b" using t(3) b by (simp add: keys_kept_def)
      moreover have "\<not> (\<exists>i < k. caches (bufs s) (?f i) b)" "ps b = pins b"
        using ps False by (cases "\<exists>i < k. caches (bufs s) (?f i) b"; simp)+
      ultimately show ?thesis using u(3) b by (auto simp: qs_def less_Suc_eq)
    qed
  qed
  have bq: "bio_inv u {} qs" using u(2) by (simp add: bio_inv_def qs_def)
  have kq: "keys_kept qs s u" using t(3) u(3,4) by (auto simp: keys_kept_def qs_def)
  have "rec \<longrightarrow> (\<forall>b. qs b = 0)" using u(3) t(5) by (auto simp: qs_def)
  moreover have "log_step s (home_writes ?f v [0..<Suc k]) u"
    using log_step_trans [OF t(6) u(5)] by (simp add: home_writes_def)
  moreover have "kfor [0..<Suc k] (install_one rec) es s = Ok () u es" using t(1) u(1) by simp
  ultimately show ?case using bq kq q by blast
qed

lemma commit_spec:
  fixes s :: "'z klog_scheme"
  assumes tx: "tx_ok s n pins" and n: "0 < n" and st: "st = log_start s" and f: "f = lh_block s" and v: "v = (\<lambda>i. lview s (f i))"
  shows "\<exists>t pins' h1 h2. commit es s = Ok () t es \<and> bio_inv t {} pins' \<and> (\<forall>b < NBUF. pins' b = 0) \<and> lh_n t = 0 \<and>
    log_start t = st \<and> log_dev t = ROOTDEV \<and> bio_free t \<and>
    disk t = apply_writes (disk s) (commit_writes st f v n h1 h2) \<and>
    lview t = apply_writes (lview s) (commit_writes st f v n h1 h2) \<and>
    dtrace t = dtrace s @ commit_writes st f v n h1 h2 \<and>
    head_n h1 = int n \<and> (\<forall>i < n. head_block h1 i = f i) \<and> head_n h2 = 0"
proof -
  have D: "bio_inv s {} pins" "bio_free s" "log_dev s = ROOTDEV" "lh_n s = int n" "inj_on f {0..<n}"
    and out: "\<And>i. i < n \<Longrightarrow> \<not> in_log st (f i)"
    and pn: "\<forall>b < NBUF. pins b = (if \<exists>i < n. caches (bufs s) (f i) b then 1 else 0)"
    and ca: "\<And>i. i < n \<Longrightarrow> \<exists>b < NBUF. caches (bufs s) (f i) b"
    and nn: "n < NBUF" using tx unfolding tx_ok_def st f by blast+
  have N: "n \<le> LOGBLOCKS" "n \<le> 30" using nn by (simp_all add: NBUF_def LOGBLOCKS_def MAXOPBLOCKS_def)
  have ca1: "\<exists>b < NBUF. caches (bufs s) (f i) b \<and> pins b = 1" if i: "i < n" for i
  proof -
    obtain b where b: "b < NBUF" "caches (bufs s) (f i) b" using ca [OF i] by blast
    then have "\<exists>i < n. caches (bufs s) (f i) b" using i by blast
    then have "pins b = 1" using pn b(1) by simp
    with b show ?thesis by blast
  qed
  obtain t1 where t1: "kfor [0..<n] write_log_one es s = Ok () t1 es" "bio_inv t1 {} pins" "keys_kept pins s t1"
    "log_step s (log_writes st v [0..<n]) t1"
    using write_log_loop [OF tx order_refl, of es] unfolding st v f by blast
  have fr1: "log_frame s t1" and v1: "lview t1 = apply_writes (lview s) (log_writes st v [0..<n])"
    "disk t1 = apply_writes (disk s) (log_writes st v [0..<n])" using t1(4) by (simp_all add: log_step_def)
  note l1 = log_frame_simps [OF fr1, folded st f]
  obtain t2 where t2: "write_head es t1 = Ok () t2 es" "bio_inv t2 {} pins" "keys_kept pins t1 t2"
    "log_step t1 [(st, put_head (lview t1 st) (int n) f)] t2"
    using write_head_spec [OF t1(2) _ _ tx_room [OF tx], of es] l1 D(2-4) by auto
  let ?h1 = "put_head (lview t1 st) (int n) f"
  have fr2: "log_frame t1 t2" using t2(4) by (simp add: log_step_def)
  note l2 = log_frame_simps [OF fr2, unfolded l1]
  have v2: "lview t2 = (lview t1)(st := ?h1)" "disk t2 = (disk t1)(st := ?h1)" using t2(4) by (simp_all add: log_step_def)
  have lb: "lview t2 (log_block st i) = v i \<and> disk t2 (log_block st i) = v i" if "i < n" for i
    using log_writes_at(3) [OF N(1), of "[0..<n]" i _ st v] log_block_in(2) [of i st] that N(1) unfolding v2 v1 by simp
  have k2: "keys_kept pins s t2" using keys_kept_trans [OF t1(3) t2(3)] .
  have ca2: "\<exists>b < NBUF. caches (bufs t2) (f i) b \<and> pins b = 1" if "i < n" for i
    using ca1 [OF that] k2 by (auto simp: keys_kept_def)
  have out2: "\<And>i. i < n \<Longrightarrow> \<not> in_log (log_start t2) (lh_block t2 i)" using out l2 by simp
  obtain t3 ps where t3: "kfor [0..<n] (install_one False) es t2 = Ok () t3 es" "bio_inv t3 {} ps"
    "\<forall>b < NBUF. ps b = (if \<exists>i < n. caches (bufs t2) (f i) b then 0 else pins b)"
    "log_step t2 (home_writes f v [0..<n]) t3"
    using install_loop [OF t2(2) _ _ N(1) order_refl out2 tx_room [OF tx], of v False es] l2 lb ca2 D(2,3,5) by auto
  have fr3: "log_frame t2 t3" using t3(4) by (simp add: log_step_def)
  note l3 = log_frame_simps [OF fr3, unfolded l2]
  have ps0: "ps b = 0" if b: "b < NBUF" for b
  proof (cases "\<exists>i < n. caches (bufs s) (f i) b")
    case True
    then have "pins b = 1" using pn b by simp
    then have "caches (bufs t2) m b = caches (bufs s) m b" for m using k2 b by (simp add: keys_kept_def)
    then show ?thesis using t3(3) b True by simp
  next
    case False
    then have "pins b = 0" using pn b by simp
    then show ?thesis using t3(3) b by simp
  qed
  define t4 where "t4 = t3\<lparr>lh_n := 0\<rparr>"
  have e4: "bufs t4 = bufs t3" "disk t4 = disk t3" "slocks t4 = slocks t3" "cur t4 = cur t3" "procs t4 = procs t3"
    "dtrace t4 = dtrace t3" "held t4 = held t3" "log_start t4 = st" "log_dev t4 = ROOTDEV" "lh_n t4 = 0" "lh_block t4 = f"
    using l3 D(3) by (simp_all add: t4_def)
  have i4: "bio_inv t4 {} ps" "lview t4 = lview t3" "bio_free t4"
    using t3(2) bio_inv_cong [OF e4(1-5)] lview_cong [OF e4(1,2)] l3 D(2) by (simp_all add: bio_free_def e4)
  have "\<exists>c < NBUF. ps c = 0" using ps0 by (intro exI [of _ 0]) (simp add: NBUF_def)
  then obtain t5 where t5: "write_head es t4 = Ok () t5 es" "bio_inv t5 {} ps"
    "log_step t4 [(st, put_head (lview t4 st) 0 f)] t5"
    using write_head_spec [OF i4(1,3), of es] e4 by auto
  let ?h2 = "put_head (lview t4 st) 0 f"
  have fr5: "log_frame t4 t5" using t5(3) by (simp add: log_step_def)
  note l5 = log_frame_simps [OF fr5, unfolded e4]
  have "commit es s = Ok () t5 es"
    using n D(4) t1(1) t2(1) t3(1) t5(1) l1 l2
    by (simp add: commit_def write_log_def install_trans_def t4_def [symmetric])
  moreover have "disk t5 = apply_writes (disk s) (commit_writes st f v n ?h1 ?h2)"
    "lview t5 = apply_writes (lview s) (commit_writes st f v n ?h1 ?h2)"
    "dtrace t5 = dtrace s @ commit_writes st f v n ?h1 ?h2"
    using t1(4) t2(4) t3(4) t5(3) i4(2) e4 unfolding commit_writes_def log_step_def by simp_all
  moreover have "head_n ?h1 = int n" "\<forall>i < n. head_block ?h1 i = f i" "head_n ?h2 = 0"
    using put_head N(2) by auto
  moreover have "bio_free t5" using l5 i4(3) by (simp add: bio_free_def e4)
  ultimately show ?thesis using t5(2) ps0 l5 by blast
qed

section \<open>Recovery\<close>

lemma read_head_spec:
  fixes s :: "'z klog_scheme"
  assumes inv: "bio_inv s {} (\<lambda>_. 0)" and free: "bio_free s" and dev: "log_dev s = ROOTDEV"
  shows "\<exists>t. read_head es s = Ok () t es \<and> bio_inv t {} (\<lambda>_. 0) \<and> bio_free t \<and> log_dev t = ROOTDEV \<and>
    log_start t = log_start s \<and> lh_n t = head_n (disk s (log_start s)) \<and>
    (\<forall>i. int i < lh_n t \<longrightarrow> lh_block t i = head_block (disk s (log_start s)) i) \<and>
    disk t = disk s \<and> lview t = lview s \<and> dtrace t = dtrace s"
proof -
  let ?x = "log_start s" and ?d = "disk s (log_start s)"
  have "(\<exists>c < NBUF. caches (bufs s) ?x c) \<or> (\<exists>c < NBUF. c \<notin> {} \<and> (\<lambda>_. 0 :: nat) c = 0)"
    by (intro disjI2 exI [of _ 0]) (simp add: NBUF_def)
  then obtain b t where b: "bread ROOTDEV ?x es s = Ok b t es" "bio_inv t {b} (\<lambda>_. 0)" "caches (bufs t) ?x b"
    "bdata (bufs t b) = lview s ?x" "lview t = lview s" "bio_frame s t" "disk t = disk s" "dtrace t = dtrace s"
    using bread_spec [OF inv free _, of ?x es] by auto
  have cl: "lview s ?x = ?d" by (rule lview_clean [OF inv]) simp
  note ls = log_frame_simps [OF bio_log_frame [OF b(6)]]
  define u where "u = t\<lparr>lh_n := head_n ?d, lh_block := \<lambda>i. if int i < head_n ?d then head_block ?d i else lh_block t i\<rparr>"
  have e: "bufs u = bufs t" "disk u = disk t" "slocks u = slocks t" "cur u = cur t" "procs u = procs t" "dtrace u = dtrace t"
    "held u = held t" by (simp_all add: u_def)
  have iu: "bio_inv u {b} (\<lambda>_. 0)" "lview u = lview t" "bio_free u"
    using b(2) bio_inv_cong [OF e(1-5)] lview_cong [OF e(1,2)] free ls by (simp_all add: bio_free_def e)
  have "bdata (bufs u b) = disk u (blockno (bufs u b))" using b(3,4,7) cl by (simp add: e caches_def)
  then obtain w where w: "brelse b es u = Ok () w es" "bio_inv w {} (\<lambda>_. 0)" "lview w = lview u" "bio_frame u w" "same_data u w"
    using brelse_spec [OF iu(1,3), of b es] by auto
  note lw = log_frame_simps [OF bio_log_frame [OF w(4)]]
  have "read_head es s = Ok () w es"
    using b(1,4) cl ls dev w(1) by (simp add: read_head_def u_def cong: if_cong)
  moreover have "bio_free w" using iu(3) lw by (simp add: bio_free_def)
  ultimately show ?thesis using w(2,3,5) lw ls iu(2) b(5,7,8) dev e
    by (intro exI [of _ w]) (simp add: u_def same_data_def)
qed

definition recovery_writes :: "uint32 \<Rightarrow> disk_image \<Rightarrow> memory \<Rightarrow> (uint32 \<times> memory) list" where
  "recovery_writes start d h =
     map (\<lambda>i. (head_block (d start) i, d (log_block start i))) [0..<nat (head_n (d start))] @ [(start, h)]"

text \<open>A disk whose log header \<open>read_head\<close> can work with.\<close>

definition log_valid :: "uint32 \<Rightarrow> disk_image \<Rightarrow> bool" where
  "log_valid start d \<longleftrightarrow> 0 \<le> head_n (d start) \<and> head_n (d start) \<le> int LOGBLOCKS \<and>
     (\<forall>i < nat (head_n (d start)). \<not> in_log start (head_block (d start) i))"

lemma recover_spec:
  fixes s :: "'z klog_scheme"
  assumes inv: "bio_inv s {} (\<lambda>_. 0)" and free: "bio_free s" and dev: "log_dev s = ROOTDEV" and st: "st = log_start s"
    and valid: "log_valid st (disk s)"
  shows "\<exists>t h. recover_from_log es s = Ok () t es \<and> bio_inv t {} (\<lambda>_. 0) \<and> bio_free t \<and> lh_n t = 0 \<and>
    log_start t = st \<and> log_dev t = ROOTDEV \<and> disk t = apply_writes (disk s) (recovery_writes st (disk s) h) \<and>
    dtrace t = dtrace s @ recovery_writes st (disk s) h \<and> head_n h = 0"
proof -
  obtain t1 where t1: "read_head es s = Ok () t1 es" "bio_inv t1 {} (\<lambda>_. 0)" "bio_free t1" "log_dev t1 = ROOTDEV"
    "log_start t1 = st" "lh_n t1 = head_n (disk s st)" "\<forall>i. int i < lh_n t1 \<longrightarrow> lh_block t1 i = head_block (disk s st) i"
    "disk t1 = disk s" "lview t1 = lview s" "dtrace t1 = dtrace s"
    using read_head_spec [OF inv free dev, of es] st by auto
  define n where "n = nat (head_n (disk s st))"
  have n: "n \<le> LOGBLOCKS" "lh_n t1 = int n" using valid t1(6) by (simp_all add: log_valid_def n_def nat_le_iff)
  have out: "\<not> in_log (log_start t1) (lh_block t1 i)" if "i < n" for i
    using valid that t1(5-7) n by (simp add: log_valid_def n_def)
  let ?v = "\<lambda>i. disk s (log_block st i)"
  have cl: "lview t1 b = disk s b" for b using lview_clean [OF t1(2), of b] t1(8) by simp
  have "\<exists>c < NBUF. (\<lambda>_. 0 :: nat) c = 0" by (intro exI [of _ 0]) (simp add: NBUF_def)
  from install_loop [OF t1(2,3,4) n(1) order_refl out this, of ?v True es] cl t1(5,8)
  obtain t2 ps where t2: "kfor [0..<n] (install_one True) es t1 = Ok () t2 es" "bio_inv t2 {} ps" "\<forall>b. ps b = 0"
    "log_step t1 (home_writes (lh_block t1) ?v [0..<n]) t2" by auto
  have ps: "ps = (\<lambda>_. 0)" using t2(3) by auto
  have l2: "log_start t2 = st" "log_dev t2 = ROOTDEV" "lh_n t2 = int n" "bio_free t2" "held t2 = held t1"
    using log_frame_simps [of t1 t2] t2(4) t1(3-5) n by (simp_all add: log_step_def)
  define t3 where "t3 = t2\<lparr>lh_n := 0\<rparr>"
  have e: "bufs t3 = bufs t2" "disk t3 = disk t2" "slocks t3 = slocks t2" "cur t3 = cur t2" "procs t3 = procs t2" "dtrace t3 = dtrace t2"
    "held t3 = held t2" "log_start t3 = st" "log_dev t3 = ROOTDEV" "lh_n t3 = 0" using l2 by (simp_all add: t3_def)
  have i3: "bio_inv t3 {} (\<lambda>_. 0)" "bio_free t3"
    using t2(2) ps bio_inv_cong [OF e(1-5)] l2(4) by (simp_all add: bio_free_def e)
  have "\<exists>c < NBUF. (\<lambda>_. 0 :: nat) c = 0" by (intro exI [of _ 0]) (simp add: NBUF_def)
  then obtain t4 where t4: "write_head es t3 = Ok () t4 es" "bio_inv t4 {} (\<lambda>_. 0)"
    "log_step t3 [(st, put_head (lview t3 st) 0 (lh_block t3))] t4"
    using write_head_spec [OF i3, of es] e by auto
  let ?h = "put_head (lview t3 st) 0 (lh_block t3)"
  have l4: "log_start t4 = st" "log_dev t4 = ROOTDEV" "lh_n t4 = 0" "bio_free t4"
    using log_frame_simps [of t3 t4] t4(3) e i3(2) by (simp_all add: log_step_def)
  have w: "home_writes (lh_block t1) ?v [0..<n] @ [(st, ?h)] = recovery_writes st (disk s) ?h"
    using t1(7) n by (simp add: home_writes_def recovery_writes_def flip: n_def)
  have "recover_from_log es s = Ok () t4 es"
    using t1(1) t2(1) t4(1) n by (simp add: recover_from_log_def install_trans_def t3_def)
  moreover have "disk t4 = apply_writes (disk s) (recovery_writes st (disk s) ?h)"
    "dtrace t4 = dtrace s @ recovery_writes st (disk s) ?h"
    using t2(4) t4(3) t1(8,10) e unfolding w [symmetric] log_step_def by simp_all
  moreover have "head_n ?h = 0" using put_head by simp
  ultimately show ?thesis using t4(2) l4 by blast
qed

text \<open>A disk with the first writes of a commit on it can be recovered.\<close>

lemma log_valid_crash:
  fixes v :: "nat \<Rightarrow> memory"
  assumes n: "n \<le> LOGBLOCKS" and f: "inj_on f {0..<n}" "\<And>i. i < n \<Longrightarrow> \<not> in_log start (f i)"
    and h: "head_n (d start) = 0" "head_n h1 = int n" "\<And>i. i < n \<Longrightarrow> head_block h1 i = f i" "head_n h2 = 0"
  shows "log_valid start (apply_writes d (take k (commit_writes start f v n h1 h2)))"
proof -
  let ?ws = "commit_writes start f v n h1 h2"
  have "apply_writes d (take k ?ws) start \<in> {d start, h1, h2}"
  proof (cases "k \<le> n")
    case True
    have e: "take k ?ws = log_writes start v (take k [0..<n])"
      using True by (simp add: commit_writes_def log_writes_def take_map)
    have "apply_writes d (take k ?ws) start = d start"
      unfolding e by (rule log_writes_at(1) [OF n]) (auto dest: in_set_takeD)
    then show ?thesis by simp
  next
    case False
    let ?m = "k - n - 1" and ?d1 = "(apply_writes d (log_writes start v [0..<n]))(start := h1)"
    have len: "length (log_writes start v [0..<n]) = n" "length (home_writes f v [0..<n]) = n"
      by (simp_all add: log_writes_def home_writes_def)
    have e: "take k ?ws = log_writes start v [0..<n] @ [(start, h1)] @ take ?m (home_writes f v [0..<n] @ [(start, h2)])"
      using False len by (simp add: commit_writes_def take_Cons' Suc_diff_Suc)
    have "apply_writes ?d1 (home_writes f v (take ?m [0..<n])) start = ?d1 start"
      by (rule home_writes_at(1) [OF f]) (auto dest: in_set_takeD)
    then show ?thesis unfolding e using len
      by (cases "?m \<le> n") (simp_all add: home_writes_def take_map)
  qed
  then show ?thesis using h f(2) n by (auto simp: log_valid_def)
qed

lemma recovery_writes_recovered:
  assumes "log_valid start d" "\<not> in_log start b"
  shows "apply_writes d (recovery_writes start d h) b = recovered start d b"
  using assms(2) by (auto simp: recovery_writes_def recovered_def)

section \<open>\<open>log_write\<close>\<close>

text \<open>
  An open transaction: the \<open>n\<close> logged blocks are distinct, lie outside the log, are cached, and are
  pinned once each; nothing else is pinned. \<open>H\<close> are the buffers locked by the running process.
\<close>

definition tx_open :: "'z klog_scheme \<Rightarrow> nat set \<Rightarrow> nat \<Rightarrow> (nat \<Rightarrow> nat) \<Rightarrow> bool" where
  "tx_open s H n pins \<longleftrightarrow>
     bio_inv s H pins \<and> bio_free s \<and> log_dev s = ROOTDEV \<and> lh_n s = int n \<and>
     inj_on (lh_block s) {0..<n} \<and> (\<forall>i < n. \<not> in_log (log_start s) (lh_block s i)) \<and>
     (\<forall>i < n. \<exists>b < NBUF. caches (bufs s) (lh_block s i) b) \<and>
     (\<forall>b < NBUF. pins b = (if \<exists>i < n. caches (bufs s) (lh_block s i) b then 1 else 0))"

lemma tx_ok_open: "tx_ok s n pins \<longleftrightarrow> tx_open s {} n pins \<and> n < NBUF"
  unfolding tx_ok_def tx_open_def by blast

lemma log_index_cases:
  "i \<le> n \<Longrightarrow> (log_index f bno n i = n \<and> (\<forall>j. i \<le> j \<and> j < n \<longrightarrow> f j \<noteq> bno)) \<or>
     (i \<le> log_index f bno n i \<and> log_index f bno n i < n \<and> f (log_index f bno n i) = bno)"
proof (induction f bno n i rule: log_index.induct)
  case (1 f bno n i)
  consider "i = n" | "i < n" "f i = bno" | "i < n" "f i \<noteq> bno" using 1(2) by linarith
  then show ?case
  proof cases
    case 3
    then have e: "log_index f bno n i = log_index f bno n (Suc i)" by (subst log_index.simps) simp
    show ?thesis using 1(1) [OF 3] 3 unfolding e by (metis Suc_leI le_antisym not_less_eq_eq Suc_leD)
  qed (auto simp: log_index.simps)
qed

text \<open>What the operations of a transaction leave alone.\<close>

definition tx_frame :: "'z klog_scheme \<Rightarrow> 'z klog_scheme \<Rightarrow> bool" where
  "tx_frame s t \<longleftrightarrow>
     t = s\<lparr>bufs := bufs t, slocks := slocks t, procs := procs t, disk := disk t, dtrace := dtrace t,
           lh_n := lh_n t, lh_block := lh_block t\<rparr> \<and>
     (\<forall>i. slocks t (InodeSleep i) = slocks s (InodeSleep i)) \<and>
     (\<forall>p. cur s = Some p \<longrightarrow> procs t p = procs s p)"

lemma tx_frame_refl [simp]: "tx_frame s s"
  by (simp add: tx_frame_def)

lemma tx_frame_trans:
  assumes "tx_frame s t" "tx_frame t u" shows "tx_frame s u"
proof -
  have t: "t = s\<lparr>bufs := bufs t, slocks := slocks t, procs := procs t, disk := disk t, dtrace := dtrace t,
      lh_n := lh_n t, lh_block := lh_block t\<rparr>"
    and u: "u = t\<lparr>bufs := bufs u, slocks := slocks u, procs := procs u, disk := disk u, dtrace := dtrace u,
      lh_n := lh_n u, lh_block := lh_block u\<rparr>"
    using assms by (simp_all add: tx_frame_def)
  have "u = s\<lparr>bufs := bufs u, slocks := slocks u, procs := procs u, disk := disk u, dtrace := dtrace u,
      lh_n := lh_n u, lh_block := lh_block u\<rparr>"
    by (subst u, subst t) simp
  moreover have "cur t = cur s" by (subst t) simp
  ultimately show ?thesis using assms by (auto simp: tx_frame_def)
qed

lemma tx_frame_simps:
  fixes s t :: "'z klog_scheme"
  assumes "tx_frame s t"
  shows "held t = held s" "cur t = cur s" "log_start t = log_start s" "log_outstanding t = log_outstanding s" "log_dev t = log_dev s"
    "mem t = mem s"
proof -
  have t: "t = s\<lparr>bufs := bufs t, slocks := slocks t, procs := procs t, disk := disk t, dtrace := dtrace t,
      lh_n := lh_n t, lh_block := lh_block t\<rparr>" using assms by (simp add: tx_frame_def)
  show "held t = held s" "cur t = cur s" "log_start t = log_start s" "log_outstanding t = log_outstanding s" "log_dev t = log_dev s"
    "mem t = mem s" by (subst t, simp)+
qed

lemma bio_tx_frame:
  fixes s t :: "'z klog_scheme"
  assumes "bio_frame s t" shows "tx_frame s t"
proof -
  have t: "t = s\<lparr>bufs := bufs t, slocks := slocks t, procs := procs t, disk := disk t, dtrace := dtrace t\<rparr>"
    using assms by (simp add: bio_frame_def)
  have "lh_n t = lh_n s" "lh_block t = lh_block s" by (subst t, simp)+
  then have "t = s\<lparr>bufs := bufs t, slocks := slocks t, procs := procs t, disk := disk t, dtrace := dtrace t,
      lh_n := lh_n t, lh_block := lh_block t\<rparr>" by (subst t) simp
  then show ?thesis using assms by (simp add: tx_frame_def bio_frame_def)
qed

lemma log_write_new:
  fixes s :: "'z klog_scheme"
  assumes tx: "tx_open s H n pins" and b: "b \<in> H" and free: "LogLock \<notin> set (held s)" and n: "n < LOGBLOCKS"
    and out: "1 \<le> log_outstanding s" and bno: "bno = blockno (bufs s b)" "\<not> in_log (log_start s) bno"
    and new: "\<forall>j < n. lh_block s j \<noteq> bno"
  shows "\<exists>t. log_write b es s = Ok () t es \<and> tx_open t H (Suc n) (pins(b := 1)) \<and> lview t = lview s \<and> same_data s t \<and>
    log_start t = log_start s \<and> log_outstanding t = log_outstanding s \<and> lh_block t = (lh_block s)(n := bno) \<and> held t = held s \<and> tx_frame s t"
proof -
  have D: "bio_inv s H pins" "bio_free s" "log_dev s = ROOTDEV" "lh_n s = int n" "inj_on (lh_block s) {0..<n}"
    and o: "\<forall>i < n. \<not> in_log (log_start s) (lh_block s i)" and ca: "\<forall>i < n. \<exists>b < NBUF. caches (bufs s) (lh_block s i) b"
    and pn: "\<forall>b < NBUF. pins b = (if \<exists>i < n. caches (bufs s) (lh_block s i) b then 1 else 0)"
    using tx unfolding tx_open_def by blast+
  have bn: "b < NBUF" using bio_inv_held [OF D(1) b] .
  obtain p where p: "cur s = Some p" using D(2) by (auto simp: bio_free_def)
  have pb: "pins b = 0" using pn bn new bno(1) by (auto simp: caches_def)
  have bc: "caches (bufs s) bno b" using bio_invD(1) [OF D(1) bn] b bno(1) by (auto simp: caches_def)
  have ix: "log_index (lh_block s) bno n 0 = n" using log_index_cases [of 0 n "lh_block s" bno] new by auto
  define u where "u = s\<lparr>held := LogLock # held s, lh_block := (lh_block s)(n := bno)\<rparr>"
  have e: "bufs u = bufs s" "disk u = disk s" "slocks u = slocks s" "cur u = cur s" "procs u = procs s"
    "dtrace u = dtrace s" by (simp_all add: u_def)
  have iu: "bio_inv u H pins" "lview u = lview s" "BcacheLock \<notin> set (held u)" "cur u = Some p"
    using D(1,2) bio_inv_cong [OF e(1-5)] lview_cong [OF e(1,2)] p e by (simp_all add: bio_free_def u_def)
  obtain w where w: "bpin b es u = Ok () w es" "bio_inv w H (pins(b := Suc (pins b)))" "lview w = lview u" "bio_frame u w" "same_data u w"
    using bpin_spec [OF iu(1,3,4) b, of es] pb by auto
  note lw = log_frame_simps [OF bio_log_frame [OF w(4)]]
  define t where "t = w\<lparr>lh_n := int (Suc n), held := held s\<rparr>"
  have et: "bufs t = bufs w" "disk t = disk w" "slocks t = slocks w" "cur t = cur w" "procs t = procs w" "dtrace t = dtrace w"
    by (simp_all add: t_def)
  have it: "bio_inv t H (pins(b := 1))" "lview t = lview s"
    using w(2,3) iu(2) pb bio_inv_cong [OF et(1-5)] lview_cong [OF et(1,2)] by simp_all
  have cc: "caches (bufs t) x c = caches (bufs s) x c" for x c using w(5) by (simp add: same_data_def caches_def et e)
  have sd: "same_data s t" using w(5) by (simp add: same_data_def et e)
  have run: "log_write b es s = Ok () t es"
    using free n out D(4) ix w(1) lw bno(1)
    by (simp add: log_write_def u_def t_def)
  have ft: "lh_block t = (lh_block s)(n := bno)" "lh_n t = int (Suc n)" "log_start t = log_start s" "log_dev t = ROOTDEV"
    "log_outstanding t = log_outstanding s" "held t = held s" "cur t = cur s"
    using lw D(3) by (simp_all add: t_def u_def)
  have inj: "inj_on (lh_block t) {0..<Suc n}" using D(5) new unfolding ft inj_on_def by (auto simp: less_Suc_eq)
  have pins: "(pins(b := 1)) c = (if \<exists>i < Suc n. caches (bufs s) (((lh_block s)(n := bno)) i) c then 1 else 0)" if c: "c < NBUF" for c
  proof (cases "c = b")
    case True
    then show ?thesis using bc by auto
  next
    case False
    then have "\<not> caches (bufs s) bno c" using bio_inv_unique [OF D(1) bn c bc] by auto
    then show ?thesis using False pn c by (auto simp: less_Suc_eq)
  qed
  have "tx_open t H (Suc n) (pins(b := 1))" unfolding tx_open_def cc
    using it(1) D(2) ft inj o bno(2) ca bc bn pins
    by (auto simp: bio_free_def less_Suc_eq)
  moreover have "tx_frame s t"
  proof -
    have w': "w = u\<lparr>bufs := bufs w, slocks := slocks w, procs := procs w, disk := disk w, dtrace := dtrace w\<rparr>"
      using w(4) by (simp add: bio_frame_def)
    have "t = s\<lparr>bufs := bufs t, slocks := slocks t, procs := procs t, disk := disk t, dtrace := dtrace t,
        lh_n := lh_n t, lh_block := lh_block t\<rparr>"
    proof -
      have "lh_block w = (lh_block s)(n := bno)" using lw by (simp add: u_def)
      then show ?thesis unfolding t_def by (subst w') (simp add: u_def)
    qed
    then show ?thesis using w(4) e et unfolding tx_frame_def bio_frame_def by simp
  qed
  ultimately show ?thesis using run it(2) sd ft by blast
qed

lemma log_write_absorb:
  fixes s :: "'z klog_scheme"
  assumes tx: "tx_open s H n pins" and free: "LogLock \<notin> set (held s)" and n: "n < LOGBLOCKS"
    and out: "1 \<le> log_outstanding s" and old: "j < n" "lh_block s j = blockno (bufs s b)"
  shows "log_write b es s = Ok () s es"
proof -
  let ?i = "log_index (lh_block s) (blockno (bufs s b)) n 0"
  have "?i < n \<and> lh_block s ?i = blockno (bufs s b)"
    using log_index_cases [of 0 n "lh_block s" "blockno (bufs s b)"] old by auto
  then have "(lh_block s)(?i := blockno (bufs s b)) = lh_block s" "int ?i \<noteq> int n" by auto
  moreover have "lh_n s = int n" using tx by (simp add: tx_open_def)
  ultimately show ?thesis using free n out by (simp add: log_write_def)
qed

section \<open>Properties of the log\<close>

text \<open>A concrete log: buffers hold nothing, or one changed and pinned block, or a full transaction.\<close>

definition log_boot :: klog where
  "log_boot = kbio.extend (bio_full\<lparr>bufs := \<lambda>b. (bufs bio_full b)\<lparr>bvalid := False, bdev := 0, refcnt := 0\<rparr>, disk := \<lambda>_ _. 0\<rparr>)
     (klog.fields 40 1 False ROOTDEV 0 (\<lambda>_. 0))"

definition log_tx :: klog where
  "log_tx = log_boot\<lparr>bufs := (bufs log_boot)(0 := (bufs log_boot 0)\<lparr>bvalid := True, bdev := ROOTDEV, blockno := 100, refcnt := 1,
     bdata := \<lambda>_. 7\<rparr>), lh_n := 1, lh_block := \<lambda>_. 100\<rparr>"

definition log_full :: klog where
  "log_full = kbio.extend bio_full (klog.fields 40 3 False ROOTDEV 30 of_nat)"

lemmas log_state_defs = log_boot_def log_tx_def log_full_def bio_full_def klog.defs kbio.defs

lemma log_boot_lru: "lru (bufs log_boot) [0..<NBUF]" "lru (bufs log_tx) [0..<NBUF]" "lru (bufs log_full) [0..<NBUF]"
  using lru_links [OF bio_full_lru, of "bufs log_boot"] lru_links [OF bio_full_lru, of "bufs log_tx"]
    lru_links [OF bio_full_lru, of "bufs log_full"] by (simp_all add: log_state_defs)

lemma log_boot_simps [simp]:
  "lh_n log_boot = 0" "log_start log_boot = 40" "log_dev log_boot = ROOTDEV" "disk log_boot = (\<lambda>_ _. 0)" "held log_boot = []"
  "lh_n log_tx = 1" "lh_block log_tx = (\<lambda>_. 100)" "log_start log_tx = 40" "log_dev log_tx = ROOTDEV" "disk log_tx = (\<lambda>_ _. 0)"
  "lh_n log_full = 30" "lh_block log_full = of_nat" "log_start log_full = 40" "log_dev log_full = ROOTDEV" "dtrace log_tx = []"
  "log_outstanding log_boot = 1" "\<not> log_committing log_boot"
  by (simp_all add: log_state_defs bio_boot_simps)

lemma log_boot_free [simp]: "bio_free log_boot" "bio_free log_tx" "bio_free log_full"
  by (simp_all add: bio_free_def log_state_defs bio_boot_simps)

lemma log_boot_inv: "bio_inv (log_boot\<lparr>disk := d\<rparr>) {} (\<lambda>_. 0)"
  unfolding bio_inv_def using log_boot_lru(1)
  by (auto simp: ROOTDEV_def log_state_defs caches_def NBUF_def bio_boot_simps copy_vm_def intro!: exI [of _ "[0..<NBUF]"])

lemma log_tx_ok: "tx_ok log_tx 1 (\<lambda>b. if b = 0 then 1 else 0)"
proof -
  have "bio_inv log_tx {} (\<lambda>b. if b = 0 then 1 else 0)"
    unfolding bio_inv_def using log_boot_lru(2)
    by (auto simp: ROOTDEV_def log_state_defs caches_def NBUF_def bio_boot_simps copy_vm_def intro!: exI [of _ "[0..<NBUF]"])
  moreover have "caches (bufs log_tx) 100 b = (b = 0)" for b by (simp add: ROOTDEV_def log_state_defs caches_def)
  moreover have "\<not> in_log 40 100" by (simp add: in_log_def LOGBLOCKS_def MAXOPBLOCKS_def)
  ultimately show ?thesis by (auto simp: tx_ok_def NBUF_def)
qed



text \<open>
  C15: inside an operation, \<open>log_write\<close> of a locked buffer adds the block to the transaction and pins
  the buffer, or absorbs the write when the block is logged already; the blocks of the transaction
  stay distinct and pinned exactly once, and nothing is written to the disk.
\<close>

theorem log_write_correct:
  fixes s :: "'z klog_scheme"
  assumes tx: "tx_open s H n pins" and b: "b \<in> H" and free: "LogLock \<notin> set (held s)" and n: "n < LOGBLOCKS"
    and out: "1 \<le> log_outstanding s" and bno: "\<not> in_log (log_start s) (blockno (bufs s b))"
  shows "\<exists>t m pins'. log_write b es s = Ok () t es \<and> tx_open t H m pins' \<and> 0 < pins' b \<and>
    m = (if \<exists>i < n. lh_block s i = blockno (bufs s b) then n else Suc n) \<and>
    lh_block t ` {0..<m} = insert (blockno (bufs s b)) (lh_block s ` {0..<n}) \<and> lview t = lview s \<and> same_data s t"
proof (cases "\<exists>i < n. lh_block s i = blockno (bufs s b)")
  case True
  then obtain i where i: "i < n" "lh_block s i = blockno (bufs s b)" by blast
  have bn: "b < NBUF" "caches (bufs s) (blockno (bufs s b)) b"
    using tx b bio_inv_held [of s H pins b] bio_invD(1) [of s H pins b] by (auto simp: tx_open_def caches_def)
  then have "pins b = 1" using tx i unfolding tx_open_def by (metis (no_types, lifting))
  moreover have "lh_block s ` {0..<n} = insert (blockno (bufs s b)) (lh_block s ` {0..<n})"
    using i by (metis atLeast0LessThan imageI insert_absorb lessThan_iff)
  ultimately show ?thesis using log_write_absorb [OF tx free n out i, of es] tx True
    by (intro exI [of _ s] exI [of _ n] exI [of _ pins]) (simp add: same_data_def)
next
  case False
  then obtain t where t: "log_write b es s = Ok () t es" "tx_open t H (Suc n) (pins(b := 1))" "lview t = lview s" "same_data s t"
    "lh_block t = (lh_block s)(n := blockno (bufs s b))"
    using log_write_new [OF tx b free n out refl bno, of es] by blast
  have "lh_block t ` {0..<Suc n} = insert (blockno (bufs s b)) (lh_block s ` {0..<n})"
    unfolding t(5) by (auto simp: image_iff less_Suc_eq)
  then show ?thesis using t False by (intro exI [of _ t] exI [of _ "Suc n"] exI [of _ "pins(b := 1)"]) simp
qed

lemma log_boot_open: "tx_open log_boot {} 0 (\<lambda>_. 0)"
proof -
  have "log_boot\<lparr>disk := disk log_boot\<rparr> = log_boot" by simp
  then have "bio_inv log_boot {} (\<lambda>_. 0)" using log_boot_inv [of "disk log_boot"] by metis
  then show ?thesis by (simp add: tx_open_def)
qed

lemma tx_open_bread:
  fixes s :: "'z klog_scheme"
  assumes tx: "tx_open s H n pins" and nl: "\<forall>b \<in> H. blockno (bufs s b) \<noteq> bno"
    and room: "\<exists>c < NBUF. c \<notin> H \<and> pins c = 0"
  shows "\<exists>b t. bread ROOTDEV bno es s = Ok b t es \<and> b \<notin> H \<and> tx_open t (insert b H) n pins \<and> caches (bufs t) bno b \<and>
    bdata (bufs t b) = lview s bno \<and> lview t = lview s \<and> disk t = disk s \<and> bio_frame s t \<and> (\<forall>c. c \<noteq> b \<longrightarrow> bufs t c = bufs s c)"
proof -
  have D: "bio_inv s H pins" "bio_free s" using tx by (auto simp: tx_open_def)
  obtain b t where b: "bread ROOTDEV bno es s = Ok b t es" "b \<notin> H" "bio_inv t (insert b H) pins" "caches (bufs t) bno b"
    "bdata (bufs t b) = lview s bno" "lview t = lview s" "bio_frame s t" "disk t = disk s" "\<forall>c. c \<noteq> b \<longrightarrow> bufs t c = bufs s c"
    "caches (bufs s) bno b \<or> pins b = 0" "b < NBUF"
    using bread_spec [OF D, of bno es] nl room by blast
  note fr = log_frame_simps [OF bio_log_frame [OF b(7)]]
  have pn: "\<forall>b < NBUF. pins b = (if \<exists>i < n. caches (bufs s) (lh_block s i) b then 1 else 0)"
    and ca: "\<forall>i < n. \<exists>b < NBUF. caches (bufs s) (lh_block s i) b" using tx unfolding tx_open_def by blast+
  have cc: "caches (bufs t) (lh_block s i) c = caches (bufs s) (lh_block s i) c" if ic: "i < n" "c < NBUF" for i c
  proof (cases "c = b")
    case False
    then show ?thesis using b(9) by (simp add: caches_def)
  next
    case True
    show ?thesis
    proof (cases "caches (bufs s) bno b")
      case True
      then show ?thesis using b(4) \<open>c = b\<close> by (auto simp: caches_def)
    next
      case F: False
      then have "pins b = 0" using b(10) by blast
      then have ns: "\<not> caches (bufs s) (lh_block s i) b" using b(11) pn ic(1) by (metis zero_neq_one)
      obtain d where d: "d < NBUF" "caches (bufs s) (lh_block s i) d" using ca ic by blast
      then have "d \<noteq> b" using ns by auto
      then have "caches (bufs t) (lh_block s i) d" using d b(9) by (simp add: caches_def)
      then have "\<not> caches (bufs t) (lh_block s i) b" using bio_inv_unique [OF b(3) d(1) b(11)] \<open>d \<noteq> b\<close> by blast
      then show ?thesis using ns \<open>c = b\<close> by simp
    qed
  qed
  have "tx_open t (insert b H) n pins" unfolding tx_open_def fr
    using tx b(3) fr cc by (simp add: tx_open_def cong: conj_cong)
  then show ?thesis using b by blast
qed

theorem log_write_correct_witness:
  "\<exists>b t u. bread ROOTDEV 100 [] log_boot = Ok b t [] \<and> log_write b [] t = Ok () u [] \<and> lh_block u ` {0..<1} = {100}"
proof -
  have room: "\<exists>c < NBUF. c \<notin> {} \<and> (\<lambda>_. 0 :: nat) c = 0" by (intro exI [of _ 0]) (simp add: NBUF_def)
  obtain b t where t: "bread ROOTDEV 100 [] log_boot = Ok b t []" "tx_open t {b} 0 (\<lambda>_. 0)" "caches (bufs t) 100 b" "bio_frame log_boot t"
    using tx_open_bread [OF log_boot_open _ room, of 100 "[]"] by auto
  have e: "log_start t = 40" "held t = []" "log_outstanding t = 1"
    using log_frame_simps [OF bio_log_frame [OF t(4)]] by simp_all
  have "\<not> in_log (log_start t) (blockno (bufs t b))" using t(3) by (simp add: e caches_def in_log_def LOGBLOCKS_def MAXOPBLOCKS_def)
  then show ?thesis using log_write_correct [OF t(2), of b "[]"] t(1,3) e by (auto simp: caches_def LOGBLOCKS_def MAXOPBLOCKS_def)
qed

lemma begin_op_loop_reserves:
  "begin_op_loop es s = Ok () t es' \<Longrightarrow> \<not> log_committing t \<and> lh_n t + log_outstanding t * int MAXOPBLOCKS \<le> int LOGBLOCKS"
proof (induction es s rule: begin_op_loop.induct)
  case (1 es s)
  let ?full = "lh_n s + (log_outstanding s + 1) * int MAXOPBLOCKS > int LOGBLOCKS"
  consider "log_committing s" | "\<not> log_committing s" "?full" | "\<not> log_committing s" "\<not> ?full" by blast
  then show ?case
  proof cases
    case 1
    then have "kthen (sleep ChLog LogLock) begin_op_loop es s = Ok () t es'"
      using "1.prems" by (subst (asm) begin_op_loop.simps) simp
    then show ?thesis using 1 "1.IH"(1) [of "log_committing s" s es ?full s es] by (auto elim!: kthen_OkE)
  next
    case 2
    then have "kthen (sleep ChLog LogLock) begin_op_loop es s = Ok () t es'"
      using "1.prems" by (subst (asm) begin_op_loop.simps) simp
    then show ?thesis using 2 "1.IH"(2) [of "log_committing s" s es ?full s es] by (auto elim!: kthen_OkE)
  next
    case 3
    then have "release LogLock es (s\<lparr>log_outstanding := log_outstanding s + 1\<rparr>) = Ok () t es'"
      using "1.prems" by (subst (asm) begin_op_loop.simps) simp
    then show ?thesis using 3 by (elim release_OkE) simp
  qed
qed

text \<open>
  C16: \<open>begin_op\<close> returns only with room for its operation reserved, whatever other processes did
  while it slept: no commit is running, and the logged blocks plus \<open>MAXOPBLOCKS\<close> for each
  outstanding operation, its own included, fit in the log. It returns at once when there is room.
\<close>

theorem begin_op_reserves:
  "(begin_op es s = Ok () t es' \<longrightarrow> \<not> log_committing t \<and> lh_n t + log_outstanding t * int MAXOPBLOCKS \<le> int LOGBLOCKS) \<and>
   (LogLock \<notin> set (held s) \<and> \<not> log_committing s \<and> lh_n s + (log_outstanding s + 1) * int MAXOPBLOCKS \<le> int LOGBLOCKS \<longrightarrow>
    begin_op es s = Ok () (s\<lparr>log_outstanding := log_outstanding s + 1\<rparr>) es)"
  by (auto simp: begin_op_def begin_op_loop.simps elim!: kthen_OkE dest!: begin_op_loop_reserves)

theorem begin_op_reserves_witness:
  "begin_op [] log_boot = Ok () (log_boot\<lparr>log_outstanding := 2\<rparr>) [] \<and>
   lh_n (log_boot\<lparr>log_outstanding := 2\<rparr>) + 2 * int MAXOPBLOCKS \<le> int LOGBLOCKS"
proof -
  have e: "begin_op [] log_boot = Ok () (log_boot\<lparr>log_outstanding := 2\<rparr>) []"
    using begin_op_reserves [of "[]" log_boot] by (simp add: LOGBLOCKS_def MAXOPBLOCKS_def)
  then show ?thesis using begin_op_reserves [of "[]" log_boot "log_boot\<lparr>log_outstanding := 2\<rparr>" "[]"] by simp
qed

lemma tx_open_full_pins:
  assumes tx: "tx_open s {} NBUF pins" and c: "c < NBUF"
  shows "0 < pins c" "\<exists>i < NBUF. caches (bufs s) (lh_block s i) c"
proof -
  define g where "g i = (SOME b. b < NBUF \<and> caches (bufs s) (lh_block s i) b)" for i
  have g: "g i < NBUF \<and> caches (bufs s) (lh_block s i) (g i)" if "i < NBUF" for i
    unfolding g_def by (rule someI_ex) (use tx that in \<open>auto simp: tx_open_def\<close>)
  have "inj_on g {0..<NBUF}"
  proof (rule inj_onI)
    fix i j assume ij: "i \<in> {0..<NBUF}" "j \<in> {0..<NBUF}" "g i = g j"
    then have "lh_block s i = lh_block s j" using g [of i] g [of j] by (auto simp: caches_def)
    then show "i = j" using tx ij by (auto simp: tx_open_def dest: inj_onD)
  qed
  then have "card (g ` {0..<NBUF}) = card {0..<NBUF}" by (rule card_image)
  moreover have "g ` {0..<NBUF} \<subseteq> {0..<NBUF}" using g by auto
  ultimately have "g ` {0..<NBUF} = {0..<NBUF}" by (intro card_subset_eq) auto
  then obtain i where i: "i < NBUF" "g i = c" using c by (metis atLeastLessThan_iff imageE zero_le)
  then show "\<exists>i < NBUF. caches (bufs s) (lh_block s i) c" using g by blast
  moreover have "pins c = (if \<exists>i < NBUF. caches (bufs s) (lh_block s i) c then 1 else 0)"
    using tx c unfolding tx_open_def by blast
  ultimately show "0 < pins c" by simp
qed

text \<open>
  C31: a transaction of \<open>LOGBLOCKS\<close> blocks, which \<open>begin_op\<close> and \<open>log_write\<close> admit, cannot be
  committed: its blocks pin every one of the \<open>NBUF\<close> buffers, and \<open>commit\<close> panics when
  \<open>write_log\<close> asks for a buffer for the first log block.
\<close>

theorem commit_full_log_panics:
  fixes s :: "'z klog_scheme"
  assumes tx: "tx_open s {} LOGBLOCKS pins"
  shows "commit es s = Panic ''bget: no buffers''"
proof -
  have eq: "LOGBLOCKS = NBUF" by (simp add: LOGBLOCKS_def MAXOPBLOCKS_def NBUF_def)
  have D: "bio_inv s {} pins" "bio_free s" "log_dev s = ROOTDEV" "lh_n s = int NBUF"
    and out: "\<forall>i < NBUF. \<not> in_log (log_start s) (lh_block s i)" using tx unfolding tx_open_def eq by blast+
  have "\<not> caches (bufs s) (log_block (log_start s) 0) c" if "c < NBUF" for c
    using tx_open_full_pins(2) [OF tx [unfolded eq] that] out log_block_in(1) [of 0 "log_start s"]
    by (auto simp: caches_def LOGBLOCKS_def MAXOPBLOCKS_def)
  then have "bread ROOTDEV (log_block (log_start s) 0) es s = Panic ''bget: no buffers''"
    using tx_open_full_pins(1) [OF tx [unfolded eq]] by (intro bread_full [OF D(1,2)]) auto
  then have "write_log_one 0 es s = Panic ''bget: no buffers''"
    using D(3) by (simp add: write_log_one_def log_block_def)
  moreover have "[0..<NBUF] = 0 # [1..<NBUF]" by (simp add: NBUF_def upt_rec)
  ultimately show ?thesis using D(4) by (simp add: commit_def write_log_def NBUF_def)
qed

theorem commit_full_log_panics_witness: "commit [] log_full = Panic ''bget: no buffers''"
proof (rule commit_full_log_panics)
  have inj: "(of_nat i :: uint32) = of_nat j \<longleftrightarrow> i = j" if "i < 30" "j < 30" for i j
    using that of_nat_word_inj [of i j, where 'a = 32] by simp
  have "bio_inv log_full {} (\<lambda>_. 1)" unfolding bio_inv_def using log_boot_lru(3)
    by (auto simp: log_state_defs caches_def NBUF_def bio_boot_simps copy_vm_def inj intro!: exI [of _ "[0..<NBUF]"])
  moreover have "\<not> in_log 40 (of_nat i)" if "i < 30" for i
  proof -
    have "(of_nat i :: uint32) = of_nat (40 + unat ((of_nat i :: uint32) - 40))" by simp
    then have "unat ((of_nat i :: uint32) - 40) \<le> 30 \<Longrightarrow> i = 40 + unat ((of_nat i :: uint32) - 40)"
      using that of_nat_word_inj [of i "40 + unat ((of_nat i :: uint32) - 40)", where 'a = 32] by simp
    then show ?thesis using that by (auto simp: in_log_def LOGBLOCKS_def MAXOPBLOCKS_def)
  qed
  moreover have "caches (bufs log_full) (of_nat b) b" for b by (simp add: log_state_defs caches_def)
  ultimately show "tx_open log_full {} LOGBLOCKS (\<lambda>_. 1)"
    using inj by (auto simp: tx_open_def LOGBLOCKS_def MAXOPBLOCKS_def NBUF_def inj_on_def)
qed

end
