(* ===== verification/Xv6_Fs.thy ===== *)
theory Xv6_Fs
  imports Xv6_Log
begin

text \<open>
  The file system (\<open>kernel/fs.c\<close>, \<open>kernel/fs.h\<close>): block allocator, inodes, contents of files,
  directories and paths. In-memory inodes are indices of the inode table; a pointer that may be 0
  is an option. The C strings of path names are their characters before the NUL; the \<open>DIRSIZ\<close>
  characters of a name are a list. Counters that the code keeps in an \<open>int\<close> and that a 32-bit field
  of the superblock or of an inode bounds are natural numbers.
\<close>

definition ROOTINO :: uint32 where "ROOTINO = 1"
definition FSMAGIC :: uint32 where "FSMAGIC = 0x10203040"
definition NDIRECT :: nat where "NDIRECT = 12"
definition NINDIRECT :: nat where "NINDIRECT = BSIZE div 4"
definition MAXFILE :: nat where "MAXFILE = NDIRECT + NINDIRECT"
definition IPB :: nat where "IPB = BSIZE div 64"
definition BPB :: nat where "BPB = BSIZE * 8"
definition DIRSIZ :: nat where "DIRSIZ = 14"
definition NINODE :: nat where "NINODE = 50"

definition T_DIR :: uint16 where "T_DIR = 1"
definition T_FILE :: uint16 where "T_FILE = 2"
definition T_DEVICE :: uint16 where "T_DEVICE = 3"

record superblock =
  sb_magic :: uint32
  sb_size :: uint32
  sb_nblocks :: uint32
  sb_ninodes :: uint32
  sb_nlog :: uint32
  sb_logstart :: uint32
  sb_inodestart :: uint32
  sb_bmapstart :: uint32

record dinode =
  dtype :: uint16
  dmajor :: uint16
  dminor :: uint16
  dnlink :: uint16
  dsize :: uint32
  daddrs :: "nat \<Rightarrow> uint32"

record inode =
  idev :: uint32
  inum :: uint32
  iref :: int
  ivalid :: bool
  itype :: uint16
  imajor :: uint16
  iminor :: uint16
  inlink :: uint16
  isize :: uint32
  iaddrs :: "nat \<Rightarrow> uint32"

record kfs = klog +
  sb :: superblock
  itable :: "nat \<Rightarrow> inode"

definition IBLOCK :: "uint32 \<Rightarrow> superblock \<Rightarrow> uint32" where
  "IBLOCK i b = i div of_nat IPB + sb_inodestart b"

definition BBLOCK :: "uint32 \<Rightarrow> superblock \<Rightarrow> uint32" where
  "BBLOCK b s = b div of_nat BPB + sb_bmapstart s"

definition set_inode :: "nat \<Rightarrow> (inode \<Rightarrow> inode) \<Rightarrow> ('z kfs_scheme, unit) km" where
  "set_inode i f = kmod (\<lambda>s. s\<lparr>itable := (itable s)(i := f (itable s i))\<rparr>)"

definition inode_get :: "nat \<Rightarrow> (inode \<Rightarrow> 'a) \<Rightarrow> ('z kfs_scheme, 'a) km" where
  "inode_get i f = kget (\<lambda>s. f (itable s i))"

lemma set_inode_Ok [simp]: "set_inode i f es s = Ok () (s\<lparr>itable := (itable s)(i := f (itable s i))\<rparr>) es"
  by (simp add: set_inode_def)

lemma inode_get_Ok [simp]: "inode_get i f es s = Ok (f (itable s i)) s es"
  by (simp add: inode_get_def)

lemma u32_bound: "b < unat (x :: uint32) \<Longrightarrow> b < 4294967296"
proof -
  have "unat x < 2 ^ LENGTH(32)" by (rule unsigned_less)
  then show "b < unat x \<Longrightarrow> b < 4294967296" by simp
qed

section \<open>Structures in blocks\<close>

definition get_superblock :: "memory \<Rightarrow> superblock" where
  "get_superblock m = \<lparr>sb_magic = load32 m 0, sb_size = load32 m 4, sb_nblocks = load32 m 8, sb_ninodes = load32 m 12,
     sb_nlog = load32 m 16, sb_logstart = load32 m 20, sb_inodestart = load32 m 24, sb_bmapstart = load32 m 28\<rparr>"

text \<open>Where inode \<open>i\<close> is in its block, and the fields there.\<close>

definition dinode_off :: "uint32 \<Rightarrow> nat" where
  "dinode_off i = 64 * (unat i mod IPB)"

definition get_dinode :: "memory \<Rightarrow> nat \<Rightarrow> dinode" where
  "get_dinode m a = \<lparr>dtype = load16 m (of_nat a), dmajor = load16 m (of_nat (a + 2)), dminor = load16 m (of_nat (a + 4)),
     dnlink = load16 m (of_nat (a + 6)), dsize = load32 m (of_nat (a + 8)), daddrs = \<lambda>i. load32 m (of_nat (a + 12 + 4 * i))\<rparr>"

definition put_dinode :: "memory \<Rightarrow> nat \<Rightarrow> dinode \<Rightarrow> memory" where
  "put_dinode m a d =
     fold (\<lambda>i m. store32 m (of_nat (a + 12 + 4 * i)) (daddrs d i)) [0..<Suc NDIRECT]
       (store32 (store16 (store16 (store16 (store16 m (of_nat a) (dtype d)) (of_nat (a + 2)) (dmajor d))
         (of_nat (a + 4)) (dminor d)) (of_nat (a + 6)) (dnlink d)) (of_nat (a + 8)) (dsize d))"

section \<open>Blocks\<close>

definition readsb :: "uint32 \<Rightarrow> ('z kfs_scheme, superblock) km" where
  "readsb dev =
     kbind (bread dev 1) (\<lambda>bp.
     kbind (buf_get bp bdata) (\<lambda>d.
     kthen (brelse bp)
           (kret (get_superblock d))))"

definition bzero :: "uint32 \<Rightarrow> uint32 \<Rightarrow> ('z kfs_scheme, unit) km" where
  "bzero dev bno =
     kbind (bread dev bno) (\<lambda>bp.
     kthen (set_buf bp (\<lambda>q. q\<lparr>bdata := memset (bdata q) 0 0 (of_nat BSIZE)\<rparr>))
    (kthen (log_write bp)
           (brelse bp)))"

text \<open>The bit of block \<open>bi\<close> in a bitmap block.\<close>

definition bit_free :: "memory \<Rightarrow> nat \<Rightarrow> bool" where
  "bit_free m bi = (m (of_nat (bi div 8)) AND push_bit (bi mod 8) 1 = 0)"

definition bit_mark :: "memory \<Rightarrow> nat \<Rightarrow> memory" where
  "bit_mark m bi = m(of_nat (bi div 8) := m (of_nat (bi div 8)) OR push_bit (bi mod 8) 1)"

definition bit_clear :: "memory \<Rightarrow> nat \<Rightarrow> memory" where
  "bit_clear m bi = m(of_nat (bi div 8) := m (of_nat (bi div 8)) AND NOT (push_bit (bi mod 8) 1))"

text \<open>The inner loop of \<open>balloc\<close>: the first free block among the bits from \<open>bi\<close> on.\<close>

function balloc_bit :: "memory \<Rightarrow> nat \<Rightarrow> nat \<Rightarrow> nat \<Rightarrow> nat option" where
  "balloc_bit m b sz bi =
     (if bi < BPB \<and> b + bi < sz
      then if bit_free m bi then Some bi else balloc_bit m b sz (Suc bi)
      else None)"
  by pat_completeness auto
termination
  by (relation "measure (\<lambda>(m, b, sz, bi). sz - bi)") auto

declare balloc_bit.simps [simp del]

function balloc_from :: "uint32 \<Rightarrow> nat \<Rightarrow> ('z kfs_scheme, uint32) km" where
  "balloc_from dev b es s =
     kbind (kget (\<lambda>s. unat (sb_size (sb s)))) (\<lambda>sz.
     kif (b < sz)
       (kbind (kget (\<lambda>s. BBLOCK (of_nat b) (sb s))) (\<lambda>bno.
        kbind (bread dev bno) (\<lambda>bp.
        kbind (buf_get bp bdata) (\<lambda>d.
        kif (balloc_bit d b sz 0 \<noteq> None)
          (kthen (set_buf bp (\<lambda>q. q\<lparr>bdata := bit_mark (bdata q) (the (balloc_bit d b sz 0))\<rparr>))
          (kthen (log_write bp)
          (kthen (brelse bp)
          (kthen (bzero dev (of_nat (b + the (balloc_bit d b sz 0))))
                 (kret (of_nat (b + the (balloc_bit d b sz 0))))))))
          (kthen (brelse bp)
                 (balloc_from dev (b + BPB)))))))
       (kthen (kprintf ''balloc: out of blocks\<newline>'' [])
              (kret 0))) es s"
  by pat_completeness auto
termination
  by (relation "measure (\<lambda>(dev, b, es, s). 2 ^ 32 - b)") (auto dest!: u32_bound simp: BPB_def BSIZE_def)

declare balloc_from.simps [simp del]

definition balloc :: "uint32 \<Rightarrow> ('z kfs_scheme, uint32) km" where
  "balloc dev = balloc_from dev 0"

definition bfree :: "uint32 \<Rightarrow> uint32 \<Rightarrow> ('z kfs_scheme, unit) km" where
  "bfree dev b =
     kbind (kget (\<lambda>s. BBLOCK b (sb s))) (\<lambda>bno.
     kbind (bread dev bno) (\<lambda>bp.
     kbind (buf_get bp bdata) (\<lambda>d.
     kthen (kpanic_if (\<lambda>_. bit_free d (unat b mod BPB)) ''freeing free block'')
    (kthen (set_buf bp (\<lambda>q. q\<lparr>bdata := bit_clear (bdata q) (unat b mod BPB)\<rparr>))
    (kthen (log_write bp)
           (brelse bp))))))"

section \<open>Inodes\<close>

definition iinit :: "('z kfs_scheme, unit) km" where
  "iinit = kthen (klock_init ItableLock) (kfor [0..<NINODE] (\<lambda>i. initsleeplock (InodeSleep i)))"

text \<open>The loop of \<open>iget\<close>: the entry of the inode, or the first free entry.\<close>

function iget_scan :: "(nat \<Rightarrow> inode) \<Rightarrow> uint32 \<Rightarrow> uint32 \<Rightarrow> nat option \<Rightarrow> nat \<Rightarrow> nat + nat option" where
  "iget_scan f dev ino em i =
     (if i < NINODE
      then if iref (f i) > 0 \<and> idev (f i) = dev \<and> inum (f i) = ino then Inl i
           else iget_scan f dev ino (if em = None \<and> iref (f i) = 0 then Some i else em) (Suc i)
      else Inr em)"
  by pat_completeness auto
termination
  by (relation "measure (\<lambda>(f, dev, ino, em, i). NINODE - i)") auto

declare iget_scan.simps [simp del]

definition iget :: "uint32 \<Rightarrow> uint32 \<Rightarrow> ('z kfs_scheme, nat) km" where
  "iget dev ino =
     kthen (acquire ItableLock)
    (kbind (kget itable) (\<lambda>f. case iget_scan f dev ino None 0 of
       Inl i \<Rightarrow>
         kthen (set_inode i (\<lambda>p. p\<lparr>iref := iref p + 1\<rparr>))
        (kthen (release ItableLock)
               (kret i))
     | Inr None \<Rightarrow> kpanic ''iget: no inodes''
     | Inr (Some i) \<Rightarrow>
         kthen (set_inode i (\<lambda>p. p\<lparr>idev := dev\<rparr>))
        (kthen (set_inode i (\<lambda>p. p\<lparr>inum := ino\<rparr>))
        (kthen (set_inode i (\<lambda>p. p\<lparr>iref := 1\<rparr>))
        (kthen (set_inode i (\<lambda>p. p\<lparr>ivalid := False\<rparr>))
        (kthen (release ItableLock)
               (kret i)))))))"

function ialloc_from :: "uint32 \<Rightarrow> uint16 \<Rightarrow> nat \<Rightarrow> ('z kfs_scheme, nat option) km" where
  "ialloc_from dev type ino es s =
     kbind (kget (\<lambda>s. unat (sb_ninodes (sb s)))) (\<lambda>n.
     kif (ino < n)
       (kbind (kget (\<lambda>s. IBLOCK (of_nat ino) (sb s))) (\<lambda>bno.
        kbind (bread dev bno) (\<lambda>bp.
        kbind (buf_get bp bdata) (\<lambda>d.
        kif (dtype (get_dinode d (dinode_off (of_nat ino))) = 0)
          (kthen (set_buf bp (\<lambda>q. q\<lparr>bdata := memset (bdata q) (of_nat (dinode_off (of_nat ino))) 0 64\<rparr>))
          (kthen (set_buf bp (\<lambda>q. q\<lparr>bdata := store16 (bdata q) (of_nat (dinode_off (of_nat ino))) type\<rparr>))
          (kthen (log_write bp)
          (kthen (brelse bp)
          (kbind (iget dev (of_nat ino)) (\<lambda>i.
                 kret (Some i)))))))
          (kthen (brelse bp)
                 (ialloc_from dev type (Suc ino)))))))
       (kthen (kprintf ''ialloc: no inodes\<newline>'' [])
              (kret None))) es s"
  by pat_completeness auto
termination
  by (relation "measure (\<lambda>(dev, type, ino, es, s). 2 ^ 32 - ino)") (auto dest!: u32_bound)

declare ialloc_from.simps [simp del]

definition ialloc :: "uint32 \<Rightarrow> uint16 \<Rightarrow> ('z kfs_scheme, nat option) km" where
  "ialloc dev type = ialloc_from dev type 1"

text \<open>The fields of an inode that live on the disk.\<close>

definition to_dinode :: "inode \<Rightarrow> dinode" where
  "to_dinode p = \<lparr>dtype = itype p, dmajor = imajor p, dminor = iminor p, dnlink = inlink p, dsize = isize p, daddrs = iaddrs p\<rparr>"

definition iupdate :: "nat \<Rightarrow> ('z kfs_scheme, unit) km" where
  "iupdate i =
     kbind (inode_get i id) (\<lambda>p.
     kbind (kget (\<lambda>s. IBLOCK (inum p) (sb s))) (\<lambda>bno.
     kbind (bread (idev p) bno) (\<lambda>bp.
     kbind (inode_get i id) (\<lambda>p.
     kthen (set_buf bp (\<lambda>q. q\<lparr>bdata := put_dinode (bdata q) (dinode_off (inum p)) (to_dinode p)\<rparr>))
    (kthen (log_write bp)
           (brelse bp))))))"

definition idup :: "nat option \<Rightarrow> ('z kfs_scheme, nat option) km" where
  "idup ip =
     kthen (acquire ItableLock)
    (case ip of None \<Rightarrow> kpanic ''kerneltrap''
     | Some i \<Rightarrow> kthen (set_inode i (\<lambda>p. p\<lparr>iref := iref p + 1\<rparr>))
                (kthen (release ItableLock)
                       (kret ip)))"

definition ilock_load :: "nat \<Rightarrow> ('z kfs_scheme, unit) km" where
  "ilock_load i =
     kbind (inode_get i id) (\<lambda>p.
     kbind (kget (\<lambda>s. IBLOCK (inum p) (sb s))) (\<lambda>bno.
     kbind (bread (idev p) bno) (\<lambda>bp.
     kbind (buf_get bp bdata) (\<lambda>d.
     kthen (set_inode i (\<lambda>p. let dip = get_dinode d (dinode_off (inum p)) in
         p\<lparr>itype := dtype dip, imajor := dmajor dip, iminor := dminor dip, inlink := dnlink dip, isize := dsize dip,
           iaddrs := \<lambda>k. if k \<le> NDIRECT then daddrs dip k else iaddrs p k\<rparr>))
    (kthen (brelse bp)
    (kthen (set_inode i (\<lambda>p. p\<lparr>ivalid := True\<rparr>))
           (kpanic_if (\<lambda>s. itype (itable s i) = 0) ''ilock: no type'')))))))"

definition ilock :: "nat option \<Rightarrow> ('z kfs_scheme, unit) km" where
  "ilock ip = (case ip of None \<Rightarrow> kpanic ''ilock''
     | Some i \<Rightarrow>
         kthen (kpanic_if (\<lambda>s. iref (itable s i) < 1) ''ilock'')
        (kthen (acquiresleep (InodeSleep i))
        (kbind (inode_get i ivalid) (\<lambda>v.
         kif v (kret ()) (ilock_load i)))))"

definition iunlock :: "nat option \<Rightarrow> ('z kfs_scheme, unit) km" where
  "iunlock ip = (case ip of None \<Rightarrow> kpanic ''iunlock''
     | Some i \<Rightarrow>
         kbind (holdingsleep (InodeSleep i)) (\<lambda>h.
         kthen (kpanic_if (\<lambda>s. \<not> h \<or> iref (itable s i) < 1) ''iunlock'')
               (releasesleep (InodeSleep i))))"

section \<open>Contents of inodes\<close>

text \<open>The block that entry \<open>k\<close> of \<open>addrs\<close> names, allocated if there is none; 0 if that fails.\<close>

definition bmap_addr :: "nat \<Rightarrow> nat \<Rightarrow> ('z kfs_scheme, uint32) km" where
  "bmap_addr i k =
     kbind (inode_get i (\<lambda>p. iaddrs p k)) (\<lambda>addr.
     kif (addr = 0)
       (kbind (inode_get i idev) (\<lambda>dev.
        kbind (balloc dev) (\<lambda>addr.
        kif (addr = 0) (kret 0)
       (kthen (set_inode i (\<lambda>p. p\<lparr>iaddrs := (iaddrs p)(k := addr)\<rparr>))
              (kret addr)))))
       (kret addr))"

text \<open>The block that entry \<open>k\<close> of the indirect block in buffer \<open>bp\<close> names.\<close>

definition bmap_indirect :: "nat \<Rightarrow> nat \<Rightarrow> nat \<Rightarrow> ('z kfs_scheme, uint32) km" where
  "bmap_indirect i bp k =
     kbind (buf_get bp (\<lambda>q. load32 (bdata q) (of_nat (4 * k)))) (\<lambda>addr.
     kif (addr = 0)
       (kbind (inode_get i idev) (\<lambda>dev.
        kbind (balloc dev) (\<lambda>addr.
        kif (addr \<noteq> 0)
          (kthen (set_buf bp (\<lambda>q. q\<lparr>bdata := store32 (bdata q) (of_nat (4 * k)) addr\<rparr>))
          (kthen (log_write bp)
                 (kret addr)))
          (kret 0))))
       (kret addr))"

definition bmap :: "nat \<Rightarrow> uint32 \<Rightarrow> ('z kfs_scheme, uint32) km" where
  "bmap i bn =
     kif (unat bn < NDIRECT) (bmap_addr i (unat bn))
    (kif (unat bn - NDIRECT < NINDIRECT)
       (kbind (bmap_addr i NDIRECT) (\<lambda>addr.
        kif (addr = 0) (kret 0)
       (kbind (inode_get i idev) (\<lambda>dev.
        kbind (bread dev addr) (\<lambda>bp.
        kbind (bmap_indirect i bp (unat bn - NDIRECT)) (\<lambda>addr.
        kthen (brelse bp)
              (kret addr)))))))
       (kpanic ''bmap: out of range''))"

text \<open>The two loops of \<open>itrunc\<close>, over the direct blocks and over the entries of the indirect block.\<close>

definition itrunc_direct :: "nat \<Rightarrow> nat \<Rightarrow> ('z kfs_scheme, unit) km" where
  "itrunc_direct i k =
     kbind (inode_get i id) (\<lambda>p.
     kif (iaddrs p k \<noteq> 0)
       (kthen (bfree (idev p) (iaddrs p k))
              (set_inode i (\<lambda>p. p\<lparr>iaddrs := (iaddrs p)(k := 0)\<rparr>)))
       (kret ()))"

definition itrunc_indirect :: "nat \<Rightarrow> nat \<Rightarrow> nat \<Rightarrow> ('z kfs_scheme, unit) km" where
  "itrunc_indirect i bp j =
     kbind (buf_get bp (\<lambda>q. load32 (bdata q) (of_nat (4 * j)))) (\<lambda>a.
     kif (a \<noteq> 0) (kbind (inode_get i idev) (\<lambda>dev. bfree dev a)) (kret ()))"

definition itrunc :: "nat \<Rightarrow> ('z kfs_scheme, unit) km" where
  "itrunc i =
     kthen (kfor [0..<NDIRECT] (itrunc_direct i))
    (kbind (inode_get i id) (\<lambda>p.
     kthen (kif (iaddrs p NDIRECT \<noteq> 0)
              (kbind (bread (idev p) (iaddrs p NDIRECT)) (\<lambda>bp.
               kthen (kfor [0..<NINDIRECT] (itrunc_indirect i bp))
              (kthen (brelse bp)
              (kthen (bfree (idev p) (iaddrs p NDIRECT))
                     (set_inode i (\<lambda>p. p\<lparr>iaddrs := (iaddrs p)(NDIRECT := 0)\<rparr>))))))
              (kret ()))
    (kthen (set_inode i (\<lambda>p. p\<lparr>isize := 0\<rparr>))
           (iupdate i))))"

definition iput :: "nat option \<Rightarrow> ('z kfs_scheme, unit) km" where
  "iput ip =
     kthen (acquire ItableLock)
    (case ip of None \<Rightarrow> kpanic ''kerneltrap''
     | Some i \<Rightarrow>
         kbind (inode_get i id) (\<lambda>p.
         kthen (kif (iref p = 1 \<and> ivalid p \<and> inlink p = 0)
                  (kthen (acquiresleep (InodeSleep i))
                  (kthen (release ItableLock)
                  (kthen (itrunc i)
                  (kthen (set_inode i (\<lambda>p. p\<lparr>itype := 0\<rparr>))
                  (kthen (iupdate i)
                  (kthen (set_inode i (\<lambda>p. p\<lparr>ivalid := False\<rparr>))
                  (kthen (releasesleep (InodeSleep i))
                         (acquire ItableLock))))))))
                  (kret ()))
        (kthen (set_inode i (\<lambda>p. p\<lparr>iref := iref p - 1\<rparr>))
               (release ItableLock))))"

definition iunlockput :: "nat option \<Rightarrow> ('z kfs_scheme, unit) km" where
  "iunlockput ip = kthen (iunlock ip) (iput ip)"

definition ireclaim_one :: "uint32 \<Rightarrow> nat \<Rightarrow> ('z kfs_scheme, unit) km" where
  "ireclaim_one dev ino =
     kbind (kget (\<lambda>s. IBLOCK (of_nat ino) (sb s))) (\<lambda>bno.
     kbind (bread dev bno) (\<lambda>bp.
     kbind (buf_get bp (\<lambda>q. get_dinode (bdata q) (dinode_off (of_nat ino)))) (\<lambda>dip.
     kbind (kif (dtype dip \<noteq> 0 \<and> dnlink dip = 0)
              (kthen (kprintf ''ireclaim: orphaned inode %d\<newline>'' [int ino])
              (kbind (iget dev (of_nat ino)) (\<lambda>i. kret (Some i))))
              (kret None)) (\<lambda>ip.
     kthen (brelse bp)
           (kif (ip \<noteq> None)
              (kthen begin_op
              (kthen (ilock ip)
              (kthen (iunlock ip)
              (kthen (iput ip)
                     end_op))))
              (kret ()))))))"

function ireclaim_from :: "uint32 \<Rightarrow> nat \<Rightarrow> ('z kfs_scheme, unit) km" where
  "ireclaim_from dev ino es s =
     kbind (kget (\<lambda>s. unat (sb_ninodes (sb s)))) (\<lambda>n.
     kif (ino < n) (kthen (ireclaim_one dev ino) (ireclaim_from dev (Suc ino))) (kret ())) es s"
  by pat_completeness auto
termination
  by (relation "measure (\<lambda>(dev, ino, es, s). 2 ^ 32 - ino)") (auto dest!: u32_bound)

declare ireclaim_from.simps [simp del]

definition ireclaim :: "uint32 \<Rightarrow> ('z kfs_scheme, unit) km" where
  "ireclaim dev = ireclaim_from dev 1"

definition fsinit :: "uint32 \<Rightarrow> ('z kfs_scheme, unit) km" where
  "fsinit dev =
     kbind (readsb dev) (\<lambda>b.
     kthen (kmod (\<lambda>s. s\<lparr>sb := b\<rparr>))
    (kthen (kpanic_if (\<lambda>s. sb_magic (sb s) \<noteq> FSMAGIC) ''invalid file system'')
    (kbind (kget (\<lambda>s. sb_logstart (sb s))) (\<lambda>l.
     kthen (initlog dev l)
           (ireclaim dev)))))"

record stat =
  st_dev :: uint32
  st_ino :: uint32
  st_type :: uint16
  st_nlink :: uint16
  st_size :: uint64

definition stati :: "nat \<Rightarrow> ('z kfs_scheme, stat) km" where
  "stati i = inode_get i (\<lambda>p. \<lparr>st_dev = idev p, st_ino = inum p, st_type = itype p, st_nlink = inlink p, st_size = ucast (isize p)\<rparr>)"

text \<open>
  \<open>readi\<close>, with the bytes it delivered. The loop has \<open>tot\<close> of \<open>n\<close> bytes done; its value is -1 when
  a copy to the destination failed.
\<close>

definition chunk :: "uint32 \<Rightarrow> nat \<Rightarrow> nat" where
  "chunk off rest = min rest (BSIZE - unat off mod BSIZE)"

lemma chunk_pos [simp]: "0 < rest \<Longrightarrow> 0 < chunk off rest"
  by (simp add: chunk_def BSIZE_def)

lemma chunk_le [simp]: "chunk off rest \<le> rest"
  by (simp add: chunk_def)

function readi_loop :: "nat \<Rightarrow> place \<Rightarrow> uint32 \<Rightarrow> nat \<Rightarrow> nat \<Rightarrow> ('z kfs_scheme, int \<times> byte list) km" where
  "readi_loop i dst off n tot es s =
     kif (tot < n)
       (kbind (bmap i (off div of_nat BSIZE)) (\<lambda>addr.
        kif (addr = 0) (kret (int tot, []))
       (kbind (inode_get i idev) (\<lambda>dev.
        kbind (bread dev addr) (\<lambda>bp.
        kbind (buf_get bp (\<lambda>q. bytes_at (bdata q) (of_nat (unat off mod BSIZE)) (chunk off (n - tot)))) (\<lambda>bs.
        kbind (either_copyout dst bs) (\<lambda>r.
        kif (r = - 1)
          (kthen (brelse bp) (kret (- 1, [])))
          (kthen (brelse bp)
          (kbind (readi_loop i (place_add dst (chunk off (n - tot))) (off + of_nat (chunk off (n - tot))) n
                   (tot + chunk off (n - tot))) (\<lambda>(t, cs).
           kret (t, bs @ cs)))))))))))
       (kret (int tot, [])) es s"
  by pat_completeness auto
termination
proof (relation "measure (\<lambda>(i, dst, off, n, tot, es, s). n - tot)", goal_cases)
  case (2 i dst off n tot)
  then show ?case using chunk_pos [of "n - tot" off] by (simp del: chunk_pos)
qed simp

declare readi_loop.simps [simp del]

definition readi :: "nat \<Rightarrow> place \<Rightarrow> uint32 \<Rightarrow> uint32 \<Rightarrow> ('z kfs_scheme, int \<times> byte list) km" where
  "readi i dst off n =
     kbind (inode_get i isize) (\<lambda>sz.
     kif (off > sz \<or> off + n < off) (kret (0, []))
         (readi_loop i dst off (if off + n > sz then unat (sz - off) else unat n) 0))"

text \<open>
  \<open>writei\<close>. When \<open>either_copyin\<close> fails, the bytes it copied before are in the buffer already; the
  loop stops, and the buffer is released without \<open>log_write\<close>. The loop returns \<open>tot\<close> and \<open>off\<close>.
\<close>

function writei_loop :: "nat \<Rightarrow> place \<Rightarrow> uint32 \<Rightarrow> nat \<Rightarrow> nat \<Rightarrow> ('z kfs_scheme, int \<times> uint32) km" where
  "writei_loop i src off n tot es s =
     kif (tot < n)
       (kbind (bmap i (off div of_nat BSIZE)) (\<lambda>addr.
        kif (addr = 0) (kret (int tot, off))
       (kbind (inode_get i idev) (\<lambda>dev.
        kbind (bread dev addr) (\<lambda>bp.
        kbind (either_copyin src (chunk off (n - tot))) (\<lambda>rb.
        kthen (set_buf bp (\<lambda>q. q\<lparr>bdata := write_bytes (bdata q) (of_nat (unat off mod BSIZE)) (snd rb)\<rparr>))
       (kif (fst rb = - 1)
          (kthen (brelse bp) (kret (int tot, off)))
          (kthen (log_write bp)
          (kthen (brelse bp)
                 (writei_loop i (place_add src (chunk off (n - tot))) (off + of_nat (chunk off (n - tot))) n
                   (tot + chunk off (n - tot))))))))))))
       (kret (int tot, off)) es s"
  by pat_completeness auto
termination
proof (relation "measure (\<lambda>(i, src, off, n, tot, es, s). n - tot)", goal_cases)
  case (2 i src off n tot)
  then show ?case using chunk_pos [of "n - tot" off] by (simp del: chunk_pos)
qed simp

declare writei_loop.simps [simp del]

definition writei :: "nat \<Rightarrow> place \<Rightarrow> uint32 \<Rightarrow> uint32 \<Rightarrow> ('z kfs_scheme, int) km" where
  "writei i src off n =
     kbind (inode_get i isize) (\<lambda>sz.
     kif (off > sz \<or> off + n < off) (kret (- 1))
    (kif (off + n > of_nat (MAXFILE * BSIZE)) (kret (- 1))
    (kbind (writei_loop i src off (unat n) 0) (\<lambda>(tot, off).
     kthen (set_inode i (\<lambda>p. if off > isize p then p\<lparr>isize := off\<rparr> else p))
    (kthen (iupdate i)
           (kret tot))))))"

section \<open>Directories\<close>

definition namecmp :: "byte list \<Rightarrow> byte list \<Rightarrow> int" where
  "namecmp s t = strncmp (arr s) (arr t) DIRSIZ"

text \<open>The fields of a \<open>struct dirent\<close>, given by its 16 bytes.\<close>

definition de_inum :: "byte list \<Rightarrow> uint16" where
  "de_inum bs = of_nat (unat (bs ! 0) + 256 * unat (bs ! 1))"

definition de_name :: "byte list \<Rightarrow> byte list" where
  "de_name bs = take DIRSIZ (drop 2 bs)"

function dirlookup_from :: "nat \<Rightarrow> byte list \<Rightarrow> nat \<Rightarrow> ('z kfs_scheme, (nat \<times> nat) option) km" where
  "dirlookup_from dp name off es s =
     kbind (inode_get dp (\<lambda>p. unat (isize p))) (\<lambda>sz.
     kif (off < sz)
       (kbind (readi dp (Obj []) (of_nat off) 16) (\<lambda>rb.
        kthen (kpanic_if (\<lambda>_. fst rb \<noteq> 16) ''dirlookup read'')
       (kif (de_inum (snd rb) \<noteq> 0 \<and> namecmp name (de_name (snd rb)) = 0)
          (kbind (inode_get dp idev) (\<lambda>dev.
           kbind (iget dev (ucast (de_inum (snd rb)))) (\<lambda>i.
           kret (Some (i, off)))))
          (dirlookup_from dp name (off + 16)))))
       (kret None)) es s"
  by pat_completeness auto
termination
  by (relation "measure (\<lambda>(dp, name, off, es, s). 2 ^ 32 - off)") (auto dest!: u32_bound)

declare dirlookup_from.simps [simp del]

text \<open>\<open>dirlookup\<close> returns the inode and the offset it stores in \<open>*poff\<close>.\<close>

definition dirlookup :: "nat \<Rightarrow> byte list \<Rightarrow> ('z kfs_scheme, (nat \<times> nat) option) km" where
  "dirlookup dp name =
     kthen (kpanic_if (\<lambda>s. itype (itable s dp) \<noteq> T_DIR) ''dirlookup not DIR'')
           (dirlookup_from dp name 0)"

text \<open>\<open>strncpy\<close> into a character array: the characters up to the NUL, then NULs.\<close>

primrec strncpy_arr :: "nat \<Rightarrow> cstr \<Rightarrow> byte list" where
  "strncpy_arr 0 t = []"
| "strncpy_arr (Suc n) t = (if t 0 \<noteq> 0 then t 0 # strncpy_arr n (\<lambda>i. t (Suc i)) else replicate (Suc n) 0)"

function dirlink_from :: "nat \<Rightarrow> nat \<Rightarrow> ('z kfs_scheme, nat) km" where
  "dirlink_from dp off es s =
     kbind (inode_get dp (\<lambda>p. unat (isize p))) (\<lambda>sz.
     kif (off < sz)
       (kbind (readi dp (Obj []) (of_nat off) 16) (\<lambda>rb.
        kthen (kpanic_if (\<lambda>_. fst rb \<noteq> 16) ''dirlink read'')
       (kif (de_inum (snd rb) = 0) (kret off)
            (dirlink_from dp (off + 16)))))
       (kret off)) es s"
  by pat_completeness auto
termination
  by (relation "measure (\<lambda>(dp, off, es, s). 2 ^ 32 - off)") (auto dest!: u32_bound)

declare dirlink_from.simps [simp del]

definition dirlink :: "nat \<Rightarrow> byte list \<Rightarrow> uint32 \<Rightarrow> ('z kfs_scheme, int) km" where
  "dirlink dp name ino =
     kbind (dirlookup dp name) (\<lambda>ip. case ip of
       Some (i, _) \<Rightarrow> kthen (iput (Some i)) (kret (- 1))
     | None \<Rightarrow>
         kbind (dirlink_from dp 0) (\<lambda>off.
         kbind (writei dp (Obj (bytes_le 2 (unat ino) @ strncpy_arr DIRSIZ (arr name))) (of_nat off) 16) (\<lambda>r.
         kif (r \<noteq> 16) (kret (- 1)) (kret 0))))"

section \<open>Paths\<close>

text \<open>A path is the list of its characters before the NUL; \<open>*path == 0\<close> says that it is empty.\<close>

definition slash :: byte where "slash = 47"

definition skip_slashes :: "byte list \<Rightarrow> byte list" where
  "skip_slashes path = dropWhile (\<lambda>c. c = slash) path"

text \<open>\<open>skipelem\<close> fills the \<open>DIRSIZ\<close> characters of \<open>name\<close>, of which the NUL may be missing.\<close>

definition skipelem :: "byte list \<Rightarrow> byte list \<Rightarrow> (byte list \<times> byte list) option" where
  "skipelem path name =
     (let s = skip_slashes path in
      if s = [] then None
      else let e = takeWhile (\<lambda>c. c \<noteq> slash) s; len = length e in
        Some (skip_slashes (drop len s),
              if len \<ge> DIRSIZ then take DIRSIZ e @ drop DIRSIZ name
              else e @ [0] @ drop (Suc len) name))"

lemma skipelem_shorter: "skipelem path name = Some (path', name') \<Longrightarrow> length path' < length path"
proof -
  assume a: "skipelem path name = Some (path', name')"
  let ?s = "skip_slashes path" and ?e = "takeWhile (\<lambda>c. c \<noteq> slash) (skip_slashes path)"
  have s: "?s \<noteq> []" "path' = skip_slashes (drop (length ?e) ?s)"
    using a by (auto simp: skipelem_def Let_def split: if_splits)
  have l: "length (skip_slashes xs) \<le> length xs" for xs by (simp add: skip_slashes_def length_dropWhile_le)
  have "hd ?s \<noteq> slash" using s(1) hd_dropWhile [of "\<lambda>c. c = slash" path] by (simp add: skip_slashes_def)
  then have "0 < length ?e" using s(1) by (cases ?s) auto
  then have "length (drop (length ?e) ?s) < length ?s" using s(1) by simp
  then show ?thesis using l [of path] l [of "drop (length ?e) ?s"] unfolding s(2) by linarith
qed

text \<open>The loop of \<open>namex\<close>; the second component is the contents of \<open>name\<close>.\<close>

function namex_loop :: "nat option \<Rightarrow> byte list \<Rightarrow> bool \<Rightarrow> byte list \<Rightarrow> ('z kfs_scheme, nat option \<times> byte list) km" where
  "namex_loop ip path par name es s =
     (case skipelem path name of
        None \<Rightarrow> (if par then kthen (iput ip) (kret (None, name)) else kret (ip, name)) es s
      | Some (path', name') \<Rightarrow>
          kthen (ilock ip)
         (kbind (kget (\<lambda>s. itype (itable s (the ip)))) (\<lambda>ty.
          kif (ty \<noteq> T_DIR) (kthen (iunlockput ip) (kret (None, name')))
         (kif (par \<and> path' = []) (kthen (iunlock ip) (kret (ip, name')))
         (kbind (dirlookup (the ip) name') (\<lambda>nx.
          kif (nx = None) (kthen (iunlockput ip) (kret (None, name')))
         (kthen (iunlockput ip)
                (namex_loop (Some (fst (the nx))) path' par name'))))))) es s)"
  by pat_completeness auto
termination
  by (relation "measure (\<lambda>(ip, path, par, name, es, s). length path)") (auto dest: skipelem_shorter)

declare namex_loop.simps [simp del]

definition namex :: "byte list \<Rightarrow> bool \<Rightarrow> byte list \<Rightarrow> ('z kfs_scheme, nat option \<times> byte list) km" where
  "namex path par name =
     kbind (if take 1 path = [slash]
            then kbind (iget ROOTDEV ROOTINO) (\<lambda>i. kret (Some i))
            else kbind myproc_deref (\<lambda>p. kbind (kget (\<lambda>s. cwd (procs s p))) idup)) (\<lambda>ip.
     namex_loop ip path par name)"

text \<open>\<open>namei\<close> has an uninitialised \<open>name\<close>, whose contents are not used.\<close>

definition namei :: "byte list \<Rightarrow> ('z kfs_scheme, nat option) km" where
  "namei path = kbind (namex path False (replicate DIRSIZ 0)) (\<lambda>(ip, _). kret ip)"

definition nameiparent :: "byte list \<Rightarrow> byte list \<Rightarrow> ('z kfs_scheme, nat option \<times> byte list) km" where
  "nameiparent path name = namex path True name"

end
