(* ===== verification/Xv6_Ring.thy ===== *)
theory Xv6_Ring
  imports Xv6_Prelude
begin

text \<open>
  Ring buffers with free-running 32-bit counters, as the pipe (\<open>kernel/pipe.c\<close>) and the console
  (\<open>kernel/console.c\<close>) keep them: byte \<open>i\<close> of the stream is at index \<open>i % size\<close> of the array, and the
  counters wrap around at \<open>2 ^ 32\<close>. The interface is the list of the bytes between two counters.
\<close>

definition ring_list :: "nat \<Rightarrow> (nat \<Rightarrow> byte) \<Rightarrow> uint32 \<Rightarrow> uint32 \<Rightarrow> byte list" where
  "ring_list sz b r w = map (\<lambda>i. b (unat (r + of_nat i) mod sz)) [0..<unat (w - r)]"

lemma length_ring_list [simp]: "length (ring_list sz b r w) = unat (w - r)"
  by (simp add: ring_list_def)

lemma ring_list_empty [simp]: "ring_list sz b r r = []"
  by (simp add: ring_list_def)

lemma ring_list_Nil: "ring_list sz b r w = [] \<longleftrightarrow> r = w"
  by (auto simp: ring_list_def unat_eq_0)

text \<open>
  What the ring relies on: the size is a positive divisor of \<open>2 ^ 32\<close>, so that the index of a
  counter does not jump when the counter wraps.
\<close>

locale ring =
  fixes sz :: nat
  assumes small: "sz < 2 ^ 32" and divides: "sz dvd 2 ^ 32"
begin

lemma index: "unat (x + y :: uint32) mod sz = (unat x + unat y) mod sz"
proof -
  have "unat (x + y) = (unat x + unat y) mod 2 ^ 32" by (simp add: unat_word_ariths)
  then show ?thesis using divides by (simp add: mod_mod_cancel)
qed

lemma no_wrap: "k \<le> sz \<Longrightarrow> unat (of_nat k :: uint32) = k"
  using small by (simp add: unat_of_nat)

lemma index_le:
  assumes "i \<le> j" "j < sz" "unat (r + of_nat i :: uint32) mod sz = unat (r + of_nat j :: uint32) mod sz"
  shows "i = j"
proof -
  have "(unat r + j) mod sz = (unat r + i) mod sz" using assms no_wrap [of i] no_wrap [of j] by (simp add: index)
  then have "sz dvd (unat r + j) - (unat r + i)" using assms(1) by (subst (asm) mod_eq_dvd_iff_nat) simp_all
  then have "sz dvd j - i" by simp
  then show ?thesis using assms(1,2) by (metis diff_is_0_eq diff_le_self dvd_imp_le le_antisym le_neq_implies_less leD
    less_le_trans zero_less_diff)
qed

lemma index_eq:
  "i < sz \<Longrightarrow> j < sz \<Longrightarrow> unat (r + of_nat i :: uint32) mod sz = unat (r + of_nat j :: uint32) mod sz \<longleftrightarrow> i = j"
  using index_le [of i j r] index_le [of j i r] by (metis linear)

lemma push:
  assumes "unat (w - r) < sz"
  shows "ring_list sz (b(unat w mod sz := c)) r (w + 1) = ring_list sz b r w @ [c]"
proof -
  let ?n = "unat (w - r)"
  have "w + 1 - r = of_nat (Suc ?n)" by simp
  then have n: "unat (w + 1 - r) = Suc ?n" using no_wrap [of "Suc ?n"] assms by (simp del: of_nat_Suc)
  have w: "w = r + of_nat ?n" by simp
  have "unat (r + of_nat i) mod sz \<noteq> unat w mod sz" if "i < ?n" for i
    using index_eq [of i ?n r] that assms w by auto
  then show ?thesis unfolding ring_list_def n by simp
qed

lemma pop:
  assumes "r \<noteq> w"
  shows "ring_list sz b r w = b (unat r mod sz) # ring_list sz b (r + 1) w"
proof -
  let ?n = "unat (w - r)"
  have p: "0 < ?n" using assms by (simp add: unat_gt_0)
  have "w - (r + 1) = of_nat (?n - 1)" using p by (simp add: of_nat_diff)
  moreover have "?n < 2 ^ LENGTH(32)" by (rule unsigned_less)
  ultimately have n: "unat (w - (r + 1)) = ?n - 1" by (simp only: unat_of_nat) simp
  have "[0..<?n] = 0 # map Suc [0..<?n - 1]" using p by (simp add: upt_conv_Cons map_Suc_upt)
  then show ?thesis unfolding ring_list_def n by (simp add: add.assoc add.commute add.left_commute)
qed

lemma unpush:
  assumes "r \<noteq> w" "unat (w - r) \<le> sz"
  shows "ring_list sz b r w = ring_list sz b r (w - 1) @ [b (unat (w - 1) mod sz)]"
proof -
  have n: "unat (w - r) = Suc (unat (w - 1 - r))"
    using assms(1) unat_minus_one [of "w - r"] by (simp add: diff_diff_eq add.commute unat_gt_0)
  then show ?thesis unfolding ring_list_def n by simp
qed

end

end
