(* ===== verification/Xv6_Console.thy ===== *)
theory Xv6_Console
  imports Xv6_Fs Xv6_Ring
begin

text \<open>
  The UART driver (\<open>kernel/uart.c\<close>) and the console (\<open>kernel/console.c\<close>).

  Of the 16550 chip the model has what the driver relies on: the bytes sent, the bytes received
  and not yet read, the last value written to each control register, and the number of times the
  line status register still has to be read before it shows the transmitter idle. The chip sets
  that number whenever a byte is written; \<open>tx_delays\<close> are the numbers it will choose, and 0
  beyond the end of the list. \<open>push_off\<close> and \<open>pop_off\<close> of \<open>uartputc_sync\<close> surround code that
  neither takes locks nor gives up the CPU, and have no effect at this level.
\<close>

record uart =
  thr_out :: "byte list"
  rhr_in :: "byte list"
  ctl_reg :: "nat \<Rightarrow> byte"
  tx_wait :: nat
  tx_delays :: "nat list"

record cons =
  cons_buf :: "nat \<Rightarrow> byte"
  cons_r :: uint32
  cons_w :: uint32
  cons_e :: uint32

text \<open>The functions a device can have in \<open>devsw\<close>.\<close>

datatype devread = Consoleread
datatype devwrite = Consolewrite

record devsw =
  dev_read :: "devread option"
  dev_write :: "devwrite option"

record kdev = kfs +
  uart :: uart
  tx_busy :: bool
  panicking :: bool
  panicked :: bool
  cons :: cons
  devsw :: "nat \<Rightarrow> devsw"

definition INPUT_BUF_SIZE :: nat where "INPUT_BUF_SIZE = 128"
definition BACKSPACE :: uint32 where "BACKSPACE = 0x100"
definition CONSOLE :: nat where "CONSOLE = 1"

text \<open>\<open>C(x)\<close>, control-x, and other characters.\<close>

definition C :: "byte \<Rightarrow> byte" where "C x = x - 64"

definition nl :: byte where "nl = 10"

section \<open>The UART\<close>

definition RHR :: nat where "RHR = 0"
definition THR :: nat where "THR = 0"
definition IER :: nat where "IER = 1"
definition IER_RX_ENABLE :: byte where "IER_RX_ENABLE = 1"
definition IER_TX_ENABLE :: byte where "IER_TX_ENABLE = 2"
definition FCR :: nat where "FCR = 2"
definition FCR_FIFO_ENABLE :: byte where "FCR_FIFO_ENABLE = 1"
definition FCR_FIFO_CLEAR :: byte where "FCR_FIFO_CLEAR = 6"
definition LCR :: nat where "LCR = 3"
definition LCR_EIGHT_BITS :: byte where "LCR_EIGHT_BITS = 3"
definition LCR_BAUD_LATCH :: byte where "LCR_BAUD_LATCH = 128"
definition LSR_RX_READY :: byte where "LSR_RX_READY = 1"
definition LSR_TX_IDLE :: byte where "LSR_TX_IDLE = 32"

text \<open>The chip: writing a control register, sending a byte, reading the status, reading a byte.\<close>

definition WriteReg :: "nat \<Rightarrow> byte \<Rightarrow> ('z kdev_scheme, unit) km" where
  "WriteReg reg v = kmod (\<lambda>s. s\<lparr>uart := (uart s)\<lparr>ctl_reg := (ctl_reg (uart s))(reg := v)\<rparr>\<rparr>)"

definition uart_send :: "byte \<Rightarrow> uart \<Rightarrow> uart" where
  "uart_send c u = u\<lparr>thr_out := thr_out u @ [c], tx_wait := (case tx_delays u of [] \<Rightarrow> 0 | d # _ \<Rightarrow> d), tx_delays := tl (tx_delays u)\<rparr>"

definition WriteTHR :: "byte \<Rightarrow> ('z kdev_scheme, unit) km" where
  "WriteTHR c = kmod (\<lambda>s. s\<lparr>uart := uart_send c (uart s)\<rparr>)"

definition ReadLSR :: "('z kdev_scheme, byte) km" where
  "ReadLSR =
     kbind (kget (\<lambda>s. (if rhr_in (uart s) \<noteq> [] then LSR_RX_READY else 0) OR (if tx_wait (uart s) = 0 then LSR_TX_IDLE else 0))) (\<lambda>v.
     kthen (kmod (\<lambda>s. s\<lparr>uart := (uart s)\<lparr>tx_wait := tx_wait (uart s) - 1\<rparr>\<rparr>))
           (kret v))"

definition ReadRHR :: "('z kdev_scheme, byte) km" where
  "ReadRHR =
     kbind (kget (\<lambda>s. hd (rhr_in (uart s)))) (\<lambda>c.
     kthen (kmod (\<lambda>s. s\<lparr>uart := (uart s)\<lparr>rhr_in := tl (rhr_in (uart s))\<rparr>\<rparr>))
           (kret c))"

definition uartinit :: "('z kdev_scheme, unit) km" where
  "uartinit =
     kthen (WriteReg IER 0)
    (kthen (WriteReg LCR LCR_BAUD_LATCH)
    (kthen (WriteReg 0 3)
    (kthen (WriteReg 1 0)
    (kthen (WriteReg LCR LCR_EIGHT_BITS)
    (kthen (WriteReg FCR (FCR_FIFO_ENABLE OR FCR_FIFO_CLEAR))
    (kthen (WriteReg IER (IER_TX_ENABLE OR IER_RX_ENABLE))
           (klock_init TxLock)))))))"

function uart_wait :: "('z kdev_scheme, unit) km" where
  \<comment> \<open>\<open>while(tx_busy != 0) sleep(&tx_chan, &tx_lock);\<close>\<close>
  "uart_wait es s =
     kbind (kget (\<lambda>s. tx_busy s)) (\<lambda>busy.
     kif busy (kthen (sleep ChTx TxLock) uart_wait) (kret ())) es s"
  by pat_completeness auto
termination
  by (relation "measure (\<lambda>(es, s). length es)") (auto dest: sleep_Ok_length)

declare uart_wait.simps [simp del]

definition uartwrite_one :: "byte \<Rightarrow> ('z kdev_scheme, unit) km" where
  "uartwrite_one c =
     kthen uart_wait
    (kthen (WriteTHR c)
           (kmod (\<lambda>s. s\<lparr>tx_busy := True\<rparr>)))"

definition uartwrite :: "byte list \<Rightarrow> ('z kdev_scheme, unit) km" where
  "uartwrite buf =
     kthen (acquire TxLock)
    (kthen (kfor buf uartwrite_one)
           (release TxLock))"

text \<open>Polling the status register; the chip says how often it must be read.\<close>

lemma ReadLSR_Ok:
  "ReadLSR es s = Ok v t es' \<Longrightarrow> es' = es \<and> t = s\<lparr>uart := (uart s)\<lparr>tx_wait := tx_wait (uart s) - 1\<rparr>\<rparr> \<and>
     (v AND LSR_TX_IDLE = 0 \<longleftrightarrow> tx_wait (uart s) \<noteq> 0) \<and> (v AND LSR_RX_READY = 0 \<longleftrightarrow> rhr_in (uart s) = [])"
  by (cases "rhr_in (uart s) = []"; cases "tx_wait (uart s) = 0") (auto simp: ReadLSR_def LSR_TX_IDLE_def LSR_RX_READY_def)

function uart_poll :: "('z kdev_scheme, unit) km" where
  "uart_poll es s =
     kbind ReadLSR (\<lambda>v.
     kif (v AND LSR_TX_IDLE = 0) uart_poll (kret ())) es s"
  by pat_completeness auto
termination
  by (relation "measure (\<lambda>(es, s). tx_wait (uart s))") (auto dest!: ReadLSR_Ok)

declare uart_poll.simps [simp del]

definition uartputc_sync :: "byte \<Rightarrow> ('z kdev_scheme, unit) km" where
  "uartputc_sync c =
     kbind (kget (\<lambda>s. panicked s)) (\<lambda>dead.
     kif dead kstuck
    (kthen uart_poll
           (WriteTHR c)))"

definition uartgetc :: "('z kdev_scheme, byte option) km" where
  "uartgetc =
     kbind ReadLSR (\<lambda>v.
     kif (v AND LSR_RX_READY \<noteq> 0) (kbind ReadRHR (\<lambda>c. kret (Some c))) (kret None))"

section \<open>The console\<close>

definition consputc :: "uint32 \<Rightarrow> ('z kdev_scheme, unit) km" where
  "consputc c =
     (if c = BACKSPACE
      then kthen (uartputc_sync 8) (kthen (uartputc_sync 32) (uartputc_sync 8))
      else uartputc_sync (ucast c))"

function consolewrite_loop :: "place \<Rightarrow> int \<Rightarrow> int \<Rightarrow> ('z kdev_scheme, int) km" where
  "consolewrite_loop src n i es s =
     kif (i < n)
       (kbind (either_copyin (place_add src (nat i)) (nat (min 32 (n - i)))) (\<lambda>rb.
        kif (fst rb = - 1) (kret i)
       (kthen (uartwrite (snd rb))
              (consolewrite_loop src n (i + min 32 (n - i))))))
       (kret i) es s"
  by pat_completeness auto
termination
  by (relation "measure (\<lambda>(src, n, i, es, s). nat (n - i))") auto

declare consolewrite_loop.simps [simp del]

definition consolewrite :: "place \<Rightarrow> int \<Rightarrow> ('z kdev_scheme, int) km" where
  "consolewrite src n = consolewrite_loop src n 0"

definition set_cons :: "(cons \<Rightarrow> cons) \<Rightarrow> ('z kdev_scheme, unit) km" where
  "set_cons f = kmod (\<lambda>s. s\<lparr>cons := f (cons s)\<rparr>)"

lemma killed_Ok_es: "killed p es s = Ok k t es' \<Longrightarrow> es' = es"
  by (auto simp: killed_def elim!: kmonadE acquire_OkE release_OkE)

lemma myproc_deref_Ok_es: "myproc_deref es s = Ok p t es' \<Longrightarrow> es' = es"
  by (auto simp: myproc_deref_def myproc_def split: option.splits)

text \<open>
  The inner loop of \<open>consoleread\<close>: \<open>False\<close> when the process has been killed; the lock has been
  released then.
\<close>

function consoleread_wait :: "('z kdev_scheme, bool) km" where
  "consoleread_wait es s =
     kbind (kget (\<lambda>s. cons_r (cons s) = cons_w (cons s))) (\<lambda>e.
     kif e
       (kbind myproc_deref (\<lambda>p.
        kbind (killed p) (\<lambda>k.
        kif k (kthen (release ConsLock) (kret False))
              (kthen (sleep ChConsole ConsLock) consoleread_wait))))
       (kret True)) es s"
  by pat_completeness auto
termination
  by (relation "measure (\<lambda>(es, s). length es)") (auto dest!: sleep_Ok_length killed_Ok_es myproc_deref_Ok_es)

declare consoleread_wait.simps [simp del]

text \<open>\<open>consoleread\<close>; \<open>bs\<close> collects the bytes delivered. The loop returns \<open>n\<close>, or \<open>None\<close> when killed.\<close>

function consoleread_loop :: "place \<Rightarrow> nat \<Rightarrow> nat \<Rightarrow> ('z kdev_scheme, nat option) km" where
  "consoleread_loop dst target n es s =
     kif (n = 0) (kret (Some n))
    (kbind consoleread_wait (\<lambda>ok.
     kif (\<not> ok) (kret None)
    (kbind (kget (\<lambda>s. cons_buf (cons s) (unat (cons_r (cons s)) mod INPUT_BUF_SIZE))) (\<lambda>c.
     kthen (set_cons (\<lambda>d. d\<lparr>cons_r := cons_r d + 1\<rparr>))
    (kif (c = C 68)
       (kthen (if n < target then set_cons (\<lambda>d. d\<lparr>cons_r := cons_r d - 1\<rparr>) else kret ())
              (kret (Some n)))
    (kbind (either_copyout dst [c]) (\<lambda>r.
     kif (r = - 1) (kret (Some n))
    (kif (c = nl) (kret (Some (n - 1)))
         (consoleread_loop (place_add dst 1) target (n - 1)))))))))) es s"
  by pat_completeness auto
termination
  by (relation "measure (\<lambda>(dst, target, n, es, s). n)") auto

declare consoleread_loop.simps [simp del]

definition consoleread :: "place \<Rightarrow> int \<Rightarrow> ('z kdev_scheme, int) km" where
  "consoleread dst n =
     kthen (acquire ConsLock)
    (kif (n > 0)
       (kbind (consoleread_loop dst (nat n) (nat n)) (\<lambda>r. case r of
          None \<Rightarrow> kret (- 1)
        | Some m \<Rightarrow> kthen (release ConsLock) (kret (n - int m))))
       (kthen (release ConsLock) (kret 0)))"

text \<open>Printing the process list.\<close>

definition state_name :: "procstate \<Rightarrow> string" where
  "state_name st = (case st of UNUSED \<Rightarrow> ''unused'' | USED \<Rightarrow> ''used'' | SLEEPING \<Rightarrow> ''sleep '' | RUNNABLE \<Rightarrow> ''runble''
     | RUNNING \<Rightarrow> ''run   '' | ZOMBIE \<Rightarrow> ''zombie'')"

definition name_string :: "memory \<Rightarrow> string" where
  "name_string m = map (\<lambda>c. char_of (unat c)) (takeWhile (\<lambda>c. c \<noteq> 0) (bytes_at m 0 16))"

definition procdump_one :: "nat \<Rightarrow> ('z kproc_scheme, unit) km" where
  "procdump_one p =
     kbind (kget (\<lambda>s. procs s p)) (\<lambda>q.
     kif (pstate q = UNUSED) (kret ())
    (kthen (kprintf (''%d '' @ state_name (pstate q) @ '' '' @ name_string (pname q)) [sint (pid q)])
           (kprintf ''\<newline>'' [])))"

definition procdump :: "('z kproc_scheme, unit) km" where
  "procdump = kthen (kprintf ''\<newline>'' []) (kfor [0..<NPROC] procdump_one)"

text \<open>The loop of control-U; it has the values of \<open>cons.e\<close> and \<open>cons.w\<close>, which the lock protects.\<close>

function kill_line :: "uint32 \<Rightarrow> uint32 \<Rightarrow> ('z kdev_scheme, unit) km" where
  "kill_line e w es s =
     kbind (kget (\<lambda>s. cons_buf (cons s) (unat (e - 1) mod INPUT_BUF_SIZE))) (\<lambda>c.
     kif (e \<noteq> w \<and> c \<noteq> nl)
       (kthen (set_cons (\<lambda>d. d\<lparr>cons_e := e - 1\<rparr>))
       (kthen (consputc BACKSPACE)
              (kill_line (e - 1) w)))
       (kret ())) es s"
  by pat_completeness auto
termination
proof (relation "measure (\<lambda>(e, w, es, s). unat (e - w))", goal_cases)
  case (2 e w)
  then have "e - w \<noteq> 0" by simp
  then have "unat (e - w - 1) < unat (e - w)" by (simp add: unat_minus_one unat_gt_0)
  then show ?case by (simp add: algebra_simps)
qed simp

declare kill_line.simps [simp del]

definition consoleintr :: "byte \<Rightarrow> ('z kdev_scheme, unit) km" where
  "consoleintr c =
     kthen (acquire ConsLock)
    (kthen
      (if c = C 80 then procdump
       else if c = C 85
       then kbind (kget cons) (\<lambda>d. kill_line (cons_e d) (cons_w d))
       else if c = C 72 \<or> c = 0x7f
       then kbind (kget cons) (\<lambda>d.
            kif (cons_e d \<noteq> cons_w d)
              (kthen (set_cons (\<lambda>d. d\<lparr>cons_e := cons_e d - 1\<rparr>)) (consputc BACKSPACE))
              (kret ()))
       else kbind (kget cons) (\<lambda>d.
            kif (c \<noteq> 0 \<and> cons_e d - cons_r d < of_nat INPUT_BUF_SIZE)
              (let c = (if c = 13 then nl else c) in
               kthen (consputc (ucast c))
              (kthen (set_cons (\<lambda>d. d\<lparr>cons_buf := (cons_buf d)(unat (cons_e d) mod INPUT_BUF_SIZE := c), cons_e := cons_e d + 1\<rparr>))
              (kbind (kget cons) (\<lambda>d.
               kif (c = nl \<or> c = C 68 \<or> cons_e d - cons_r d = of_nat INPUT_BUF_SIZE)
                 (kthen (set_cons (\<lambda>d. d\<lparr>cons_w := cons_e d\<rparr>)) (wakeup ChConsole))
                 (kret ())))))
              (kret ())))
      (release ConsLock))"

definition consoleinit :: "('z kdev_scheme, unit) km" where
  "consoleinit =
     kthen (klock_init ConsLock)
    (kthen uartinit
    (kthen (kmod (\<lambda>s. s\<lparr>devsw := (devsw s)(CONSOLE := (devsw s CONSOLE)\<lparr>dev_read := Some Consoleread\<rparr>)\<rparr>))
           (kmod (\<lambda>s. s\<lparr>devsw := (devsw s)(CONSOLE := (devsw s CONSOLE)\<lparr>dev_write := Some Consolewrite\<rparr>)\<rparr>))))"

text \<open>
  The input loop of \<open>uartintr\<close>, whose first read, of \<open>ISR\<close>, only acknowledges the interrupt. The fuel is the number of bytes that wait, plus one for the read
  that finds none.
\<close>

primrec uartintr_loop :: "nat \<Rightarrow> ('z kdev_scheme, unit) km" where
  "uartintr_loop 0 = kstuck"
| "uartintr_loop (Suc fuel) =
     kbind uartgetc (\<lambda>c. case c of
       None \<Rightarrow> kret ()
     | Some c \<Rightarrow> kthen (consoleintr c) (uartintr_loop fuel))"

definition uartintr :: "('z kdev_scheme, unit) km" where
  "uartintr =
     kthen (acquire TxLock)
    (kbind ReadLSR (\<lambda>v.
     kthen (if v AND LSR_TX_IDLE \<noteq> 0
            then kthen (kmod (\<lambda>s. s\<lparr>tx_busy := False\<rparr>)) (wakeup ChTx)
            else kret ())
    (kthen (release TxLock)
    (kbind (kget (\<lambda>s. Suc (length (rhr_in (uart s))))) uartintr_loop))))"

end
