(* ===== verification/Xv6_File.thy ===== *)
theory Xv6_File
  imports Xv6_Console
begin

text \<open>
  Pipes (\<open>kernel/pipe.c\<close>) and the file table (\<open>kernel/file.c\<close>, \<open>kernel/file.h\<close>). Files are indices of
  the file table. A pipe lies in a page of its own, whose address names it; its fields are a
  record. Counts that C keeps in an \<open>int\<close> are integers; a negative count makes a loop end at once.
\<close>

definition PIPESIZE :: nat where "PIPESIZE = 512"
definition NFILE :: nat where "NFILE = 100"
definition NDEV :: nat where "NDEV = 10"

datatype fdtype = FD_NONE | FD_PIPE | FD_INODE | FD_DEVICE

record filerec =
  ftype :: fdtype
  fref :: int
  freadable :: bool
  fwritable :: bool
  fpipe :: addr
  fip :: "nat option"
  foff :: uint32
  fmajor :: uint16

record pipe =
  pdata :: "nat \<Rightarrow> byte"
  nread :: uint32
  nwrite :: uint32
  readopen :: bool
  writeopen :: bool

record kfile = kdev +
  ftable :: "nat \<Rightarrow> filerec"
  pipes :: "addr \<Rightarrow> pipe"

definition set_file :: "nat \<Rightarrow> (filerec \<Rightarrow> filerec) \<Rightarrow> ('z kfile_scheme, unit) km" where
  "set_file f g = kmod (\<lambda>s. s\<lparr>ftable := (ftable s)(f := g (ftable s f))\<rparr>)"

definition set_pipe :: "addr \<Rightarrow> (pipe \<Rightarrow> pipe) \<Rightarrow> ('z kfile_scheme, unit) km" where
  "set_pipe p g = kmod (\<lambda>s. s\<lparr>pipes := (pipes s)(p := g (pipes s p))\<rparr>)"

lemma set_file_Ok [simp]: "set_file f g es s = Ok () (s\<lparr>ftable := (ftable s)(f := g (ftable s f))\<rparr>) es"
  by (simp add: set_file_def)

lemma set_pipe_Ok [simp]: "set_pipe p g es s = Ok () (s\<lparr>pipes := (pipes s)(p := g (pipes s p))\<rparr>) es"
  by (simp add: set_pipe_def)

section \<open>The file table\<close>

definition fileinit :: "('z kfile_scheme, unit) km" where
  "fileinit = klock_init FtableLock"

fun filealloc_from :: "nat list \<Rightarrow> ('z kfile_scheme, nat option) km" where
  "filealloc_from [] = kret None"
| "filealloc_from (f # fs) =
     kbind (kget (\<lambda>s. fref (ftable s f) = 0)) (\<lambda>free.
     kif free (kthen (set_file f (\<lambda>x. x\<lparr>fref := 1\<rparr>)) (kret (Some f)))
              (filealloc_from fs))"

definition filealloc :: "('z kfile_scheme, nat option) km" where
  "filealloc =
     kthen (acquire FtableLock)
    (kbind (filealloc_from [0..<NFILE]) (\<lambda>f.
     kthen (release FtableLock)
           (kret f)))"

definition filedup :: "nat \<Rightarrow> ('z kfile_scheme, nat) km" where
  "filedup f =
     kthen (acquire FtableLock)
    (kthen (kpanic_if (\<lambda>s. fref (ftable s f) < 1) ''filedup'')
    (kthen (set_file f (\<lambda>x. x\<lparr>fref := fref x + 1\<rparr>))
    (kthen (release FtableLock)
           (kret f))))"

section \<open>Pipes\<close>

definition pipeclose :: "addr \<Rightarrow> bool \<Rightarrow> ('z kfile_scheme, unit) km" where
  "pipeclose pi writable =
     kthen (acquire (PipeLock pi))
    (kthen (if writable
            then kthen (set_pipe pi (\<lambda>x. x\<lparr>writeopen := False\<rparr>)) (wakeup (ChPipeRead pi))
            else kthen (set_pipe pi (\<lambda>x. x\<lparr>readopen := False\<rparr>)) (wakeup (ChPipeWrite pi)))
    (kbind (kget (\<lambda>s. pipes s pi)) (\<lambda>x.
     kif (\<not> readopen x \<and> \<not> writeopen x)
       (kthen (release (PipeLock pi)) (kfree pi))
       (release (PipeLock pi)))))"

definition fileclose :: "nat \<Rightarrow> ('z kfile_scheme, unit) km" where
  "fileclose f =
     kthen (acquire FtableLock)
    (kthen (kpanic_if (\<lambda>s. fref (ftable s f) < 1) ''fileclose'')
    (kthen (set_file f (\<lambda>x. x\<lparr>fref := fref x - 1\<rparr>))
    (kbind (kget (\<lambda>s. ftable s f)) (\<lambda>ff.
     kif (fref ff > 0) (release FtableLock)
    (kthen (set_file f (\<lambda>x. x\<lparr>fref := 0\<rparr>))
    (kthen (set_file f (\<lambda>x. x\<lparr>ftype := FD_NONE\<rparr>))
    (kthen (release FtableLock)
    (kif (ftype ff = FD_PIPE) (pipeclose (fpipe ff) (fwritable ff))
    (kif (ftype ff = FD_INODE \<or> ftype ff = FD_DEVICE)
       (kthen begin_op
       (kthen (iput (fip ff))
              end_op))
       (kret ()))))))))))"

text \<open>\<open>pipealloc\<close> returns \<open>None\<close> for -1 and the two files otherwise.\<close>

definition pipealloc_bad :: "nat option \<Rightarrow> nat option \<Rightarrow> ('z kfile_scheme, (nat \<times> nat) option) km" where
  "pipealloc_bad f0 f1 =
     kthen (case f0 of Some f \<Rightarrow> fileclose f | None \<Rightarrow> kret ())
    (kthen (case f1 of Some f \<Rightarrow> fileclose f | None \<Rightarrow> kret ())
           (kret None))"

definition pipealloc :: "('z kfile_scheme, (nat \<times> nat) option) km" where
  "pipealloc =
     kbind filealloc (\<lambda>f0. case f0 of None \<Rightarrow> pipealloc_bad None None
     | Some a \<Rightarrow>
     kbind filealloc (\<lambda>f1. case f1 of None \<Rightarrow> pipealloc_bad f0 None
     | Some b \<Rightarrow>
     kbind kalloc (\<lambda>pi.
     kif (pi = 0) (pipealloc_bad f0 f1)
    (kthen (set_pipe pi (\<lambda>x. x\<lparr>readopen := True\<rparr>))
    (kthen (set_pipe pi (\<lambda>x. x\<lparr>writeopen := True\<rparr>))
    (kthen (set_pipe pi (\<lambda>x. x\<lparr>nwrite := 0\<rparr>))
    (kthen (set_pipe pi (\<lambda>x. x\<lparr>nread := 0\<rparr>))
    (kthen (klock_init (PipeLock pi))
    (kthen (set_file a (\<lambda>x. x\<lparr>ftype := FD_PIPE, freadable := True, fwritable := False, fpipe := pi\<rparr>))
    (kthen (set_file b (\<lambda>x. x\<lparr>ftype := FD_PIPE, freadable := False, fwritable := True, fpipe := pi\<rparr>))
           (kret (Some (a, b)))))))))))))"

lemma kfor_Ok_es:
  assumes "\<And>x es s y t es'. f x es s = Ok y t es' \<Longrightarrow> es' = es" "kfor xs f es s = Ok y t es'"
  shows "es' = es"
  using assms(2)
proof (induction xs arbitrary: es s)
  case (Cons x xs)
  then show ?case by (auto elim!: kthen_OkE dest: assms(1))
qed simp

lemma wakeup_Ok_es: "wakeup ch es s = Ok y t es' \<Longrightarrow> es' = es"
  unfolding wakeup_def
  by (erule kfor_Ok_es [rotated]) (auto simp: wakeup_one_def myproc_def elim!: kmonadE acquire_OkE release_OkE)

text \<open>
  The loop of \<open>pipewrite\<close>: \<open>Inl i\<close> when the loop ends with \<open>i\<close> bytes written, \<open>Inr ()\<close> when it
  returns -1, with the lock released.
\<close>

definition pipe_put :: "addr \<Rightarrow> byte \<Rightarrow> ('z kfile_scheme, unit) km" where
  "pipe_put pi ch = set_pipe pi (\<lambda>x. x\<lparr>pdata := (pdata x)(unat (nwrite x) mod PIPESIZE := ch), nwrite := nwrite x + 1\<rparr>)"

function pipewrite_loop :: "nat \<Rightarrow> addr \<Rightarrow> uint64 \<Rightarrow> int \<Rightarrow> int \<Rightarrow> ('z kfile_scheme, int + unit) km" where
  "pipewrite_loop pr pi a n i es s =
     kif (i < n)
       (kbind (kget (\<lambda>s. \<not> readopen (pipes s pi))) (\<lambda>closed.
        kbind (kif closed (kret True) (killed pr)) (\<lambda>stop.
        kif stop (kthen (release (PipeLock pi)) (kret (Inr ())))
       (kbind (kget (\<lambda>s. nwrite (pipes s pi) = nread (pipes s pi) + of_nat PIPESIZE)) (\<lambda>full.
        kif full
          (kthen (wakeup (ChPipeRead pi))
          (kthen (sleep (ChPipeWrite pi) (PipeLock pi))
                 (pipewrite_loop pr pi a n i)))
          (kbind (kget (\<lambda>s. pagetable (procs s pr))) (\<lambda>pt.
           kbind (copyin pt (a + of_int i) 1) (\<lambda>rb.
           kif (fst rb = - 1) (kret (Inl i))
          (kthen (pipe_put pi (hd (snd rb)))
                 (pipewrite_loop pr pi a n (i + 1)))))))))))
       (kret (Inl i)) es s"
  by pat_completeness auto
termination
  by (relation "measures [\<lambda>(pr, pi, a, n, i, es, s). nat (n - i), \<lambda>(pr, pi, a, n, i, es, s). length es]")
    (auto dest!: sleep_Ok_length wakeup_Ok_es killed_Ok_es elim!: kif_OkE)

declare pipewrite_loop.simps [simp del]

definition pipewrite :: "addr \<Rightarrow> uint64 \<Rightarrow> int \<Rightarrow> ('z kfile_scheme, int) km" where
  "pipewrite pi a n =
     kbind myproc_deref (\<lambda>pr.
     kthen (acquire (PipeLock pi))
    (kbind (pipewrite_loop pr pi a n 0) (\<lambda>r. case r of
       Inr _ \<Rightarrow> kret (- 1)
     | Inl i \<Rightarrow>
         kthen (wakeup (ChPipeRead pi))
        (kthen (release (PipeLock pi))
               (kret i)))))"

text \<open>\<open>piperead\<close>: waiting for data (\<open>False\<close> when killed), and copying it out byte by byte.\<close>

function piperead_wait :: "nat \<Rightarrow> addr \<Rightarrow> ('z kfile_scheme, bool) km" where
  "piperead_wait pr pi es s =
     kbind (kget (\<lambda>s. nread (pipes s pi) = nwrite (pipes s pi) \<and> writeopen (pipes s pi))) (\<lambda>e.
     kif e
       (kbind (killed pr) (\<lambda>k.
        kif k (kthen (release (PipeLock pi)) (kret False))
              (kthen (sleep (ChPipeRead pi) (PipeLock pi)) (piperead_wait pr pi))))
       (kret True)) es s"
  by pat_completeness auto
termination
  by (relation "measure (\<lambda>(pr, pi, es, s). length es)") (auto dest!: sleep_Ok_length killed_Ok_es)

declare piperead_wait.simps [simp del]

definition pipe_take :: "addr \<Rightarrow> ('z kfile_scheme, byte) km" where
  "pipe_take pi =
     kbind (kget (\<lambda>s. pdata (pipes s pi) (unat (nread (pipes s pi)) mod PIPESIZE))) (\<lambda>ch.
     kthen (set_pipe pi (\<lambda>x. x\<lparr>nread := nread x + 1\<rparr>))
           (kret ch))"

function piperead_loop :: "nat \<Rightarrow> addr \<Rightarrow> uint64 \<Rightarrow> int \<Rightarrow> int \<Rightarrow> ('z kfile_scheme, int) km" where
  "piperead_loop pr pi a n i es s =
     kif (i < n)
       (kbind (kget (\<lambda>s. nread (pipes s pi) = nwrite (pipes s pi))) (\<lambda>e.
        kif e (kret i)
       (kbind (pipe_take pi) (\<lambda>ch.
        kbind (kget (\<lambda>s. pagetable (procs s pr))) (\<lambda>pt.
        kbind (copyout pt (a + of_int i) [ch]) (\<lambda>r.
        kif (r = - 1) (kret i)
            (piperead_loop pr pi a n (i + 1))))))))
       (kret i) es s"
  by pat_completeness auto
termination
  by (relation "measure (\<lambda>(pr, pi, a, n, i, es, s). nat (n - i))") auto

declare piperead_loop.simps [simp del]

definition piperead :: "addr \<Rightarrow> uint64 \<Rightarrow> int \<Rightarrow> ('z kfile_scheme, int) km" where
  "piperead pi a n =
     kbind myproc_deref (\<lambda>pr.
     kthen (acquire (PipeLock pi))
    (kbind (piperead_wait pr pi) (\<lambda>ok.
     kif (\<not> ok) (kret (- 1))
    (kbind (piperead_loop pr pi a n 0) (\<lambda>i.
     kthen (wakeup (ChPipeWrite pi))
    (kthen (release (PipeLock pi))
           (kret i)))))))"

section \<open>Reading and writing files\<close>

text \<open>The bytes of a \<open>struct stat\<close>; \<open>pad\<close> are the four padding bytes before \<open>size\<close>.\<close>

definition stat_bytes :: "stat \<Rightarrow> byte list \<Rightarrow> byte list" where
  "stat_bytes st pad = bytes_le 4 (unat (st_dev st)) @ bytes_le 4 (unat (st_ino st)) @ bytes_le 2 (unat (st_type st)) @
     bytes_le 2 (unat (st_nlink st)) @ pad @ bytes_le 8 (unat (st_size st))"

definition filestat :: "byte list \<Rightarrow> nat \<Rightarrow> uint64 \<Rightarrow> ('z kfile_scheme, int) km" where
  "filestat pad f a =
     kbind (kget (\<lambda>s. ftable s f)) (\<lambda>x.
     kif (ftype x = FD_INODE \<or> ftype x = FD_DEVICE)
       (kthen (ilock (fip x))
       (kbind (stati (the (fip x))) (\<lambda>st.
        kthen (iunlock (fip x))
       (kbind myproc_deref (\<lambda>p.
        kbind (kget (\<lambda>s. pagetable (procs s p))) (\<lambda>pt.
        kbind (copyout pt a (stat_bytes st pad)) (\<lambda>r.
        kif (r < 0) (kret (- 1)) (kret 0))))))))
       (kret (- 1)))"

definition fileread :: "nat \<Rightarrow> uint64 \<Rightarrow> int \<Rightarrow> ('z kfile_scheme, int) km" where
  "fileread f a n =
     kbind (kget (\<lambda>s. ftable s f)) (\<lambda>x.
     if \<not> freadable x then kret (- 1)
     else case ftype x of
       FD_PIPE \<Rightarrow> piperead (fpipe x) a n
     | FD_DEVICE \<Rightarrow>
         if sint (fmajor x) < 0 \<or> sint (fmajor x) \<ge> int NDEV then kret (- 1)
         else kbind (kget (\<lambda>s. dev_read (devsw s (nat (sint (fmajor x)))))) (\<lambda>d. case d of
                None \<Rightarrow> kret (- 1)
              | Some Consoleread \<Rightarrow> consoleread (User a) n)
     | FD_INODE \<Rightarrow>
         kthen (ilock (fip x))
        (kbind (kget (\<lambda>s. foff (ftable s f))) (\<lambda>off.
         kbind (readi (the (fip x)) (User a) off (of_int n)) (\<lambda>rb.
         kthen (if fst rb > 0 then set_file f (\<lambda>x. x\<lparr>foff := foff x + of_int (fst rb)\<rparr>) else kret ())
        (kthen (iunlock (fip x))
               (kret (fst rb))))))
     | FD_NONE \<Rightarrow> kpanic ''fileread'')"

text \<open>The most bytes one transaction of \<open>filewrite\<close> writes.\<close>

definition filewrite_max :: int where
  "filewrite_max = int (((MAXOPBLOCKS - 1 - 1 - 2) div 2) * BSIZE)"

lemma filewrite_max_pos [simp]: "0 < filewrite_max"
  by (simp add: filewrite_max_def MAXOPBLOCKS_def BSIZE_def)

function filewrite_loop :: "nat \<Rightarrow> uint64 \<Rightarrow> int \<Rightarrow> int \<Rightarrow> ('z kfile_scheme, int) km" where
  "filewrite_loop f a n i es s =
     kif (i < n)
       (kthen begin_op
       (kbind (kget (\<lambda>s. fip (ftable s f))) (\<lambda>ip.
        kthen (ilock ip)
       (kbind (kget (\<lambda>s. foff (ftable s f))) (\<lambda>off.
        kbind (writei (the ip) (User (a + of_int i)) off (of_int (min (n - i) filewrite_max))) (\<lambda>r.
        kthen (if r > 0 then set_file f (\<lambda>x. x\<lparr>foff := foff x + of_int r\<rparr>) else kret ())
       (kthen (iunlock ip)
       (kthen end_op
       (kif (r \<noteq> min (n - i) filewrite_max) (kret i)
            (filewrite_loop f a n (i + min (n - i) filewrite_max)))))))))))
       (kret i) es s"
  by pat_completeness auto
termination
  by (relation "measure (\<lambda>(f, a, n, i, es, s). nat (n - i))") (auto simp: min_def)

declare filewrite_loop.simps [simp del]

definition filewrite :: "nat \<Rightarrow> uint64 \<Rightarrow> int \<Rightarrow> ('z kfile_scheme, int) km" where
  "filewrite f a n =
     kbind (kget (\<lambda>s. ftable s f)) (\<lambda>x.
     if \<not> fwritable x then kret (- 1)
     else case ftype x of
       FD_PIPE \<Rightarrow> pipewrite (fpipe x) a n
     | FD_DEVICE \<Rightarrow>
         if sint (fmajor x) < 0 \<or> sint (fmajor x) \<ge> int NDEV then kret (- 1)
         else kbind (kget (\<lambda>s. dev_write (devsw s (nat (sint (fmajor x)))))) (\<lambda>d. case d of
                None \<Rightarrow> kret (- 1)
              | Some Consolewrite \<Rightarrow> consolewrite (User a) n)
     | FD_INODE \<Rightarrow>
         kbind (filewrite_loop f a n 0) (\<lambda>i.
         kret (if i = n then n else - 1))
     | FD_NONE \<Rightarrow> kpanic ''filewrite'')"

end
