(* ===== verification/Xv6_Nosleep.thy ===== *)
theory Xv6_Nosleep
  imports Xv6_Copy
begin

text \<open>
  Routines that never give up the CPU: whatever the state, they return with the environment steps
  untouched or panic, and never stay asleep. The kernel relies on it wherever such a routine runs
  with a spinlock held, as \<open>copyin\<close> and \<open>copyout\<close> do in \<open>pipewrite\<close> and \<open>kwait\<close>.
\<close>

definition nosleep_at :: "('s, 'a) km \<Rightarrow> ('s \<Rightarrow> 's) list \<Rightarrow> 's \<Rightarrow> bool" where
  "nosleep_at m es s \<longleftrightarrow> (case m es s of Ok x t es' \<Rightarrow> es' = es | Panic _ \<Rightarrow> True | Asleep _ \<Rightarrow> False)"

definition nosleep :: "('s, 'a) km \<Rightarrow> bool" where
  "nosleep m \<longleftrightarrow> (\<forall>es s. nosleep_at m es s)"

named_theorems nosleep_rule \<open>routines that do not sleep\<close>

lemma nosleepD: "nosleep m \<Longrightarrow> m es s = Ok x t es' \<Longrightarrow> es' = es"
  unfolding nosleep_def nosleep_at_def by (force dest: spec [of _ es] spec [of _ s])

lemma nosleep_not_asleep: "nosleep m \<Longrightarrow> m es s \<noteq> Asleep t"
  unfolding nosleep_def nosleep_at_def by (force dest: spec [of _ es] spec [of _ s])

lemma nosleepI: "(\<And>es s. nosleep_at m es s) \<Longrightarrow> nosleep m"
  by (simp add: nosleep_def)

lemma nosleep_at: "nosleep m \<Longrightarrow> nosleep_at m es s"
  by (simp add: nosleep_def)

lemma nosleep_at_bind:
  "nosleep_at m es s \<Longrightarrow> (\<And>x t. m es s = Ok x t es \<Longrightarrow> nosleep_at (f x) es t) \<Longrightarrow> nosleep_at (kbind m f) es s"
  by (auto simp: nosleep_at_def kbind_def split: kres.splits)

lemma nosleep_at_then:
  "nosleep_at m es s \<Longrightarrow> (\<And>x t. m es s = Ok x t es \<Longrightarrow> nosleep_at n es t) \<Longrightarrow> nosleep_at (kthen m n) es s"
  unfolding kthen_def by (rule nosleep_at_bind)

lemma nosleep_at_if: "(c \<Longrightarrow> nosleep_at m es s) \<Longrightarrow> (\<not> c \<Longrightarrow> nosleep_at n es s) \<Longrightarrow> nosleep_at (kif c m n) es s"
  by (simp add: nosleep_at_def kif_def)

lemma nosleep_at_prod:
  "(\<And>x y. v = (x, y) \<Longrightarrow> nosleep_at (f x y) es s) \<Longrightarrow> nosleep_at (case v of (x, y) \<Rightarrow> f x y) es s"
  by (cases v) simp

lemmas nosleep_at_rules = nosleep_at_bind nosleep_at_then nosleep_at_if nosleep_at_prod

lemma nosleep_basic [nosleep_rule]:
  "nosleep (kret x)" "nosleep (kpanic p)" "nosleep (kget g)" "nosleep (kmod h)" "nosleep (kpanic_if c p)"
  by (simp_all add: nosleep_def nosleep_at_def kpanic_if_def)

lemma nosleep_bind [nosleep_rule]: "nosleep m \<Longrightarrow> (\<And>x. nosleep (f x)) \<Longrightarrow> nosleep (kbind m f)"
  by (intro nosleepI nosleep_at_bind) (simp_all add: nosleep_def)

lemma nosleep_then [nosleep_rule]: "nosleep m \<Longrightarrow> nosleep n \<Longrightarrow> nosleep (kthen m n)"
  by (simp add: kthen_def nosleep_bind)

lemma nosleep_kif [nosleep_rule]: "nosleep m \<Longrightarrow> nosleep n \<Longrightarrow> nosleep (kif c m n)"
  by (intro nosleepI nosleep_at_if) (simp_all add: nosleep_def)

lemma nosleep_if [nosleep_rule]: "nosleep m \<Longrightarrow> nosleep n \<Longrightarrow> nosleep (if c then m else n)"
  by simp

lemma nosleep_option [nosleep_rule]:
  "nosleep m \<Longrightarrow> (\<And>x. nosleep (f x)) \<Longrightarrow> nosleep (case v of None \<Rightarrow> m | Some x \<Rightarrow> f x)"
  by (cases v) simp_all

lemma nosleep_prod [nosleep_rule]: "(\<And>x y. nosleep (f x y)) \<Longrightarrow> nosleep (case v of (x, y) \<Rightarrow> f x y)"
  by (cases v) simp

lemma nosleep_let [nosleep_rule]: "(\<And>x. nosleep (f x)) \<Longrightarrow> nosleep (let x = v in f x)"
  by simp

lemma nosleep_kfor [nosleep_rule]: "(\<And>x. nosleep (f x)) \<Longrightarrow> nosleep (kfor xs f)"
  by (induction xs) (simp_all add: nosleep_rule)

lemma nosleep_locks [nosleep_rule]: "nosleep (acquire lk)" "nosleep (release lk)" "nosleep (klock_init lk)" "nosleep (kprintf f xs)"
  unfolding acquire_def release_def klock_init_def kprintf_def by (intro nosleep_rule)+

lemma nosleep_pages [nosleep_rule]: "nosleep kalloc" "nosleep (kfree p)" "nosleep uvmcreate"
  unfolding kalloc_def kfree_def uvmcreate_def by (intro nosleep_rule)+

lemma nosleep_walk_levels [nosleep_rule]: "nosleep (walk_levels l pt va al)"
  by (induction l arbitrary: pt) (simp_all add: nosleep_rule)

lemma nosleep_walk [nosleep_rule]: "nosleep (walk pt va al)"
  unfolding walk_def by (intro nosleep_rule)

lemma nosleep_walkaddr [nosleep_rule]: "nosleep (walkaddr pt va)" "nosleep (ismapped pt va)"
  unfolding walkaddr_def ismapped_def by (intro nosleep_rule)+

text \<open>A loop, from its equation.\<close>

lemma nosleep_at_eqI: "m es s = n es s \<Longrightarrow> nosleep_at n es s \<Longrightarrow> nosleep_at m es s"
  by (simp add: nosleep_at_def)

lemma nosleep_mappages_loop [nosleep_rule]: "nosleep (mappages_loop pt a b pa perm)"
proof (rule nosleepI)
  fix es s
  show "nosleep_at (mappages_loop pt a b pa perm) es s"
  proof (induction pt a b pa perm es s rule: mappages_loop.induct)
    case (1 pt a b pa perm es s)
    show ?case
      by (rule nosleep_at_eqI, rule mappages_loop.simps, intro nosleep_at_rules; (rule 1; assumption | rule nosleep_at, rule nosleep_rule))
  qed
qed

lemma nosleep_mappages [nosleep_rule]: "nosleep (mappages pt va sz pa perm)"
  unfolding mappages_def by (intro nosleep_rule)

lemma nosleep_uvmunmap_loop [nosleep_rule]: "nosleep (uvmunmap_loop pt a e f)"
proof (rule nosleepI)
  fix es s
  show "nosleep_at (uvmunmap_loop pt a e f) es s"
  proof (induction pt a e f es s rule: uvmunmap_loop.induct)
    case (1 pt a e f es s)
    show ?case
      by (rule nosleep_at_eqI, rule uvmunmap_loop.simps, intro nosleep_at_rules; (rule 1; assumption | rule nosleep_at, intro nosleep_rule))
  qed
qed

lemma nosleep_uvmunmap [nosleep_rule]: "nosleep (uvmunmap pt va n f)"
  unfolding uvmunmap_def by (intro nosleep_rule)

lemma nosleep_uvmdealloc [nosleep_rule]: "nosleep (uvmdealloc pt a b)"
  unfolding uvmdealloc_def by (intro nosleep_rule)

lemma nosleep_freewalk [nosleep_rule]: "nosleep (freewalk d pt)"
  by (induction d arbitrary: pt) (simp_all add: nosleep_rule freewalk_entry_def)

lemma nosleep_uvmfree [nosleep_rule]: "nosleep (uvmfree pt sz)"
  unfolding uvmfree_def by (intro nosleep_rule)

lemma nosleep_uvmalloc_loop [nosleep_rule]: "nosleep (uvmalloc_loop pt a b c x)"
proof (rule nosleepI)
  fix es s
  show "nosleep_at (uvmalloc_loop pt a b c x) es s"
  proof (induction pt a b c x es s rule: uvmalloc_loop.induct)
    case (1 pt a b c x es s)
    show ?case
      by (rule nosleep_at_eqI, rule uvmalloc_loop.simps, intro nosleep_at_rules; (rule 1; assumption | rule nosleep_at, intro nosleep_rule))
  qed
qed

lemma nosleep_uvmcopy_loop [nosleep_rule]: "nosleep (uvmcopy_loop old new i sz)"
proof (rule nosleepI)
  fix es s
  show "nosleep_at (uvmcopy_loop old new i sz) es s"
  proof (induction old new i sz es s rule: uvmcopy_loop.induct)
    case (1 old new i sz es s)
    show ?case
      by (rule nosleep_at_eqI, rule uvmcopy_loop.simps, intro nosleep_at_rules; (rule 1; assumption | rule nosleep_at, intro nosleep_rule))
  qed
qed

lemma nosleep_uvmalloc [nosleep_rule]: "nosleep (uvmalloc pt a b x)" "nosleep (uvmcopy old new sz)" "nosleep (uvmclear pt va)"
  unfolding uvmalloc_def uvmcopy_def uvmclear_def by (intro nosleep_rule)+

lemma nosleep_myproc [nosleep_rule]: "nosleep myproc" "nosleep myproc_deref" "nosleep (set_proc p f)"
  unfolding myproc_deref_def myproc_def set_proc_def by (intro nosleep_rule)+

lemma nosleep_vmfault [nosleep_rule]: "nosleep (vmfault pt va rd)"
  unfolding vmfault_def by (intro nosleep_rule)

lemma nosleep_copyin [nosleep_rule]: "nosleep (copyin pt va n)"
proof (rule nosleepI)
  fix es s
  show "nosleep_at (copyin pt va n) es s"
  proof (induction pt va n es s rule: copyin.induct)
    case (1 pt va n es s)
    show ?case
      by (rule nosleep_at_eqI, rule copyin.simps, intro nosleep_at_rules; (rule 1; assumption | rule nosleep_at, intro nosleep_rule))
  qed
qed

lemma nosleep_copyout [nosleep_rule]: "nosleep (copyout pt va bs)"
proof (rule nosleepI)
  fix es s
  show "nosleep_at (copyout pt va bs) es s"
  proof (induction pt va bs es s rule: copyout.induct)
    case (1 pt va bs es s)
    show ?case
      by (rule nosleep_at_eqI, rule copyout.simps, intro nosleep_at_rules; (rule 1; assumption | rule nosleep_at, intro nosleep_rule))
  qed
qed

lemma nosleep_copyinstr [nosleep_rule]: "nosleep (copyinstr pt va n)"
proof (rule nosleepI)
  fix es s
  show "nosleep_at (copyinstr pt va n) es s"
  proof (induction pt va n es s rule: copyinstr.induct)
    case (1 pt va n es s)
    show ?case
      by (rule nosleep_at_eqI, rule copyinstr.simps, intro nosleep_at_rules; (rule 1; (assumption | rule sym, assumption | rule refl) | rule nosleep_at, intro nosleep_rule))
  qed
qed

lemma nosleep_killed [nosleep_rule]: "nosleep (killed p)" "nosleep (setkilled p)" "nosleep (wakeup_one ch p)" "nosleep (wakeup ch)"
  unfolding killed_def setkilled_def wakeup_def wakeup_one_def by (intro nosleep_rule)+

lemma nosleep_either [nosleep_rule]: "nosleep (either_copyout d bs)" "nosleep (either_copyin d n)"
  unfolding either_copyout_def either_copyin_def by (cases d; simp; intro nosleep_rule)+


end
