(* ===== verification/Xv6_Process.thy ===== *)
theory Xv6_Process
  imports Xv6_File Xv6_Nosleep
begin

text \<open>
  The life of a process (\<open>kernel/proc.c\<close>): allocation and release of process structures and of
  their page tables, \<open>fork\<close>, \<open>exit\<close>, \<open>wait\<close>, growing memory, the scheduler, and the kernel page
  table (\<open>kvmmake\<close> of \<open>kernel/vm.c\<close>). The trapframe of a process is a page of memory; its fields are
  named by their offsets in \<open>struct trapframe\<close>.
\<close>

section \<open>The trapframe\<close>

definition TF_KERNEL_SATP :: nat where "TF_KERNEL_SATP = 0"
definition TF_KERNEL_SP :: nat where "TF_KERNEL_SP = 8"
definition TF_KERNEL_TRAP :: nat where "TF_KERNEL_TRAP = 16"
definition TF_EPC :: nat where "TF_EPC = 24"
definition TF_KERNEL_HARTID :: nat where "TF_KERNEL_HARTID = 32"
definition TF_SP :: nat where "TF_SP = 48"

text \<open>The argument registers \<open>a0\<close> to \<open>a7\<close>.\<close>

definition TF_A :: "nat \<Rightarrow> nat" where "TF_A n = 112 + 8 * n"

definition tf_get :: "nat \<Rightarrow> nat \<Rightarrow> ('z kproc_scheme, uint64) km" where
  "tf_get p off = kget (\<lambda>s. load64 (mem s) (trapframe (procs s p) + of_nat off))"

definition tf_set :: "nat \<Rightarrow> nat \<Rightarrow> uint64 \<Rightarrow> ('z kproc_scheme, unit) km" where
  "tf_set p off v = kmod (\<lambda>s. s\<lparr>mem := store64 (mem s) (trapframe (procs s p) + of_nat off) v\<rparr>)"

section \<open>Page tables of processes and of the kernel\<close>

definition proc_pagetable :: "nat \<Rightarrow> ('z kproc_scheme, addr) km" where
  "proc_pagetable p =
     kbind uvmcreate (\<lambda>pt.
     kif (pt = 0) (kret 0)
    (kbind (kget trampoline) (\<lambda>tr.
     kbind (mappages pt TRAMPOLINE 4096 tr (PTE_R OR PTE_X)) (\<lambda>r.
     kif (r < 0)
       (kthen (uvmfree pt 0) (kret 0))
    (kbind (kget (\<lambda>s. trapframe (procs s p))) (\<lambda>tf.
     kbind (mappages pt TRAPFRAME 4096 tf (PTE_R OR PTE_W)) (\<lambda>r.
     kif (r < 0)
       (kthen (uvmunmap pt TRAMPOLINE 1 False)
       (kthen (uvmfree pt 0) (kret 0)))
       (kret pt))))))))"

definition proc_freepagetable :: "addr \<Rightarrow> uint64 \<Rightarrow> ('z kproc_scheme, unit) km" where
  "proc_freepagetable pt sz =
     kthen (uvmunmap pt TRAMPOLINE 1 False)
    (kthen (uvmunmap pt TRAPFRAME 1 False)
           (uvmfree pt sz))"

definition UART0 :: addr where "UART0 = 0x10000000"
definition VIRTIO0 :: addr where "VIRTIO0 = 0x10001000"
definition PLIC :: addr where "PLIC = 0x0c000000"

definition mapstack :: "addr \<Rightarrow> nat \<Rightarrow> ('z kproc_scheme, unit) km" where
  "mapstack kpgtbl p =
     kbind kalloc (\<lambda>pa.
     kthen (kpanic_if (\<lambda>_. pa = 0) ''kalloc'')
           (kvmmap kpgtbl (KSTACK p) pa 4096 (PTE_R OR PTE_W)))"

definition proc_mapstacks :: "addr \<Rightarrow> ('z kproc_scheme, unit) km" where
  "proc_mapstacks kpgtbl = kfor [0..<NPROC] (mapstack kpgtbl)"

definition kvmmake :: "('z kproc_scheme, addr) km" where
  "kvmmake =
     kbind kalloc (\<lambda>kpgtbl.
     kthen (kmod (\<lambda>s. s\<lparr>mem := memset (mem s) kpgtbl 0 4096\<rparr>))
    (kthen (kvmmap kpgtbl UART0 UART0 4096 (PTE_R OR PTE_W))
    (kthen (kvmmap kpgtbl VIRTIO0 VIRTIO0 4096 (PTE_R OR PTE_W))
    (kthen (kvmmap kpgtbl PLIC PLIC 0x4000000 (PTE_R OR PTE_W))
    (kbind (kget etext) (\<lambda>e.
     kthen (kvmmap kpgtbl KERNBASE KERNBASE (e - KERNBASE) (PTE_R OR PTE_X))
    (kthen (kvmmap kpgtbl e e (PHYSTOP - e) (PTE_R OR PTE_W))
    (kbind (kget trampoline) (\<lambda>tr.
     kthen (kvmmap kpgtbl TRAMPOLINE tr 4096 (PTE_R OR PTE_X))
    (kthen (proc_mapstacks kpgtbl)
           (kret kpgtbl)))))))))))"

definition kvminit :: "('z kproc_scheme, unit) km" where
  "kvminit = kbind kvmmake (\<lambda>pt. kmod (\<lambda>s. s\<lparr>kernel_pagetable := pt\<rparr>))"

section \<open>Process structures\<close>

definition freeproc :: "nat \<Rightarrow> ('z kproc_scheme, unit) km" where
  "freeproc p =
     kbind (kget (\<lambda>s. trapframe (procs s p))) (\<lambda>tf.
     kthen (if tf \<noteq> 0 then kfree tf else kret ())
    (kthen (set_proc p (\<lambda>q. q\<lparr>trapframe := 0\<rparr>))
    (kbind (kget (\<lambda>s. procs s p)) (\<lambda>q.
     kthen (if pagetable q \<noteq> 0 then proc_freepagetable (pagetable q) (psz q) else kret ())
           (set_proc p (\<lambda>q. q\<lparr>pagetable := 0, psz := 0, pid := 0, parent := None, pname := (pname q)(0 := 0),
              pchan := None, pkilled := False, xstate := 0, pstate := UNUSED\<rparr>))))))"

text \<open>The search of \<open>allocproc\<close>: the first unused process, with its lock held.\<close>

fun allocproc_find :: "nat list \<Rightarrow> ('z kproc_scheme, nat option) km" where
  "allocproc_find [] = kret None"
| "allocproc_find (p # ps) =
     kthen (acquire (ProcLock p))
    (kbind (kget (\<lambda>s. pstate (procs s p) = UNUSED)) (\<lambda>free.
     kif free (kret (Some p))
              (kthen (release (ProcLock p)) (allocproc_find ps))))"

definition allocproc :: "('z kproc_scheme, nat option) km" where
  "allocproc =
     kbind (allocproc_find [0..<NPROC]) (\<lambda>r. case r of None \<Rightarrow> kret None
     | Some p \<Rightarrow>
         kbind allocpid (\<lambda>i.
         kthen (set_proc p (\<lambda>q. q\<lparr>pid := i\<rparr>))
        (kthen (set_proc p (\<lambda>q. q\<lparr>pstate := USED\<rparr>))
        (kbind kalloc (\<lambda>tf.
         kthen (set_proc p (\<lambda>q. q\<lparr>trapframe := tf\<rparr>))
        (kif (tf = 0)
           (kthen (freeproc p) (kthen (release (ProcLock p)) (kret None)))
        (kbind (proc_pagetable p) (\<lambda>pt.
         kthen (set_proc p (\<lambda>q. q\<lparr>pagetable := pt\<rparr>))
        (kif (pt = 0)
           (kthen (freeproc p) (kthen (release (ProcLock p)) (kret None)))
        (kbind (kget forkret_addr) (\<lambda>ra.
         kthen (set_proc p (\<lambda>q. q\<lparr>pcontext := (\<lambda>_. 0)(0 := ra, 1 := kstack q + 4096)\<rparr>))
               (kret (Some p)))))))))))))"

definition growproc :: "int \<Rightarrow> ('z kproc_scheme, int) km" where
  "growproc n =
     kbind myproc_deref (\<lambda>p.
     kbind (kget (\<lambda>s. procs s p)) (\<lambda>q.
     if n > 0
     then kbind (uvmalloc (pagetable q) (psz q) (psz q + of_int n) PTE_W) (\<lambda>sz.
          kif (sz = 0) (kret (- 1))
         (kthen (set_proc p (\<lambda>q. q\<lparr>psz := sz\<rparr>)) (kret 0)))
     else if n < 0
     then kbind (uvmdealloc (pagetable q) (psz q) (psz q + of_int n)) (\<lambda>sz.
          kthen (set_proc p (\<lambda>q. q\<lparr>psz := sz\<rparr>)) (kret 0))
     else kret 0))"

text \<open>\<open>safestrcpy\<close> into a character array of its own: at most \<open>n\<close> characters, the last one NUL.\<close>

fun safestrcpy_arr :: "nat \<Rightarrow> cstr \<Rightarrow> byte list" where
  "safestrcpy_arr 0 t = []"
| "safestrcpy_arr (Suc 0) t = [0]"
| "safestrcpy_arr (Suc (Suc n)) t = (if t 0 \<noteq> 0 then t 0 # safestrcpy_arr (Suc n) (\<lambda>i. t (Suc i)) else [0, 0])"

section \<open>Fork\<close>

definition fork_file :: "nat \<Rightarrow> nat \<Rightarrow> nat \<Rightarrow> ('z kfile_scheme, unit) km" where
  "fork_file p np i =
     kbind (kget (\<lambda>s. ofile (procs s p) i)) (\<lambda>f. case f of
       None \<Rightarrow> kret ()
     | Some f \<Rightarrow> kbind (filedup f) (\<lambda>g. set_proc np (\<lambda>q. q\<lparr>ofile := (ofile q)(i := Some g)\<rparr>)))"

definition kfork :: "('z kfile_scheme, int) km" where
  "kfork =
     kbind myproc_deref (\<lambda>p.
     kbind allocproc (\<lambda>r. case r of None \<Rightarrow> kret (- 1)
     | Some np \<Rightarrow>
         kbind (kget (\<lambda>s. procs s p)) (\<lambda>q.
         kbind (kget (\<lambda>s. pagetable (procs s np))) (\<lambda>npt.
         kbind (uvmcopy (pagetable q) npt (psz q)) (\<lambda>c.
         kif (c < 0)
           (kthen (freeproc np)
           (kthen (release (ProcLock np))
                  (kret (- 1))))
           (kthen (set_proc np (\<lambda>n. n\<lparr>psz := psz q\<rparr>))
           (kthen (kmod (\<lambda>s. s\<lparr>mem := write_bytes (mem s) (trapframe (procs s np)) (bytes_at (mem s) (trapframe (procs s p)) 288)\<rparr>))
           (kthen (tf_set np (TF_A 0) 0)
           (kthen (kfor [0..<NOFILE] (fork_file p np))
           (kbind (kget (\<lambda>s. cwd (procs s p))) (\<lambda>d.
            kbind (idup d) (\<lambda>d'.
            kthen (set_proc np (\<lambda>n. n\<lparr>cwd := d'\<rparr>))
           (kthen (kmod (\<lambda>s. s\<lparr>procs := (procs s)(np := (procs s np)\<lparr>pname :=
                write_bytes (pname (procs s np)) 0 (safestrcpy_arr 16 (at (pname (procs s p)) 0))\<rparr>)\<rparr>))
           (kbind (kget (\<lambda>s. pid (procs s np))) (\<lambda>i.
            kthen (release (ProcLock np))
           (kthen (acquire WaitLock)
           (kthen (set_proc np (\<lambda>n. n\<lparr>parent := Some p\<rparr>))
           (kthen (release WaitLock)
           (kthen (acquire (ProcLock np))
           (kthen (set_proc np (\<lambda>n. n\<lparr>pstate := RUNNABLE\<rparr>))
           (kthen (release (ProcLock np))
                  (kret (sint i)))))))))))))))))))))))"

section \<open>Exit and wait\<close>

text \<open>The channel a process waits on in \<open>kwait\<close> is its process structure; a null parent has none.\<close>

definition wakeup_proc :: "nat option \<Rightarrow> ('z kproc_scheme, unit) km" where
  "wakeup_proc q = (case q of Some p \<Rightarrow> wakeup (ChProc p) | None \<Rightarrow> kret ())"

definition reparent_one :: "nat \<Rightarrow> nat \<Rightarrow> ('z kproc_scheme, unit) km" where
  "reparent_one p pp =
     kbind (kget (\<lambda>s. parent (procs s pp) = Some p)) (\<lambda>c.
     kif c
       (kbind (kget initproc) (\<lambda>ip.
        kthen (set_proc pp (\<lambda>q. q\<lparr>parent := ip\<rparr>))
              (wakeup_proc ip)))
       (kret ()))"

definition reparent :: "nat \<Rightarrow> ('z kproc_scheme, unit) km" where
  "reparent p = kfor [0..<NPROC] (reparent_one p)"

definition exit_file :: "nat \<Rightarrow> nat \<Rightarrow> ('z kfile_scheme, unit) km" where
  "exit_file p fd =
     kbind (kget (\<lambda>s. ofile (procs s p) fd)) (\<lambda>f. case f of
       None \<Rightarrow> kret ()
     | Some f \<Rightarrow> kthen (fileclose f) (set_proc p (\<lambda>q. q\<lparr>ofile := (ofile q)(fd := None)\<rparr>)))"

definition kexit :: "uint32 \<Rightarrow> ('z kfile_scheme, 'a) km" where
  "kexit status =
     kbind myproc_deref (\<lambda>p.
     kthen (kpanic_if (\<lambda>s. initproc s = Some p) ''init exiting'')
    (kthen (kfor [0..<NOFILE] (exit_file p))
    (kthen begin_op
    (kbind (kget (\<lambda>s. cwd (procs s p))) (\<lambda>d.
     kthen (iput d)
    (kthen end_op
    (kthen (set_proc p (\<lambda>q. q\<lparr>cwd := None\<rparr>))
    (kthen (acquire WaitLock)
    (kthen (reparent p)
    (kbind (kget (\<lambda>s. parent (procs s p))) (\<lambda>pa.
     kthen (wakeup_proc pa)
    (kthen (acquire (ProcLock p))
    (kthen (set_proc p (\<lambda>q. q\<lparr>xstate := status\<rparr>))
    (kthen (set_proc p (\<lambda>q. q\<lparr>pstate := ZOMBIE\<rparr>))
    (kthen (release WaitLock)
    (kthen sched
           (kpanic ''zombie exit'')))))))))))))))))"

text \<open>
  One scan of the process table by \<open>kwait\<close>: \<open>Inl r\<close> when it returns \<open>r\<close>, with the locks released;
  \<open>Inr havekids\<close> when it found no exited child.
\<close>

fun kwait_scan :: "nat \<Rightarrow> uint64 \<Rightarrow> bool \<Rightarrow> nat list \<Rightarrow> ('z kproc_scheme, int + bool) km" where
  "kwait_scan p a havekids [] = kret (Inr havekids)"
| "kwait_scan p a havekids (pp # pps) =
     kbind (kget (\<lambda>s. parent (procs s pp) = Some p)) (\<lambda>child.
     kif child
       (kthen (acquire (ProcLock pp))
       (kbind (kget (\<lambda>s. procs s pp)) (\<lambda>q.
        kif (pstate q = ZOMBIE)
          (kbind (kget (\<lambda>s. pagetable (procs s p))) (\<lambda>pt.
           kbind (if a \<noteq> 0 then copyout pt a (bytes_le 4 (unat (xstate q))) else kret 0) (\<lambda>r.
           kif (r < 0)
             (kthen (release (ProcLock pp))
             (kthen (release WaitLock)
                    (kret (Inl (- 1)))))
             (kthen (freeproc pp)
             (kthen (release (ProcLock pp))
             (kthen (release WaitLock)
                    (kret (Inl (sint (pid q))))))))))
          (kthen (release (ProcLock pp))
                 (kwait_scan p a True pps)))))
       (kwait_scan p a havekids pps))"

lemma nosleep_freeproc [nosleep_rule]: "nosleep (proc_freepagetable pt sz)" "nosleep (freeproc p)"
  unfolding freeproc_def proc_freepagetable_def by (intro nosleep_rule)+

lemma nosleep_kwait_scan [nosleep_rule]: "nosleep (kwait_scan p a h pps)"
  by (induction pps arbitrary: h) (simp_all add: nosleep_rule)

function kwait_loop :: "nat \<Rightarrow> uint64 \<Rightarrow> ('z kproc_scheme, int) km" where
  "kwait_loop p a es s =
     kbind (kwait_scan p a False [0..<NPROC]) (\<lambda>r.
     kif (isl r) (kret (projl r))
    (kbind (kif (\<not> projr r) (kret True) (killed p)) (\<lambda>stop.
     kif stop
       (kthen (release WaitLock) (kret (- 1)))
       (kthen (sleep (ChProc p) WaitLock)
              (kwait_loop p a))))) es s"
  by pat_completeness auto
termination
  by (relation "measure (\<lambda>(p, a, es, s). length es)")
    (auto dest!: sleep_Ok_length nosleepD [OF nosleep_killed(1)] nosleepD [OF nosleep_kwait_scan] elim!: kif_OkE)

declare kwait_loop.simps [simp del]

definition kwait :: "uint64 \<Rightarrow> ('z kproc_scheme, int) km" where
  "kwait a =
     kbind myproc_deref (\<lambda>p.
     kthen (acquire WaitLock)
           (kwait_loop p a))"

section \<open>The first process and the scheduler\<close>

definition userinit :: "('z kfile_scheme, unit) km" where
  "userinit =
     kbind allocproc (\<lambda>r.
     kthen (kmod (\<lambda>s. s\<lparr>initproc := r\<rparr>))
    (kbind (namei [slash]) (\<lambda>d. case r of
       None \<Rightarrow> kpanic ''kerneltrap''
     | Some p \<Rightarrow>
         kthen (set_proc p (\<lambda>q. q\<lparr>cwd := d\<rparr>))
        (kthen (set_proc p (\<lambda>q. q\<lparr>pstate := RUNNABLE\<rparr>))
               (release (ProcLock p))))))"

text \<open>
  The thread of the scheduler. When it switches to a process, the next environment step is what
  the process (and the rest of the system) does until it switches back; the hart is then again
  in the scheduler, with the lock of the process held. Interrupts, which the scheduler allows
  between its rounds, and the wait for one (\<open>wfi\<close>) are steps of the other threads.
\<close>

definition swtch_process :: "('z kproc_scheme, unit) km" where
  "swtch_process es s = (case es of [] \<Rightarrow> Asleep s | e # es' \<Rightarrow> Ok () ((e s)\<lparr>held := held s, cur := cur s\<rparr>) es')"

definition schedule_one :: "nat \<Rightarrow> ('z kproc_scheme, unit) km" where
  "schedule_one p =
     kthen (acquire (ProcLock p))
    (kbind (kget (\<lambda>s. pstate (procs s p) = RUNNABLE)) (\<lambda>run.
     kthen (kif run
              (kthen (set_proc p (\<lambda>q. q\<lparr>pstate := RUNNING\<rparr>))
              (kthen (kmod (\<lambda>s. s\<lparr>cur := Some p\<rparr>))
              (kthen swtch_process
                     (kmod (\<lambda>s. s\<lparr>cur := None\<rparr>)))))
              (kret ()))
           (release (ProcLock p))))"

text \<open>\<open>scheduler\<close> never returns; the argument bounds the number of its rounds.\<close>

primrec scheduler_rounds :: "nat \<Rightarrow> ('z kproc_scheme, unit) km" where
  "scheduler_rounds 0 = kret ()"
| "scheduler_rounds (Suc n) = kthen (kfor [0..<NPROC] schedule_one) (scheduler_rounds n)"

definition scheduler :: "nat \<Rightarrow> ('z kproc_scheme, unit) km" where
  "scheduler n = kthen (kmod (\<lambda>s. s\<lparr>cur := None\<rparr>)) (scheduler_rounds n)"

end
