(* ===== verification/Xv6_Exec.thy ===== *)
theory Xv6_Exec
  imports Xv6_Process
begin

text \<open>
  Running a program (\<open>kernel/exec.c\<close>, \<open>kernel/elf.h\<close>). The ELF header and the program headers are
  the bytes that \<open>readi\<close> delivers, and their fields are read at the offsets of the structures.
  The arguments are C strings, given by their characters before the NUL.
\<close>

definition MAXARG :: nat where "MAXARG = 32"
definition USERSTACK :: uint64 where "USERSTACK = 2"
definition ELF_MAGIC :: nat where "ELF_MAGIC = 0x464C457F"
definition ELF_PROG_LOAD :: nat where "ELF_PROG_LOAD = 1"

text \<open>The number in \<open>n\<close> bytes at offset \<open>off\<close> of a structure.\<close>

definition le_field :: "byte list \<Rightarrow> nat \<Rightarrow> nat \<Rightarrow> nat" where
  "le_field bs off n = foldr (\<lambda>b a. unat b + 256 * a) (take n (drop off bs)) 0"

record elfhdr =
  eh_magic :: nat
  eh_entry :: uint64
  eh_phoff :: uint64
  eh_phnum :: nat

definition elfhdr_of :: "byte list \<Rightarrow> elfhdr" where
  "elfhdr_of bs = \<lparr>eh_magic = le_field bs 0 4, eh_entry = of_nat (le_field bs 24 8), eh_phoff = of_nat (le_field bs 32 8),
     eh_phnum = le_field bs 56 2\<rparr>"

record proghdr =
  ph_type :: nat
  ph_flags :: uint32
  ph_off :: uint64
  ph_vaddr :: uint64
  ph_filesz :: uint64
  ph_memsz :: uint64

definition proghdr_of :: "byte list \<Rightarrow> proghdr" where
  "proghdr_of bs = \<lparr>ph_type = le_field bs 0 4, ph_flags = of_nat (le_field bs 4 4), ph_off = of_nat (le_field bs 8 8),
     ph_vaddr = of_nat (le_field bs 16 8), ph_filesz = of_nat (le_field bs 32 8), ph_memsz = of_nat (le_field bs 40 8)\<rparr>"

definition flags2perm :: "uint32 \<Rightarrow> uint64" where
  "flags2perm flags = (if flags AND 1 \<noteq> 0 then PTE_X else 0) OR (if flags AND 2 \<noteq> 0 then PTE_W else 0)"

text \<open>
  \<open>loadseg\<close>; \<open>i\<close> counts the bytes loaded. The \<open>uint\<close> of the code cannot wrap: the pages from \<open>va\<close>
  to \<open>va + sz\<close> exist, and there are far fewer than \<open>2 ^ 32\<close> bytes of memory.
\<close>

function loadseg_from :: "addr \<Rightarrow> uint64 \<Rightarrow> nat \<Rightarrow> uint32 \<Rightarrow> nat \<Rightarrow> nat \<Rightarrow> ('z kfs_scheme, int) km" where
  "loadseg_from pt va ip off sz i es s =
     kif (i < sz)
       (kbind (walkaddr pt (va + of_nat i)) (\<lambda>pa.
        kthen (kpanic_if (\<lambda>_. pa = 0) ''loadseg: address should exist'')
       (kbind (readi ip (Kern pa) (off + of_nat i) (of_nat (min (sz - i) 4096))) (\<lambda>rb.
        kif (fst rb \<noteq> int (min (sz - i) 4096)) (kret (- 1))
            (loadseg_from pt va ip off sz (i + 4096))))))
       (kret 0) es s"
  by pat_completeness auto
termination
  by (relation "measure (\<lambda>(pt, va, ip, off, sz, i, es, s). sz - i)") auto

declare loadseg_from.simps [simp del]

definition loadseg :: "addr \<Rightarrow> uint64 \<Rightarrow> nat \<Rightarrow> uint32 \<Rightarrow> uint32 \<Rightarrow> ('z kfs_scheme, int) km" where
  "loadseg pt va ip off sz = loadseg_from pt va ip off (unat sz) 0"

text \<open>
  The loop over the program headers: \<open>Inr sz\<close> when all are loaded, \<open>Inl sz\<close> when the code jumps
  to \<open>bad\<close>; \<open>sz\<close> is the size of the new memory.
\<close>

primrec exec_segments :: "addr \<Rightarrow> nat \<Rightarrow> nat \<Rightarrow> uint32 \<Rightarrow> uint64 \<Rightarrow> ('z kfs_scheme, uint64 + uint64) km" where
  "exec_segments pt ip 0 off sz = kret (Inr sz)"
| "exec_segments pt ip (Suc n) off sz =
     kbind (readi ip (Obj []) off 56) (\<lambda>rb.
     kif (fst rb \<noteq> 56) (kret (Inl sz))
    (let ph = proghdr_of (snd rb) in
     kif (ph_type ph \<noteq> ELF_PROG_LOAD) (exec_segments pt ip n (off + 56) sz)
    (kif (ph_memsz ph < ph_filesz ph) (kret (Inl sz))
    (kif (ph_vaddr ph + ph_memsz ph < ph_vaddr ph) (kret (Inl sz))
    (kif (unat (ph_vaddr ph) mod PGSIZE \<noteq> 0) (kret (Inl sz))
    (kbind (uvmalloc pt sz (ph_vaddr ph + ph_memsz ph) (flags2perm (ph_flags ph))) (\<lambda>sz1.
     kif (sz1 = 0) (kret (Inl sz))
    (kbind (loadseg pt (ph_vaddr ph) ip (ucast (ph_off ph)) (ucast (ph_filesz ph))) (\<lambda>r.
     kif (r < 0) (kret (Inl sz1))
         (exec_segments pt ip n (off + 56) sz1))))))))))"

text \<open>
  Copying the argument strings to the stack: the stack pointer and the addresses of the strings,
  or \<open>None\<close> for \<open>bad\<close>.
\<close>

definition align16 :: "uint64 \<Rightarrow> uint64" where
  "align16 sp = sp - sp mod 16"

primrec exec_args ::
  "addr \<Rightarrow> uint64 \<Rightarrow> nat \<Rightarrow> uint64 \<Rightarrow> uint64 list \<Rightarrow> byte list list \<Rightarrow> ('z kproc_scheme, (uint64 \<times> uint64 list) option) km"
where
  "exec_args pt base argc sp ustack [] = kret (Some (sp, ustack))"
| "exec_args pt base argc sp ustack (a # as) =
     kif (argc \<ge> MAXARG) (kret None)
    (let sp = align16 (sp - (of_nat (length a) + 1)) in
     kif (sp < base) (kret None)
    (kbind (copyout pt sp (a @ [0])) (\<lambda>r.
     kif (r < 0) (kret None)
         (exec_args pt base (Suc argc) sp (ustack @ [sp]) as))))"

definition kexec_bad :: "addr \<Rightarrow> uint64 \<Rightarrow> nat option \<Rightarrow> ('z kfs_scheme, int) km" where
  "kexec_bad pt sz ip =
     kthen (if pt \<noteq> 0 then proc_freepagetable pt sz else kret ())
    (kthen (if ip \<noteq> None then kthen (iunlockput ip) end_op else kret ())
           (kret (- 1)))"

text \<open>The program's name: what follows the last slash of the path.\<close>

definition last_elem :: "byte list \<Rightarrow> byte list" where
  "last_elem path = rev (takeWhile (\<lambda>c. c \<noteq> slash) (rev path))"

text \<open>The second half of \<open>kexec\<close>: the stack and the switch to the new image.\<close>

definition exec_image :: "nat \<Rightarrow> byte list \<Rightarrow> byte list list \<Rightarrow> uint64 \<Rightarrow> addr \<Rightarrow> uint64 \<Rightarrow> ('z kfs_scheme, int) km" where
  "exec_image p path argv entry pt sz =
     kbind (kget (\<lambda>s. psz (procs s p))) (\<lambda>oldsz.
     let sz = PGROUNDUP sz in
     kbind (uvmalloc pt sz (sz + (USERSTACK + 1) * 4096) PTE_W) (\<lambda>sz1.
     kif (sz1 = 0) (kexec_bad pt sz None)
    (kthen (uvmclear pt (sz1 - (USERSTACK + 1) * 4096))
    (kbind (exec_args pt (sz1 - USERSTACK * 4096) 0 sz1 [] argv) (\<lambda>r. case r of
       None \<Rightarrow> kexec_bad pt sz1 None
     | Some (sp, ustack) \<Rightarrow>
         let argc = length ustack; sp = align16 (sp - (of_nat argc + 1) * 8) in
         kif (sp < sz1 - USERSTACK * 4096) (kexec_bad pt sz1 None)
        (kbind (copyout pt sp (concat (map (\<lambda>v. bytes_le 8 (unat v)) (ustack @ [0])))) (\<lambda>r.
         kif (r < 0) (kexec_bad pt sz1 None)
        (kthen (tf_set p (TF_A 1) sp)
        (kthen (set_proc p (\<lambda>q. q\<lparr>pname := write_bytes (pname q) 0 (safestrcpy_arr 16 (arr (last_elem path)))\<rparr>))
        (kbind (kget (\<lambda>s. pagetable (procs s p))) (\<lambda>old.
         kthen (set_proc p (\<lambda>q. q\<lparr>pagetable := pt\<rparr>))
        (kthen (set_proc p (\<lambda>q. q\<lparr>psz := sz1\<rparr>))
        (kthen (tf_set p TF_EPC entry)
        (kthen (tf_set p TF_SP sp)
        (kthen (proc_freepagetable old oldsz)
               (kret (int argc)))))))))))))))))"

definition kexec :: "byte list \<Rightarrow> byte list list \<Rightarrow> ('z kfs_scheme, int) km" where
  "kexec path argv =
     kbind myproc_deref (\<lambda>p.
     kthen begin_op
    (kbind (namei path) (\<lambda>ip. case ip of
       None \<Rightarrow> kthen end_op (kret (- 1))
     | Some i \<Rightarrow>
         kthen (ilock ip)
        (kbind (readi i (Obj []) 0 64) (\<lambda>rb.
         kif (fst rb \<noteq> 64) (kexec_bad 0 0 ip)
        (let elf = elfhdr_of (snd rb) in
         kif (eh_magic elf \<noteq> ELF_MAGIC) (kexec_bad 0 0 ip)
        (kbind (proc_pagetable p) (\<lambda>pt.
         kif (pt = 0) (kexec_bad 0 0 ip)
        (kbind (exec_segments pt i (eh_phnum elf) (ucast (eh_phoff elf)) 0) (\<lambda>r. case r of
           Inl sz \<Rightarrow> kexec_bad pt sz ip
         | Inr sz \<Rightarrow>
             kthen (iunlockput ip)
            (kthen end_op
                   (exec_image p path argv (eh_entry elf) pt sz))))))))))))"

end
