(* ===== verification/Xv6_Syscall.thy ===== *)
theory Xv6_Syscall
  imports Xv6_Exec
begin

text \<open>
  System calls: fetching arguments (\<open>kernel/syscall.c\<close>) and the handlers of \<open>kernel/sysproc.c\<close>;
  those of \<open>kernel/sysfile.c\<close> are in \<open>Xv6_Sysfile\<close>. A handler returns the 64-bit value that goes to
  the user's \<open>a0\<close>. \<open>junk\<close> are bytes of the kernel stack that the code uses uninitialised: the
  padding of \<open>struct stat\<close> and the array for a path element.
\<close>

definition MAXPATH :: nat where "MAXPATH = 128"
definition SBRK_EAGER :: int where "SBRK_EAGER = 1"

record ksys = kfile +
  ticks :: uint32
  junk :: "byte list"

section \<open>Arguments\<close>

text \<open>\<open>fetchaddr\<close> returns the number at the address, or \<open>None\<close> for -1.\<close>

definition fetchaddr :: "uint64 \<Rightarrow> ('z kproc_scheme, uint64 option) km" where
  "fetchaddr a =
     kbind myproc_deref (\<lambda>p.
     kbind (kget (\<lambda>s. procs s p)) (\<lambda>q.
     kif (a \<ge> psz q \<or> a + 8 > psz q) (kret None)
    (kbind (copyin (pagetable q) a 8) (\<lambda>rb.
     kif (fst rb \<noteq> 0) (kret None)
         (kret (Some (of_nat (le_field (snd rb) 0 8))))))))"

text \<open>\<open>fetchstr\<close> returns the length of the string or -1, and the bytes it put into the buffer.\<close>

definition fetchstr :: "uint64 \<Rightarrow> nat \<Rightarrow> ('z kproc_scheme, int \<times> byte list) km" where
  "fetchstr a mx =
     kbind myproc_deref (\<lambda>p.
     kbind (kget (\<lambda>s. pagetable (procs s p))) (\<lambda>pt.
     kbind (copyinstr pt a mx) (\<lambda>rb.
     kif (fst rb < 0) (kret (- 1, snd rb))
         (kret (int (length (takeWhile (\<lambda>c. c \<noteq> 0) (snd rb))), snd rb)))))"

definition argraw :: "nat \<Rightarrow> ('z kproc_scheme, uint64) km" where
  "argraw n = kbind myproc_deref (\<lambda>p. if n \<le> 5 then tf_get p (TF_A n) else kpanic ''argraw'')"

definition argint :: "nat \<Rightarrow> ('z kproc_scheme, int) km" where
  "argint n = kbind (argraw n) (\<lambda>v. kret (sint (ucast v :: uint32)))"

definition argaddr :: "nat \<Rightarrow> ('z kproc_scheme, uint64) km" where
  "argaddr n = argraw n"

text \<open>\<open>argstr\<close> with a local buffer: the string, or \<open>None\<close> for a negative result.\<close>

definition argstr :: "nat \<Rightarrow> nat \<Rightarrow> ('z kproc_scheme, byte list option) km" where
  "argstr n mx =
     kbind (argaddr n) (\<lambda>a.
     kbind (fetchstr a mx) (\<lambda>rb.
     kret (if fst rb < 0 then None else Some (takeWhile (\<lambda>c. c \<noteq> 0) (snd rb)))))"

section \<open>Processes\<close>

definition sys_exit :: "('z ksys_scheme, uint64) km" where
  "sys_exit = kbind (argint 0) (\<lambda>n. kexit (of_int n))"

definition sys_getpid :: "('z ksys_scheme, uint64) km" where
  "sys_getpid = kbind myproc_deref (\<lambda>p. kget (\<lambda>s. scast (pid (procs s p))))"

definition sys_fork :: "('z ksys_scheme, uint64) km" where
  "sys_fork = kbind kfork (\<lambda>r. kret (of_int r))"

definition sys_wait :: "('z ksys_scheme, uint64) km" where
  "sys_wait = kbind (argaddr 0) (\<lambda>a. kbind (kwait a) (\<lambda>r. kret (of_int r)))"

definition sys_sbrk :: "('z ksys_scheme, uint64) km" where
  "sys_sbrk =
     kbind (argint 0) (\<lambda>n.
     kbind (argint 1) (\<lambda>t.
     kbind myproc_deref (\<lambda>p.
     kbind (kget (\<lambda>s. psz (procs s p))) (\<lambda>a.
     kif (t = SBRK_EAGER \<or> n < 0)
       (kbind (growproc n) (\<lambda>r.
        kif (r < 0) (kret (- 1)) (kret a)))
    (kif (a + of_int n < a) (kret (- 1))
    (kthen (set_proc p (\<lambda>q. q\<lparr>psz := psz q + of_int n\<rparr>))
           (kret a)))))))"

function sys_pause_loop :: "uint32 \<Rightarrow> int \<Rightarrow> ('z ksys_scheme, uint64) km" where
  "sys_pause_loop ticks0 n es s =
     kbind (kget (\<lambda>s. ticks s - ticks0 < of_int n)) (\<lambda>w.
     kif w
       (kbind myproc_deref (\<lambda>p.
        kbind (killed p) (\<lambda>k.
        kif k (kthen (release TicksLock) (kret (- 1)))
              (kthen (sleep ChTicks TicksLock) (sys_pause_loop ticks0 n)))))
       (kthen (release TicksLock) (kret 0))) es s"
  by pat_completeness auto
termination
  by (relation "measure (\<lambda>(ticks0, n, es, s). length es)")
    (auto dest!: sleep_Ok_length nosleepD [OF nosleep_killed(1)] nosleepD [OF nosleep_myproc(2)])

declare sys_pause_loop.simps [simp del]

definition sys_pause :: "('z ksys_scheme, uint64) km" where
  "sys_pause =
     kbind (argint 0) (\<lambda>n.
     kthen (acquire TicksLock)
    (kbind (kget ticks) (\<lambda>ticks0.
     sys_pause_loop ticks0 (if n < 0 then 0 else n))))"

definition sys_kill :: "('z ksys_scheme, uint64) km" where
  "sys_kill = kbind (argint 0) (\<lambda>pd. kbind (kkill (of_int pd)) (\<lambda>r. kret (of_int r)))"

definition sys_uptime :: "('z ksys_scheme, uint64) km" where
  "sys_uptime =
     kthen (acquire TicksLock)
    (kbind (kget ticks) (\<lambda>xticks.
     kthen (release TicksLock)
           (kret (ucast xticks))))"

end
