(* ===== verification/Xv6_Sysfile.thy ===== *)
theory Xv6_Sysfile
  imports Xv6_Syscall
begin

text \<open>
  The system calls on files (\<open>kernel/sysfile.c\<close>) and the dispatch of all system calls
  (\<open>syscall\<close> of \<open>kernel/syscall.c\<close>).
\<close>

definition O_RDONLY :: uint32 where "O_RDONLY = 0"
definition O_WRONLY :: uint32 where "O_WRONLY = 1"
definition O_RDWR :: uint32 where "O_RDWR = 2"
definition O_CREATE :: uint32 where "O_CREATE = 0x200"
definition O_TRUNC :: uint32 where "O_TRUNC = 0x400"

section \<open>Descriptors\<close>

text \<open>\<open>argfd\<close>: the descriptor and the file, or \<open>None\<close> for -1.\<close>

definition argfd :: "nat \<Rightarrow> ('z ksys_scheme, (nat \<times> nat) option) km" where
  "argfd n =
     kbind (argint n) (\<lambda>fd.
     kif (fd < 0 \<or> fd \<ge> int NOFILE) (kret None)
    (kbind myproc_deref (\<lambda>p.
     kbind (kget (\<lambda>s. ofile (procs s p) (nat fd))) (\<lambda>f. case f of
       None \<Rightarrow> kret None
     | Some f \<Rightarrow> kret (Some (nat fd, f))))))"

fun fdalloc_from :: "nat \<Rightarrow> nat \<Rightarrow> nat list \<Rightarrow> ('z ksys_scheme, nat option) km" where
  "fdalloc_from p f [] = kret None"
| "fdalloc_from p f (fd # fds) =
     kbind (kget (\<lambda>s. ofile (procs s p) fd = None)) (\<lambda>free.
     kif free
       (kthen (set_proc p (\<lambda>q. q\<lparr>ofile := (ofile q)(fd := Some f)\<rparr>)) (kret (Some fd)))
       (fdalloc_from p f fds))"

text \<open>\<open>fdalloc\<close> returns \<open>None\<close> for -1.\<close>

definition fdalloc :: "nat \<Rightarrow> ('z ksys_scheme, nat option) km" where
  "fdalloc f = kbind myproc_deref (\<lambda>p. fdalloc_from p f [0..<NOFILE])"

definition sys_dup :: "('z ksys_scheme, uint64) km" where
  "sys_dup =
     kbind (argfd 0) (\<lambda>a. case a of None \<Rightarrow> kret (- 1)
     | Some (_, f) \<Rightarrow>
         kbind (fdalloc f) (\<lambda>r. case r of None \<Rightarrow> kret (- 1)
         | Some fd \<Rightarrow> kthen (filedup f) (kret (of_nat fd))))"

definition sys_read :: "('z ksys_scheme, uint64) km" where
  "sys_read =
     kbind (argaddr 1) (\<lambda>p.
     kbind (argint 2) (\<lambda>n.
     kbind (argfd 0) (\<lambda>a. case a of None \<Rightarrow> kret (- 1)
     | Some (_, f) \<Rightarrow> kbind (fileread f p n) (\<lambda>r. kret (of_int r)))))"

definition sys_write :: "('z ksys_scheme, uint64) km" where
  "sys_write =
     kbind (argaddr 1) (\<lambda>p.
     kbind (argint 2) (\<lambda>n.
     kbind (argfd 0) (\<lambda>a. case a of None \<Rightarrow> kret (- 1)
     | Some (_, f) \<Rightarrow> kbind (filewrite f p n) (\<lambda>r. kret (of_int r)))))"

definition sys_close :: "('z ksys_scheme, uint64) km" where
  "sys_close =
     kbind (argfd 0) (\<lambda>a. case a of None \<Rightarrow> kret (- 1)
     | Some (fd, f) \<Rightarrow>
         kbind myproc_deref (\<lambda>p.
         kthen (set_proc p (\<lambda>q. q\<lparr>ofile := (ofile q)(fd := None)\<rparr>))
        (kthen (fileclose f)
               (kret 0))))"

definition sys_fstat :: "('z ksys_scheme, uint64) km" where
  "sys_fstat =
     kbind (argaddr 1) (\<lambda>st.
     kbind (argfd 0) (\<lambda>a. case a of None \<Rightarrow> kret (- 1)
     | Some (_, f) \<Rightarrow>
         kbind (kget (\<lambda>s. take 4 (junk s))) (\<lambda>pad.
         kbind (filestat pad f st) (\<lambda>r. kret (of_int r)))))"

section \<open>Links\<close>

definition sys_link_bad :: "nat \<Rightarrow> ('z ksys_scheme, uint64) km" where
  "sys_link_bad i =
     kthen (ilock (Some i))
    (kthen (set_inode i (\<lambda>p. p\<lparr>inlink := inlink p - 1\<rparr>))
    (kthen (iupdate i)
    (kthen (iunlockput (Some i))
    (kthen end_op
           (kret (- 1))))))"

definition sys_link :: "('z ksys_scheme, uint64) km" where
  "sys_link =
     kbind (argstr 0 MAXPATH) (\<lambda>po. case po of None \<Rightarrow> kret (- 1) | Some old \<Rightarrow>
     kbind (argstr 1 MAXPATH) (\<lambda>n. case n of None \<Rightarrow> kret (- 1) | Some new \<Rightarrow>
     kthen begin_op
    (kbind (namei old) (\<lambda>ip. case ip of None \<Rightarrow> kthen end_op (kret (- 1)) | Some i \<Rightarrow>
     kthen (ilock ip)
    (kbind (inode_get i itype) (\<lambda>ty.
     kif (ty = T_DIR)
       (kthen (iunlockput ip) (kthen end_op (kret (- 1))))
    (kthen (set_inode i (\<lambda>p. p\<lparr>inlink := inlink p + 1\<rparr>))
    (kthen (iupdate i)
    (kthen (iunlock ip)
    (kbind (kget (\<lambda>s. take DIRSIZ (junk s))) (\<lambda>name.
     kbind (nameiparent new name) (\<lambda>(dp, name). case dp of None \<Rightarrow> sys_link_bad i | Some d \<Rightarrow>
     kthen (ilock dp)
    (kbind (inode_get d idev) (\<lambda>ddev.
     kbind (inode_get i id) (\<lambda>p.
     kbind (kif (ddev \<noteq> idev p) (kret (- 1)) (dirlink d name (inum p))) (\<lambda>r.
     kif (r < 0)
       (kthen (iunlockput dp) (sys_link_bad i))
       (kthen (iunlockput dp)
       (kthen (iput ip)
       (kthen end_op
              (kret 0))))))))))))))))))))"

function isdirempty_from :: "nat \<Rightarrow> nat \<Rightarrow> ('z kfs_scheme, bool) km" where
  "isdirempty_from dp off es s =
     kbind (inode_get dp (\<lambda>p. unat (isize p))) (\<lambda>sz.
     kif (off < sz)
       (kbind (readi dp (Obj []) (of_nat off) 16) (\<lambda>rb.
        kthen (kpanic_if (\<lambda>_. fst rb \<noteq> 16) ''isdirempty: readi'')
       (kif (de_inum (snd rb) \<noteq> 0) (kret False)
            (isdirempty_from dp (off + 16)))))
       (kret True)) es s"
  by pat_completeness auto
termination
  by (relation "measure (\<lambda>(dp, off, es, s). 2 ^ 32 - off)") (auto dest!: u32_bound)

declare isdirempty_from.simps [simp del]

definition isdirempty :: "nat \<Rightarrow> ('z kfs_scheme, bool) km" where
  "isdirempty dp = isdirempty_from dp 32"

definition unlink_bad :: "nat \<Rightarrow> ('z ksys_scheme, uint64) km" where
  "unlink_bad d = kthen (iunlockput (Some d)) (kthen end_op (kret (- 1)))"

text \<open>The names \<open>.\<close> and \<open>..\<close>.\<close>

definition dot :: "byte list" where "dot = [46]"
definition dotdot :: "byte list" where "dotdot = [46, 46]"

definition sys_unlink :: "('z ksys_scheme, uint64) km" where
  "sys_unlink =
     kbind (argstr 0 MAXPATH) (\<lambda>a. case a of None \<Rightarrow> kret (- 1) | Some path \<Rightarrow>
     kthen begin_op
    (kbind (kget (\<lambda>s. take DIRSIZ (junk s))) (\<lambda>name.
     kbind (nameiparent path name) (\<lambda>(dp, name). case dp of None \<Rightarrow> kthen end_op (kret (- 1)) | Some d \<Rightarrow>
     kthen (ilock dp)
    (kif (namecmp name dot = 0 \<or> namecmp name dotdot = 0) (unlink_bad d)
    (kbind (dirlookup d name) (\<lambda>r. case r of None \<Rightarrow> unlink_bad d | Some (i, off) \<Rightarrow>
     kthen (ilock (Some i))
    (kthen (kpanic_if (\<lambda>s. sint (inlink (itable s i)) < 1) ''unlink: nlink < 1'')
    (kbind (inode_get i itype) (\<lambda>ty.
     kbind (kif (ty = T_DIR) (isdirempty i) (kret True)) (\<lambda>ok.
     kif (\<not> ok)
       (kthen (iunlockput (Some i)) (unlink_bad d))
    (kbind (writei d (Obj (replicate 16 0)) (of_nat off) 16) (\<lambda>w.
     kthen (kpanic_if (\<lambda>_. w \<noteq> 16) ''unlink: writei'')
    (kthen (kif (ty = T_DIR)
              (kthen (set_inode d (\<lambda>p. p\<lparr>inlink := inlink p - 1\<rparr>)) (iupdate d))
              (kret ()))
    (kthen (iunlockput dp)
    (kthen (set_inode i (\<lambda>p. p\<lparr>inlink := inlink p - 1\<rparr>))
    (kthen (iupdate i)
    (kthen (iunlockput (Some i))
    (kthen end_op
           (kret 0))))))))))))))))))))"

section \<open>Creating and opening\<close>

definition create_fail :: "nat \<Rightarrow> nat \<Rightarrow> ('z ksys_scheme, nat option) km" where
  "create_fail i d =
     kthen (set_inode i (\<lambda>p. p\<lparr>inlink := 0\<rparr>))
    (kthen (iupdate i)
    (kthen (iunlockput (Some i))
    (kthen (iunlockput (Some d))
           (kret None))))"

text \<open>The entries \<open>.\<close> and \<open>..\<close> of a new directory; the second is not tried when the first fails.\<close>

definition create_dots :: "nat \<Rightarrow> nat \<Rightarrow> ('z ksys_scheme, bool) km" where
  "create_dots i d =
     kbind (inode_get i inum) (\<lambda>n.
     kbind (dirlink i dot n) (\<lambda>r.
     kif (r < 0) (kret False)
    (kbind (inode_get d inum) (\<lambda>dn.
     kbind (dirlink i dotdot dn) (\<lambda>r.
     kret (\<not> r < 0))))))"

definition create_new :: "nat \<Rightarrow> nat \<Rightarrow> byte list \<Rightarrow> uint16 \<Rightarrow> uint16 \<Rightarrow> uint16 \<Rightarrow> ('z ksys_scheme, nat option) km" where
  "create_new i d name type major minor =
     kthen (ilock (Some i))
    (kthen (set_inode i (\<lambda>p. p\<lparr>imajor := major\<rparr>))
    (kthen (set_inode i (\<lambda>p. p\<lparr>iminor := minor\<rparr>))
    (kthen (set_inode i (\<lambda>p. p\<lparr>inlink := 1\<rparr>))
    (kthen (iupdate i)
    (kbind (kif (type = T_DIR) (create_dots i d) (kret True)) (\<lambda>ok.
     kif (\<not> ok) (create_fail i d)
    (kbind (inode_get i inum) (\<lambda>n.
     kbind (dirlink d name n) (\<lambda>r.
     kif (r < 0) (create_fail i d)
    (kthen (kif (type = T_DIR)
              (kthen (set_inode d (\<lambda>p. p\<lparr>inlink := inlink p + 1\<rparr>)) (iupdate d))
              (kret ()))
    (kthen (iunlockput (Some d))
           (kret (Some i)))))))))))))"

definition create :: "byte list \<Rightarrow> uint16 \<Rightarrow> uint16 \<Rightarrow> uint16 \<Rightarrow> ('z ksys_scheme, nat option) km" where
  "create path type major minor =
     kbind (kget (\<lambda>s. take DIRSIZ (junk s))) (\<lambda>name.
     kbind (nameiparent path name) (\<lambda>(dp, name). case dp of None \<Rightarrow> kret None | Some d \<Rightarrow>
     kthen (ilock dp)
    (kbind (dirlookup d name) (\<lambda>r. case r of
       Some (i, _) \<Rightarrow>
         kthen (iunlockput dp)
        (kthen (ilock (Some i))
        (kbind (inode_get i itype) (\<lambda>ty.
         kif (type = T_FILE \<and> (ty = T_FILE \<or> ty = T_DEVICE)) (kret (Some i))
        (kthen (iunlockput (Some i))
               (kret None)))))
     | None \<Rightarrow>
         kbind (inode_get d idev) (\<lambda>dev.
         kbind (ialloc dev type) (\<lambda>ip. case ip of
           None \<Rightarrow> kthen (iunlockput dp) (kret None)
         | Some i \<Rightarrow> create_new i d name type major minor))))))"

text \<open>The inode that \<open>sys_open\<close> opens, locked, or \<open>None\<close>, in which case the operation has been ended.\<close>

definition open_inode :: "byte list \<Rightarrow> uint32 \<Rightarrow> ('z ksys_scheme, nat option) km" where
  "open_inode path omode =
     kif (omode AND O_CREATE \<noteq> 0)
       (kbind (create path T_FILE 0 0) (\<lambda>ip. case ip of
          None \<Rightarrow> kthen end_op (kret None)
        | Some i \<Rightarrow> kret ip))
       (kbind (namei path) (\<lambda>ip. case ip of
          None \<Rightarrow> kthen end_op (kret None)
        | Some i \<Rightarrow>
            kthen (ilock ip)
           (kbind (inode_get i itype) (\<lambda>ty.
            kif (ty = T_DIR \<and> omode \<noteq> O_RDONLY)
              (kthen (iunlockput ip) (kthen end_op (kret None)))
              (kret ip)))))"

definition open_fail :: "nat \<Rightarrow> ('z ksys_scheme, uint64) km" where
  "open_fail i = kthen (iunlockput (Some i)) (kthen end_op (kret (- 1)))"

definition sys_open :: "('z ksys_scheme, uint64) km" where
  "sys_open =
     kbind (argint 1) (\<lambda>om.
     let omode = of_int om :: uint32 in
     kbind (argstr 0 MAXPATH) (\<lambda>a. case a of None \<Rightarrow> kret (- 1) | Some path \<Rightarrow>
     kthen begin_op
    (kbind (open_inode path omode) (\<lambda>ip. case ip of None \<Rightarrow> kret (- 1) | Some i \<Rightarrow>
     kbind (inode_get i id) (\<lambda>p.
     kif (itype p = T_DEVICE \<and> (sint (imajor p) < 0 \<or> sint (imajor p) \<ge> int NDEV)) (open_fail i)
    (kbind filealloc (\<lambda>fr. case fr of None \<Rightarrow> open_fail i | Some f \<Rightarrow>
     kbind (fdalloc f) (\<lambda>r. case r of None \<Rightarrow> kthen (fileclose f) (open_fail i) | Some fd \<Rightarrow>
     kthen (if itype p = T_DEVICE
            then set_file f (\<lambda>x. x\<lparr>ftype := FD_DEVICE, fmajor := imajor p\<rparr>)
            else set_file f (\<lambda>x. x\<lparr>ftype := FD_INODE, foff := 0\<rparr>))
    (kthen (set_file f (\<lambda>x. x\<lparr>fip := ip\<rparr>))
    (kthen (set_file f (\<lambda>x. x\<lparr>freadable := (omode AND O_WRONLY = 0)\<rparr>))
    (kthen (set_file f (\<lambda>x. x\<lparr>fwritable := (omode AND O_WRONLY \<noteq> 0 \<or> omode AND O_RDWR \<noteq> 0)\<rparr>))
    (kthen (kif (omode AND O_TRUNC \<noteq> 0 \<and> itype p = T_FILE) (itrunc i) (kret ()))
    (kthen (iunlock ip)
    (kthen end_op
           (kret (of_nat fd))))))))))))))))"

definition sys_mkdir :: "('z ksys_scheme, uint64) km" where
  "sys_mkdir =
     kthen begin_op
    (kbind (argstr 0 MAXPATH) (\<lambda>a. case a of None \<Rightarrow> kthen end_op (kret (- 1)) | Some path \<Rightarrow>
     kbind (create path T_DIR 0 0) (\<lambda>ip. case ip of None \<Rightarrow> kthen end_op (kret (- 1)) | Some i \<Rightarrow>
     kthen (iunlockput ip)
    (kthen end_op
           (kret 0)))))"

definition sys_mknod :: "('z ksys_scheme, uint64) km" where
  "sys_mknod =
     kthen begin_op
    (kbind (argint 1) (\<lambda>major.
     kbind (argint 2) (\<lambda>minor.
     kbind (argstr 0 MAXPATH) (\<lambda>a. case a of None \<Rightarrow> kthen end_op (kret (- 1)) | Some path \<Rightarrow>
     kbind (create path T_DEVICE (of_int major) (of_int minor)) (\<lambda>ip. case ip of None \<Rightarrow> kthen end_op (kret (- 1)) | Some i \<Rightarrow>
     kthen (iunlockput ip)
    (kthen end_op
           (kret 0)))))))"

definition sys_chdir :: "('z ksys_scheme, uint64) km" where
  "sys_chdir =
     kbind myproc_deref (\<lambda>p.
     kthen begin_op
    (kbind (argstr 0 MAXPATH) (\<lambda>a. case a of None \<Rightarrow> kthen end_op (kret (- 1)) | Some path \<Rightarrow>
     kbind (namei path) (\<lambda>ip. case ip of None \<Rightarrow> kthen end_op (kret (- 1)) | Some i \<Rightarrow>
     kthen (ilock ip)
    (kbind (inode_get i itype) (\<lambda>ty.
     kif (ty \<noteq> T_DIR)
       (kthen (iunlockput ip) (kthen end_op (kret (- 1))))
    (kthen (iunlock ip)
    (kbind (kget (\<lambda>s. cwd (procs s p))) (\<lambda>d.
     kthen (iput d)
    (kthen end_op
    (kthen (set_proc p (\<lambda>q. q\<lparr>cwd := ip\<rparr>))
           (kret 0))))))))))))"

section \<open>Exec and pipes\<close>

text \<open>
  The loop of \<open>sys_exec\<close> that fetches the arguments. The pages in \<open>argv\<close> come first; the flag says
  whether the loop ended with the null pointer, and not at \<open>bad\<close>.
\<close>

function exec_fetch :: "uint64 \<Rightarrow> nat \<Rightarrow> (addr \<times> byte list) list \<Rightarrow> ('z ksys_scheme, (addr \<times> byte list) list \<times> bool) km" where
  "exec_fetch uargv i argv es s =
     kif (i \<ge> MAXARG) (kret (argv, False))
    (kbind (fetchaddr (uargv + 8 * of_nat i)) (\<lambda>u.
     kif (u = None) (kret (argv, False))
    (kif (u = Some 0) (kret (argv, True))
    (kbind kalloc (\<lambda>page.
     kif (page = 0) (kret (argv, False))
    (kbind (fetchstr (the u) 4096) (\<lambda>rb.
     kthen (kmod (\<lambda>s. s\<lparr>mem := write_bytes (mem s) page (snd rb)\<rparr>))
    (kif (fst rb < 0) (kret (argv @ [(page, [])], False))
         (exec_fetch uargv (Suc i) (argv @ [(page, takeWhile (\<lambda>c. c \<noteq> 0) (snd rb))])))))))))) es s"
  by pat_completeness auto
termination
  by (relation "measure (\<lambda>(uargv, i, argv, es, s). MAXARG - i)") auto

declare exec_fetch.simps [simp del]

definition sys_exec :: "('z ksys_scheme, uint64) km" where
  "sys_exec =
     kbind (argaddr 1) (\<lambda>uargv.
     kbind (argstr 0 MAXPATH) (\<lambda>a. case a of None \<Rightarrow> kret (- 1) | Some path \<Rightarrow>
     kbind (exec_fetch uargv 0 []) (\<lambda>(argv, ok).
     kbind (if ok then kexec path (map snd argv) else kret (- 1)) (\<lambda>ret.
     kthen (kfor (map fst argv) kfree)
           (kret (of_int ret))))))"

definition sys_pipe_bad :: "nat \<Rightarrow> nat \<Rightarrow> ('z ksys_scheme, uint64) km" where
  "sys_pipe_bad rd wr = kthen (fileclose rd) (kthen (fileclose wr) (kret (- 1)))"

definition clear_fd :: "nat \<Rightarrow> nat \<Rightarrow> ('z ksys_scheme, unit) km" where
  "clear_fd p fd = set_proc p (\<lambda>q. q\<lparr>ofile := (ofile q)(fd := None)\<rparr>)"

definition sys_pipe :: "('z ksys_scheme, uint64) km" where
  "sys_pipe =
     kbind myproc_deref (\<lambda>p.
     kbind (argaddr 0) (\<lambda>fdarray.
     kbind pipealloc (\<lambda>pp. case pp of None \<Rightarrow> kret (- 1) | Some (rd, wr) \<Rightarrow>
     kbind (fdalloc rd) (\<lambda>r0. case r0 of None \<Rightarrow> sys_pipe_bad rd wr | Some fd0 \<Rightarrow>
     kbind (fdalloc wr) (\<lambda>r1. case r1 of None \<Rightarrow> kthen (clear_fd p fd0) (sys_pipe_bad rd wr) | Some fd1 \<Rightarrow>
     kbind (kget (\<lambda>s. pagetable (procs s p))) (\<lambda>pt.
     kbind (copyout pt fdarray (bytes_le 4 fd0)) (\<lambda>c0.
     kbind (kif (c0 < 0) (kret c0) (copyout pt (fdarray + 4) (bytes_le 4 fd1))) (\<lambda>c1.
     kif (c1 < 0)
       (kthen (clear_fd p fd0)
       (kthen (clear_fd p fd1)
              (sys_pipe_bad rd wr)))
       (kret 0)))))))))"

section \<open>Dispatch\<close>

text \<open>The table \<open>syscalls[]\<close>, by the numbers of \<open>kernel/syscall.h\<close>.\<close>

definition syscalls :: "int \<Rightarrow> ('z ksys_scheme, uint64) km option" where
  "syscalls num =
     (if num = 1 then Some sys_fork else if num = 2 then Some sys_exit else if num = 3 then Some sys_wait
      else if num = 4 then Some sys_pipe else if num = 5 then Some sys_read else if num = 6 then Some sys_kill
      else if num = 7 then Some sys_exec else if num = 8 then Some sys_fstat else if num = 9 then Some sys_chdir
      else if num = 10 then Some sys_dup else if num = 11 then Some sys_getpid else if num = 12 then Some sys_sbrk
      else if num = 13 then Some sys_pause else if num = 14 then Some sys_uptime else if num = 15 then Some sys_open
      else if num = 16 then Some sys_write else if num = 17 then Some sys_mknod else if num = 18 then Some sys_unlink
      else if num = 19 then Some sys_link else if num = 20 then Some sys_mkdir else if num = 21 then Some sys_close
      else None)"

definition syscall :: "('z ksys_scheme, unit) km" where
  "syscall =
     kbind myproc_deref (\<lambda>p.
     kbind (tf_get p (TF_A 7)) (\<lambda>v.
     let num = sint (ucast v :: uint32) in
     case syscalls num of
       Some f \<Rightarrow> kbind f (\<lambda>r. tf_set p (TF_A 0) r)
     | None \<Rightarrow>
         kbind (kget (\<lambda>s. procs s p)) (\<lambda>q.
         kthen (kprintf (''%d '' @ name_string (pname q) @ '': unknown sys call %d\<newline>'') [sint (pid q), num])
               (tf_set p (TF_A 0) (- 1)))))"

end
