(* ===== verification/Xv6_Virtio.thy ===== *)
theory Xv6_Virtio
  imports Xv6_Sysfile
begin

text \<open>
  The disk driver (\<open>kernel/virtio_disk.c\<close>, \<open>kernel/virtio.h\<close>). The three pages that the driver
  shares with the device are records: descriptors, the available ring and the used ring. The
  address in a descriptor says which object of the driver it points to. The device is not part of
  the model: it changes the used ring, the status bytes, the data of buffers and the disk while
  the driver waits; what it answers when a register is read is \<open>vreg_in\<close>, and \<open>vreg_out\<close> are the
  register writes of the driver, in order.
\<close>

definition VNUM :: nat where "VNUM = 8"
definition VRING_DESC_F_NEXT :: uint16 where "VRING_DESC_F_NEXT = 1"
definition VRING_DESC_F_WRITE :: uint16 where "VRING_DESC_F_WRITE = 2"
definition VIRTIO_BLK_T_IN :: uint32 where "VIRTIO_BLK_T_IN = 0"
definition VIRTIO_BLK_T_OUT :: uint32 where "VIRTIO_BLK_T_OUT = 1"

text \<open>The objects descriptors point to: a request header, the data of a buffer, a status byte.\<close>

datatype dma = DmaNull | DmaOps nat | DmaData nat | DmaStatus nat

record virtq_desc =
  vd_addr :: dma
  vd_len :: uint32
  vd_flags :: uint16
  vd_next :: uint16

record virtio_blk_req =
  vr_type :: uint32
  vr_reserved :: uint32
  vr_sector :: uint64

record vdisk =
  vdesc :: "nat \<Rightarrow> virtq_desc"
  avail_idx :: uint16
  avail_ring :: "nat \<Rightarrow> uint16"
  used_idx :: uint16
  used_ring :: "nat \<Rightarrow> uint32"
  vfree :: "nat \<Rightarrow> bool"
  seen_idx :: uint16
  vinfo_b :: "nat \<Rightarrow> nat option"
  vinfo_status :: "nat \<Rightarrow> byte"
  vops :: "nat \<Rightarrow> virtio_blk_req"

record kvirt = ksys +
  vdisk :: vdisk
  vqueue :: "addr \<times> addr \<times> addr"
  vreg_in :: "nat \<Rightarrow> uint32"
  vreg_out :: "(nat \<times> uint32) list"

definition set_vdisk :: "(vdisk \<Rightarrow> vdisk) \<Rightarrow> ('z kvirt_scheme, unit) km" where
  "set_vdisk f = kmod (\<lambda>s. s\<lparr>vdisk := f (vdisk s)\<rparr>)"

definition set_desc :: "nat \<Rightarrow> (virtq_desc \<Rightarrow> virtq_desc) \<Rightarrow> ('z kvirt_scheme, unit) km" where
  "set_desc i f = set_vdisk (\<lambda>d. d\<lparr>vdesc := (vdesc d)(i := f (vdesc d i))\<rparr>)"

definition vread :: "nat \<Rightarrow> ('z kvirt_scheme, uint32) km" where
  "vread r = kget (\<lambda>s. vreg_in s r)"

definition vwrite :: "nat \<Rightarrow> uint32 \<Rightarrow> ('z kvirt_scheme, unit) km" where
  "vwrite r v = kmod (\<lambda>s. s\<lparr>vreg_out := vreg_out s @ [(r, v)]\<rparr>)"

lemma virtio_ops_Ok [simp]:
  "set_vdisk f es s = Ok () (s\<lparr>vdisk := f (vdisk s)\<rparr>) es"
  "set_desc i g es s = Ok () (s\<lparr>vdisk := (vdisk s)\<lparr>vdesc := (vdesc (vdisk s))(i := g (vdesc (vdisk s) i))\<rparr>\<rparr>) es"
  "vread r es s = Ok (vreg_in s r) s es"
  "vwrite r v es s = Ok () (s\<lparr>vreg_out := vreg_out s @ [(r, v)]\<rparr>) es"
  by (simp_all add: set_vdisk_def set_desc_def vread_def vwrite_def)

section \<open>Initialisation\<close>

text \<open>The feature bits the driver turns down.\<close>

definition reject_features :: "uint32 \<Rightarrow> uint32" where
  "reject_features f = fold (\<lambda>b f. f AND NOT (push_bit b 1)) [5, 7, 11, 12, 27, 29, 28] f"

definition virtio_pages :: "('z kvirt_scheme, unit) km" where
  "virtio_pages =
     kbind kalloc (\<lambda>desc.
     kbind kalloc (\<lambda>avail.
     kbind kalloc (\<lambda>used.
     kthen (kmod (\<lambda>s. s\<lparr>vqueue := (desc, avail, used)\<rparr>))
    (kthen (kpanic_if (\<lambda>_. desc = 0 \<or> avail = 0 \<or> used = 0) ''virtio disk kalloc'')
    (kthen (kmod (\<lambda>s. s\<lparr>mem := memset (memset (memset (mem s) desc 0 4096) avail 0 4096) used 0 4096\<rparr>))
           (set_vdisk (\<lambda>d. d\<lparr>vdesc := \<lambda>_. \<lparr>vd_addr = DmaNull, vd_len = 0, vd_flags = 0, vd_next = 0\<rparr>,
              avail_idx := 0, avail_ring := \<lambda>_. 0, used_idx := 0, used_ring := \<lambda>_. 0\<rparr>)))))))"

definition virtio_disk_init :: "('z kvirt_scheme, unit) km" where
  "virtio_disk_init =
     kthen (klock_init VdiskLock)
    (kbind (vread 0x000) (\<lambda>magic. kbind (vread 0x004) (\<lambda>version. kbind (vread 0x008) (\<lambda>device. kbind (vread 0x00c) (\<lambda>vendor.
     kthen (kpanic_if (\<lambda>_. magic \<noteq> 0x74726976 \<or> version \<noteq> 2 \<or> device \<noteq> 2 \<or> vendor \<noteq> 0x554d4551) ''could not find virtio disk'')
    (kthen (vwrite 0x070 0)
    (kthen (vwrite 0x070 1)
    (kthen (vwrite 0x070 (1 OR 2))
    (kbind (vread 0x010) (\<lambda>features.
     kthen (vwrite 0x020 (reject_features features))
    (kthen (vwrite 0x070 (1 OR 2 OR 8))
    (kbind (vread 0x070) (\<lambda>status.
     kthen (kpanic_if (\<lambda>_. status AND 8 = 0) ''virtio disk FEATURES_OK unset'')
    (kthen (vwrite 0x030 0)
    (kbind (vread 0x044) (\<lambda>ready.
     kthen (kpanic_if (\<lambda>_. ready \<noteq> 0) ''virtio disk should not be ready'')
    (kbind (vread 0x034) (\<lambda>mx.
     kthen (kpanic_if (\<lambda>_. mx = 0) ''virtio disk has no queue 0'')
    (kthen (kpanic_if (\<lambda>_. mx < of_nat VNUM) ''virtio disk max queue too short'')
    (kthen virtio_pages
    (kthen (vwrite 0x038 (of_nat VNUM))
    (kbind (kget vqueue) (\<lambda>(desc, avail, used).
     kthen (vwrite 0x080 (ucast desc))
    (kthen (vwrite 0x084 (ucast (drop_bit 32 desc)))
    (kthen (vwrite 0x090 (ucast avail))
    (kthen (vwrite 0x094 (ucast (drop_bit 32 avail)))
    (kthen (vwrite 0x0a0 (ucast used))
    (kthen (vwrite 0x0a4 (ucast (drop_bit 32 used)))
    (kthen (vwrite 0x044 1)
    (kthen (set_vdisk (\<lambda>d. d\<lparr>vfree := \<lambda>i. if i < VNUM then True else vfree d i\<rparr>))
           (vwrite 0x070 (status OR 4))))))))))))))))))))))))))))))))"

section \<open>Descriptors\<close>

fun alloc_desc_from :: "nat list \<Rightarrow> ('z kvirt_scheme, nat option) km" where
  "alloc_desc_from [] = kret None"
| "alloc_desc_from (i # is) =
     kbind (kget (\<lambda>s. vfree (vdisk s) i)) (\<lambda>free.
     kif free
       (kthen (set_vdisk (\<lambda>d. d\<lparr>vfree := (vfree d)(i := False)\<rparr>)) (kret (Some i)))
       (alloc_desc_from is))"

definition alloc_desc :: "('z kvirt_scheme, nat option) km" where
  "alloc_desc = alloc_desc_from [0..<VNUM]"

definition free_desc :: "nat \<Rightarrow> ('z kvirt_scheme, unit) km" where
  "free_desc i =
     kthen (kpanic_if (\<lambda>_. i \<ge> VNUM) ''free_desc 1'')
    (kthen (kpanic_if (\<lambda>s. vfree (vdisk s) i) ''free_desc 2'')
    (kthen (set_desc i (\<lambda>d. \<lparr>vd_addr = DmaNull, vd_len = 0, vd_flags = 0, vd_next = 0\<rparr>))
    (kthen (set_vdisk (\<lambda>d. d\<lparr>vfree := (vfree d)(i := True)\<rparr>))
           (wakeup ChDiskFree))))"

text \<open>
  \<open>free_chain\<close>. Every round frees a descriptor, and \<open>free_desc\<close> panics on one that is free
  already, so that more than \<open>VNUM\<close> rounds are not possible.
\<close>

primrec free_chain_fuel :: "nat \<Rightarrow> nat \<Rightarrow> ('z kvirt_scheme, unit) km" where
  "free_chain_fuel 0 i = kstuck"
| "free_chain_fuel (Suc fuel) i =
     kbind (kget (\<lambda>s. vdesc (vdisk s) i)) (\<lambda>d.
     kthen (free_desc i)
    (kif (vd_flags d AND VRING_DESC_F_NEXT \<noteq> 0)
       (free_chain_fuel fuel (unat (vd_next d)))
       (kret ())))"

definition free_chain :: "nat \<Rightarrow> ('z kvirt_scheme, unit) km" where
  "free_chain i = free_chain_fuel (Suc VNUM) i"

text \<open>\<open>alloc3_desc\<close>: three descriptors, or none.\<close>

definition alloc3_desc :: "('z kvirt_scheme, (nat \<times> nat \<times> nat) option) km" where
  "alloc3_desc =
     kbind alloc_desc (\<lambda>a. case a of None \<Rightarrow> kret None | Some i0 \<Rightarrow>
     kbind alloc_desc (\<lambda>b. case b of None \<Rightarrow> kthen (free_desc i0) (kret None) | Some i1 \<Rightarrow>
     kbind alloc_desc (\<lambda>c. case c of
       None \<Rightarrow> kthen (free_desc i0) (kthen (free_desc i1) (kret None))
     | Some i2 \<Rightarrow> kret (Some (i0, i1, i2)))))"

lemma nosleep_virtio [nosleep_rule]: "nosleep (set_vdisk f)" "nosleep (set_desc i g)" "nosleep (vread r)" "nosleep (vwrite r v)"
  unfolding set_desc_def set_vdisk_def vread_def vwrite_def by (intro nosleep_rule)+

lemma nosleep_alloc_desc_from [nosleep_rule]: "nosleep (alloc_desc_from is)"
proof (induction "is")
  case Nil
  show ?case unfolding alloc_desc_from.simps by (intro nosleep_rule)
next
  case (Cons i js)
  show ?case unfolding alloc_desc_from.simps by (intro nosleep_rule Cons)
qed

lemma nosleep_alloc3_desc [nosleep_rule]: "nosleep alloc_desc" "nosleep (free_desc i)" "nosleep alloc3_desc"
  unfolding alloc3_desc_def alloc_desc_def free_desc_def by (intro nosleep_rule)+

section \<open>Requests\<close>

function rw_alloc :: "('z kvirt_scheme, nat \<times> nat \<times> nat) km" where
  "rw_alloc es s =
     kbind alloc3_desc (\<lambda>r.
     kif (r \<noteq> None) (kret (the r))
    (kthen (sleep ChDiskFree VdiskLock)
           rw_alloc)) es s"
  by pat_completeness auto
termination
  by (relation "measure (\<lambda>(es, s). length es)") (auto dest!: sleep_Ok_length nosleepD [OF nosleep_alloc3_desc(3)])

declare rw_alloc.simps [simp del]

text \<open>Formatting the three descriptors of a request on buffer \<open>b\<close>.\<close>

definition rw_format :: "nat \<Rightarrow> bool \<Rightarrow> uint64 \<Rightarrow> nat \<Rightarrow> nat \<Rightarrow> nat \<Rightarrow> ('z kvirt_scheme, unit) km" where
  "rw_format b write sector i0 i1 i2 =
     kthen (set_vdisk (\<lambda>d. d\<lparr>vops := (vops d)(i0 := \<lparr>vr_type = (if write then VIRTIO_BLK_T_OUT else VIRTIO_BLK_T_IN),
        vr_reserved = 0, vr_sector = sector\<rparr>)\<rparr>))
    (kthen (set_desc i0 (\<lambda>_. \<lparr>vd_addr = DmaOps i0, vd_len = 16, vd_flags = VRING_DESC_F_NEXT, vd_next = of_nat i1\<rparr>))
    (kthen (set_desc i1 (\<lambda>_. \<lparr>vd_addr = DmaData b, vd_len = of_nat BSIZE,
        vd_flags = (if write then 0 else VRING_DESC_F_WRITE) OR VRING_DESC_F_NEXT, vd_next = of_nat i2\<rparr>))
    (kthen (set_vdisk (\<lambda>d. d\<lparr>vinfo_status := (vinfo_status d)(i0 := 0xff)\<rparr>))
           (set_desc i2 (\<lambda>_. \<lparr>vd_addr = DmaStatus i0, vd_len = 1, vd_flags = VRING_DESC_F_WRITE, vd_next = 0\<rparr>)))))"

function rw_wait :: "nat \<Rightarrow> ('z kvirt_scheme, unit) km" where
  "rw_wait b es s =
     kbind (buf_get b bdisk) (\<lambda>busy.
     kif busy (kthen (sleep (ChBuf b) VdiskLock) (rw_wait b)) (kret ())) es s"
  by pat_completeness auto
termination
  by (relation "measure (\<lambda>(b, es, s). length es)") (auto dest!: sleep_Ok_length)

declare rw_wait.simps [simp del]

definition virtio_disk_rw :: "nat \<Rightarrow> bool \<Rightarrow> ('z kvirt_scheme, unit) km" where
  "virtio_disk_rw b write =
     kbind (buf_get b blockno) (\<lambda>bno.
     kthen (acquire VdiskLock)
    (kbind rw_alloc (\<lambda>(i0, i1, i2).
     kthen (rw_format b write (ucast (bno * of_nat (BSIZE div 512))) i0 i1 i2)
    (kthen (set_buf b (\<lambda>q. q\<lparr>bdisk := True\<rparr>))
    (kthen (set_vdisk (\<lambda>d. d\<lparr>vinfo_b := (vinfo_b d)(i0 := Some b)\<rparr>))
    (kthen (set_vdisk (\<lambda>d. d\<lparr>avail_ring := (avail_ring d)(unat (avail_idx d) mod VNUM := of_nat i0)\<rparr>))
    (kthen (set_vdisk (\<lambda>d. d\<lparr>avail_idx := avail_idx d + 1\<rparr>))
    (kthen (vwrite 0x050 0)
    (kthen (rw_wait b)
    (kthen (set_vdisk (\<lambda>d. d\<lparr>vinfo_b := (vinfo_b d)(i0 := None)\<rparr>))
    (kthen (free_chain i0)
           (release VdiskLock))))))))))))"

text \<open>
  The loop of \<open>virtio_disk_intr\<close> over the used ring, up to the index \<open>u\<close> that the device has
  reached. A null \<open>info[id].b\<close> would be dereferenced.
\<close>

function intr_loop :: "uint16 \<Rightarrow> uint16 \<Rightarrow> ('z kvirt_scheme, unit) km" where
  "intr_loop seen u es s =
     kif (seen \<noteq> u)
       (kbind (kget (\<lambda>s. unat (used_ring (vdisk s) (unat seen mod VNUM)))) (\<lambda>i.
        kthen (kpanic_if (\<lambda>s. vinfo_status (vdisk s) i \<noteq> 0) ''virtio_disk_intr status'')
       (kbind (kget (\<lambda>s. vinfo_b (vdisk s) i)) (\<lambda>b.
        kif (b = None) (kpanic ''kerneltrap'')
       (kthen (set_buf (the b) (\<lambda>q. q\<lparr>bdisk := False\<rparr>))
       (kthen (wakeup (ChBuf (the b)))
       (kthen (set_vdisk (\<lambda>d. d\<lparr>seen_idx := seen + 1\<rparr>))
              (intr_loop (seen + 1) u))))))))
       (kret ()) es s"
  by pat_completeness auto
termination
proof (relation "measure (\<lambda>(seen, u, es, s). unat (u - seen))", goal_cases)
  case (2 seen u)
  then have "u - seen \<noteq> 0" by simp
  then have "unat (u - seen - 1) < unat (u - seen)" by (simp add: unat_minus_one unat_gt_0)
  then show ?case by (simp add: algebra_simps)
qed simp

declare intr_loop.simps [simp del]

definition virtio_disk_intr :: "('z kvirt_scheme, unit) km" where
  "virtio_disk_intr =
     kthen (acquire VdiskLock)
    (kbind (vread 0x060) (\<lambda>st.
     kthen (vwrite 0x064 (st AND 3))
    (kbind (kget vdisk) (\<lambda>d.
     kthen (intr_loop (seen_idx d) (used_idx d))
           (release VdiskLock)))))"

end
