(* ===== verification/Xv6_Trap.thy ===== *)
theory Xv6_Trap
  imports Xv6_Virtio
begin

text \<open>
  Traps, interrupts and booting: \<open>kernel/trap.c\<close>, \<open>kernel/plic.c\<close>, \<open>kernel/start.c\<close>, \<open>kernel/main.c\<close>,
  the accessors of \<open>kernel/riscv.h\<close>, and \<open>forkret\<close> of \<open>kernel/proc.c\<close>. The control and status
  registers of the hart, and the general registers that the accessors read, are a function of
  their names. \<open>plic_pending\<close> are the interrupts the interrupt controller will hand out, and
  \<open>plic_reg\<close> the controller's registers as last written. The addresses of code that the assembler
  and the linker provide are fields of the state.
\<close>

datatype csr =
    Mhartid | Mstatus | Mepc | Sstatus | Sip | Sie | Mie | Sepc | Medeleg | Mideleg | Stvec | Stimecmp | Menvcfg | Pmpcfg0 | Pmpaddr0
  | Satp | Scause | Stval | Mcounteren | Time | Sp | Fp | Tp | Ra

record ktrap = kvirt +
  csr :: "csr \<Rightarrow> uint64"
  plic_pending :: "uint32 list"
  plic_reg :: "addr \<Rightarrow> uint32"
  kernelvec_addr :: uint64
  uservec_addr :: uint64
  userret_addr :: uint64
  usertrap_addr :: uint64
  main_addr :: uint64
  first :: bool
  started :: bool

section \<open>Registers\<close>

definition r_mhartid :: "('z ktrap_scheme, uint64) km" where "r_mhartid = kget (\<lambda>s. csr s Mhartid)"
definition r_mstatus :: "('z ktrap_scheme, uint64) km" where "r_mstatus = kget (\<lambda>s. csr s Mstatus)"
definition w_mstatus :: "uint64 \<Rightarrow> ('z ktrap_scheme, unit) km" where "w_mstatus x = kmod (\<lambda>s. s\<lparr>csr := (csr s)(Mstatus := x)\<rparr>)"
definition w_mepc :: "uint64 \<Rightarrow> ('z ktrap_scheme, unit) km" where "w_mepc x = kmod (\<lambda>s. s\<lparr>csr := (csr s)(Mepc := x)\<rparr>)"
definition r_sstatus :: "('z ktrap_scheme, uint64) km" where "r_sstatus = kget (\<lambda>s. csr s Sstatus)"
definition w_sstatus :: "uint64 \<Rightarrow> ('z ktrap_scheme, unit) km" where "w_sstatus x = kmod (\<lambda>s. s\<lparr>csr := (csr s)(Sstatus := x)\<rparr>)"
definition r_sip :: "('z ktrap_scheme, uint64) km" where "r_sip = kget (\<lambda>s. csr s Sip)"
definition w_sip :: "uint64 \<Rightarrow> ('z ktrap_scheme, unit) km" where "w_sip x = kmod (\<lambda>s. s\<lparr>csr := (csr s)(Sip := x)\<rparr>)"
definition r_sie :: "('z ktrap_scheme, uint64) km" where "r_sie = kget (\<lambda>s. csr s Sie)"
definition w_sie :: "uint64 \<Rightarrow> ('z ktrap_scheme, unit) km" where "w_sie x = kmod (\<lambda>s. s\<lparr>csr := (csr s)(Sie := x)\<rparr>)"
definition r_mie :: "('z ktrap_scheme, uint64) km" where "r_mie = kget (\<lambda>s. csr s Mie)"
definition w_mie :: "uint64 \<Rightarrow> ('z ktrap_scheme, unit) km" where "w_mie x = kmod (\<lambda>s. s\<lparr>csr := (csr s)(Mie := x)\<rparr>)"
definition w_sepc :: "uint64 \<Rightarrow> ('z ktrap_scheme, unit) km" where "w_sepc x = kmod (\<lambda>s. s\<lparr>csr := (csr s)(Sepc := x)\<rparr>)"
definition r_sepc :: "('z ktrap_scheme, uint64) km" where "r_sepc = kget (\<lambda>s. csr s Sepc)"
definition r_medeleg :: "('z ktrap_scheme, uint64) km" where "r_medeleg = kget (\<lambda>s. csr s Medeleg)"
definition w_medeleg :: "uint64 \<Rightarrow> ('z ktrap_scheme, unit) km" where "w_medeleg x = kmod (\<lambda>s. s\<lparr>csr := (csr s)(Medeleg := x)\<rparr>)"
definition r_mideleg :: "('z ktrap_scheme, uint64) km" where "r_mideleg = kget (\<lambda>s. csr s Mideleg)"
definition w_mideleg :: "uint64 \<Rightarrow> ('z ktrap_scheme, unit) km" where "w_mideleg x = kmod (\<lambda>s. s\<lparr>csr := (csr s)(Mideleg := x)\<rparr>)"
definition w_stvec :: "uint64 \<Rightarrow> ('z ktrap_scheme, unit) km" where "w_stvec x = kmod (\<lambda>s. s\<lparr>csr := (csr s)(Stvec := x)\<rparr>)"
definition r_stvec :: "('z ktrap_scheme, uint64) km" where "r_stvec = kget (\<lambda>s. csr s Stvec)"
definition r_stimecmp :: "('z ktrap_scheme, uint64) km" where "r_stimecmp = kget (\<lambda>s. csr s Stimecmp)"
definition w_stimecmp :: "uint64 \<Rightarrow> ('z ktrap_scheme, unit) km" where "w_stimecmp x = kmod (\<lambda>s. s\<lparr>csr := (csr s)(Stimecmp := x)\<rparr>)"
definition r_menvcfg :: "('z ktrap_scheme, uint64) km" where "r_menvcfg = kget (\<lambda>s. csr s Menvcfg)"
definition w_menvcfg :: "uint64 \<Rightarrow> ('z ktrap_scheme, unit) km" where "w_menvcfg x = kmod (\<lambda>s. s\<lparr>csr := (csr s)(Menvcfg := x)\<rparr>)"
definition w_pmpcfg0 :: "uint64 \<Rightarrow> ('z ktrap_scheme, unit) km" where "w_pmpcfg0 x = kmod (\<lambda>s. s\<lparr>csr := (csr s)(Pmpcfg0 := x)\<rparr>)"
definition w_pmpaddr0 :: "uint64 \<Rightarrow> ('z ktrap_scheme, unit) km" where "w_pmpaddr0 x = kmod (\<lambda>s. s\<lparr>csr := (csr s)(Pmpaddr0 := x)\<rparr>)"
definition w_satp :: "uint64 \<Rightarrow> ('z ktrap_scheme, unit) km" where "w_satp x = kmod (\<lambda>s. s\<lparr>csr := (csr s)(Satp := x)\<rparr>)"
definition r_satp :: "('z ktrap_scheme, uint64) km" where "r_satp = kget (\<lambda>s. csr s Satp)"
definition r_scause :: "('z ktrap_scheme, uint64) km" where "r_scause = kget (\<lambda>s. csr s Scause)"
definition r_stval :: "('z ktrap_scheme, uint64) km" where "r_stval = kget (\<lambda>s. csr s Stval)"
definition w_mcounteren :: "uint64 \<Rightarrow> ('z ktrap_scheme, unit) km" where "w_mcounteren x = kmod (\<lambda>s. s\<lparr>csr := (csr s)(Mcounteren := x)\<rparr>)"
definition r_mcounteren :: "('z ktrap_scheme, uint64) km" where "r_mcounteren = kget (\<lambda>s. csr s Mcounteren)"
definition r_time :: "('z ktrap_scheme, uint64) km" where "r_time = kget (\<lambda>s. csr s Time)"
definition r_sp :: "('z ktrap_scheme, uint64) km" where "r_sp = kget (\<lambda>s. csr s Sp)"
definition r_fp :: "('z ktrap_scheme, uint64) km" where "r_fp = kget (\<lambda>s. csr s Fp)"
definition r_tp :: "('z ktrap_scheme, uint64) km" where "r_tp = kget (\<lambda>s. csr s Tp)"
definition w_tp :: "uint64 \<Rightarrow> ('z ktrap_scheme, unit) km" where "w_tp x = kmod (\<lambda>s. s\<lparr>csr := (csr s)(Tp := x)\<rparr>)"
definition r_ra :: "('z ktrap_scheme, uint64) km" where "r_ra = kget (\<lambda>s. csr s Ra)"

lemma csr_Ok [simp]:
  "r_mhartid es s = Ok (csr s Mhartid) s es"
  "r_mstatus es s = Ok (csr s Mstatus) s es"
  "w_mstatus x es s = Ok () (s\<lparr>csr := (csr s)(Mstatus := x)\<rparr>) es"
  "w_mepc x es s = Ok () (s\<lparr>csr := (csr s)(Mepc := x)\<rparr>) es"
  "r_sstatus es s = Ok (csr s Sstatus) s es"
  "w_sstatus x es s = Ok () (s\<lparr>csr := (csr s)(Sstatus := x)\<rparr>) es"
  "r_sip es s = Ok (csr s Sip) s es"
  "w_sip x es s = Ok () (s\<lparr>csr := (csr s)(Sip := x)\<rparr>) es"
  "r_sie es s = Ok (csr s Sie) s es"
  "w_sie x es s = Ok () (s\<lparr>csr := (csr s)(Sie := x)\<rparr>) es"
  "r_mie es s = Ok (csr s Mie) s es"
  "w_mie x es s = Ok () (s\<lparr>csr := (csr s)(Mie := x)\<rparr>) es"
  "w_sepc x es s = Ok () (s\<lparr>csr := (csr s)(Sepc := x)\<rparr>) es"
  "r_sepc es s = Ok (csr s Sepc) s es"
  "r_medeleg es s = Ok (csr s Medeleg) s es"
  "w_medeleg x es s = Ok () (s\<lparr>csr := (csr s)(Medeleg := x)\<rparr>) es"
  "r_mideleg es s = Ok (csr s Mideleg) s es"
  "w_mideleg x es s = Ok () (s\<lparr>csr := (csr s)(Mideleg := x)\<rparr>) es"
  "w_stvec x es s = Ok () (s\<lparr>csr := (csr s)(Stvec := x)\<rparr>) es"
  "r_stvec es s = Ok (csr s Stvec) s es"
  "r_stimecmp es s = Ok (csr s Stimecmp) s es"
  "w_stimecmp x es s = Ok () (s\<lparr>csr := (csr s)(Stimecmp := x)\<rparr>) es"
  "r_menvcfg es s = Ok (csr s Menvcfg) s es"
  "w_menvcfg x es s = Ok () (s\<lparr>csr := (csr s)(Menvcfg := x)\<rparr>) es"
  "w_pmpcfg0 x es s = Ok () (s\<lparr>csr := (csr s)(Pmpcfg0 := x)\<rparr>) es"
  "w_pmpaddr0 x es s = Ok () (s\<lparr>csr := (csr s)(Pmpaddr0 := x)\<rparr>) es"
  "w_satp x es s = Ok () (s\<lparr>csr := (csr s)(Satp := x)\<rparr>) es"
  "r_satp es s = Ok (csr s Satp) s es"
  "r_scause es s = Ok (csr s Scause) s es"
  "r_stval es s = Ok (csr s Stval) s es"
  "w_mcounteren x es s = Ok () (s\<lparr>csr := (csr s)(Mcounteren := x)\<rparr>) es"
  "r_mcounteren es s = Ok (csr s Mcounteren) s es"
  "r_time es s = Ok (csr s Time) s es"
  "r_sp es s = Ok (csr s Sp) s es"
  "r_fp es s = Ok (csr s Fp) s es"
  "r_tp es s = Ok (csr s Tp) s es"
  "w_tp x es s = Ok () (s\<lparr>csr := (csr s)(Tp := x)\<rparr>) es"
  "r_ra es s = Ok (csr s Ra) s es"
  by (simp_all add: r_mhartid_def r_mstatus_def w_mstatus_def w_mepc_def r_sstatus_def w_sstatus_def r_sip_def w_sip_def r_sie_def w_sie_def r_mie_def w_mie_def w_sepc_def r_sepc_def r_medeleg_def w_medeleg_def r_mideleg_def w_mideleg_def w_stvec_def r_stvec_def r_stimecmp_def w_stimecmp_def r_menvcfg_def w_menvcfg_def w_pmpcfg0_def w_pmpaddr0_def w_satp_def r_satp_def r_scause_def r_stval_def w_mcounteren_def r_mcounteren_def r_time_def r_sp_def r_fp_def r_tp_def w_tp_def r_ra_def)

definition MSTATUS_MPP_MASK :: uint64 where "MSTATUS_MPP_MASK = push_bit 11 3"
definition MSTATUS_MPP_S :: uint64 where "MSTATUS_MPP_S = push_bit 11 1"
definition SSTATUS_SPP :: uint64 where "SSTATUS_SPP = push_bit 8 1"
definition SSTATUS_SPIE :: uint64 where "SSTATUS_SPIE = push_bit 5 1"
definition SSTATUS_SIE :: uint64 where "SSTATUS_SIE = push_bit 1 1"
definition SIE_SEIE :: uint64 where "SIE_SEIE = push_bit 9 1"
definition SIE_STIE :: uint64 where "SIE_STIE = push_bit 5 1"
definition MIE_STIE :: uint64 where "MIE_STIE = push_bit 5 1"
definition SATP_SV39 :: uint64 where "SATP_SV39 = push_bit 60 8"

definition MAKE_SATP :: "addr \<Rightarrow> uint64" where
  "MAKE_SATP pt = SATP_SV39 OR drop_bit 12 pt"

definition hart_intr_on :: "('z ktrap_scheme, unit) km" where
  "hart_intr_on = kbind r_sstatus (\<lambda>x. w_sstatus (x OR SSTATUS_SIE))"

definition hart_intr_off :: "('z ktrap_scheme, unit) km" where
  "hart_intr_off = kbind r_sstatus (\<lambda>x. w_sstatus (x AND NOT SSTATUS_SIE))"

definition hart_intr_get :: "('z ktrap_scheme, bool) km" where
  "hart_intr_get = kbind r_sstatus (\<lambda>x. kret (x AND SSTATUS_SIE \<noteq> 0))"

text \<open>\<open>cpuid\<close> of \<open>kernel/proc.c\<close>.\<close>

definition cpuid :: "('z ktrap_scheme, int) km" where
  "cpuid = kbind r_tp (\<lambda>i. kret (sint (ucast i :: uint32)))"

text \<open>The TLB is not modelled: \<open>sfence_vma\<close> makes the page table that is in memory the one in use.\<close>

definition kvminithart :: "('z ktrap_scheme, unit) km" where
  "kvminithart = kbind (kget kernel_pagetable) (\<lambda>pt. w_satp (MAKE_SATP pt))"

section \<open>The interrupt controller\<close>

definition UART0_IRQ :: uint32 where "UART0_IRQ = 10"
definition VIRTIO0_IRQ :: uint32 where "VIRTIO0_IRQ = 1"

definition PLIC_SENABLE :: "int \<Rightarrow> addr" where "PLIC_SENABLE hart = PLIC + 0x2080 + of_int hart * 0x100"
definition PLIC_SPRIORITY :: "int \<Rightarrow> addr" where "PLIC_SPRIORITY hart = PLIC + 0x201000 + of_int hart * 0x2000"
definition PLIC_SCLAIM :: "int \<Rightarrow> addr" where "PLIC_SCLAIM hart = PLIC + 0x201004 + of_int hart * 0x2000"

definition plic_write :: "addr \<Rightarrow> uint32 \<Rightarrow> ('z ktrap_scheme, unit) km" where
  "plic_write a v = kmod (\<lambda>s. s\<lparr>plic_reg := (plic_reg s)(a := v)\<rparr>)"

definition plicinit :: "('z ktrap_scheme, unit) km" where
  "plicinit =
     kthen (plic_write (PLIC + ucast UART0_IRQ * 4) 1)
           (plic_write (PLIC + ucast VIRTIO0_IRQ * 4) 1)"

definition plicinithart :: "('z ktrap_scheme, unit) km" where
  "plicinithart =
     kbind cpuid (\<lambda>hart.
     kthen (plic_write (PLIC_SENABLE hart) (push_bit (unat UART0_IRQ) 1 OR push_bit (unat VIRTIO0_IRQ) 1))
           (plic_write (PLIC_SPRIORITY hart) 0))"

text \<open>Reading the claim register takes the next pending interrupt; 0 says that there is none.\<close>

definition plic_claim :: "('z ktrap_scheme, uint32) km" where
  "plic_claim =
     kbind cpuid (\<lambda>hart.
     kbind (kget (\<lambda>s. case plic_pending s of [] \<Rightarrow> 0 | i # _ \<Rightarrow> i)) (\<lambda>irq.
     kthen (kmod (\<lambda>s. s\<lparr>plic_pending := tl (plic_pending s)\<rparr>))
           (kret irq)))"

definition plic_complete :: "uint32 \<Rightarrow> ('z ktrap_scheme, unit) km" where
  "plic_complete irq = kbind cpuid (\<lambda>hart. plic_write (PLIC_SCLAIM hart) irq)"

section \<open>Traps\<close>

definition trapinit :: "('z ktrap_scheme, unit) km" where
  "trapinit = klock_init TicksLock"

definition trapinithart :: "('z ktrap_scheme, unit) km" where
  "trapinithart = kbind (kget kernelvec_addr) w_stvec"

definition clockintr :: "('z ktrap_scheme, unit) km" where
  "clockintr =
     kbind cpuid (\<lambda>hart.
     kthen (kif (hart = 0)
              (kthen (acquire TicksLock)
              (kthen (kmod (\<lambda>s. s\<lparr>ticks := ticks s + 1\<rparr>))
              (kthen (wakeup ChTicks)
                     (release TicksLock))))
              (kret ()))
    (kbind r_time (\<lambda>t.
     w_stimecmp (t + 1000000))))"

definition devintr :: "('z ktrap_scheme, nat) km" where
  "devintr =
     kbind r_scause (\<lambda>scause.
     if scause = 0x8000000000000009
     then kbind plic_claim (\<lambda>irq.
          kthen (if irq = UART0_IRQ then uartintr
                 else if irq = VIRTIO0_IRQ then virtio_disk_intr
                 else if irq \<noteq> 0 then kprintf ''unexpected interrupt irq=%d\<newline>'' [sint irq]
                 else kret ())
         (kthen (if irq \<noteq> 0 then plic_complete irq else kret ())
                (kret 1)))
     else if scause = 0x8000000000000005 then kthen clockintr (kret 2)
     else kret 0)"

definition prepare_return :: "('z ktrap_scheme, unit) km" where
  "prepare_return =
     kbind myproc_deref (\<lambda>p.
     kthen hart_intr_off
    (kbind (kget (\<lambda>s. TRAMPOLINE + (uservec_addr s - trampoline s))) (\<lambda>v.
     kthen (w_stvec v)
    (kbind r_satp (\<lambda>satp.
     kthen (tf_set p TF_KERNEL_SATP satp)
    (kbind (kget (\<lambda>s. kstack (procs s p) + 4096)) (\<lambda>sp.
     kthen (tf_set p TF_KERNEL_SP sp)
    (kbind (kget usertrap_addr) (\<lambda>ut.
     kthen (tf_set p TF_KERNEL_TRAP ut)
    (kbind r_tp (\<lambda>tp.
     kthen (tf_set p TF_KERNEL_HARTID tp)
    (kbind r_sstatus (\<lambda>x.
     kthen (w_sstatus ((x AND NOT SSTATUS_SPP) OR SSTATUS_SPIE))
    (kbind (tf_get p TF_EPC) w_sepc))))))))))))))"

definition usertrap_syscall :: "nat \<Rightarrow> ('z ktrap_scheme, unit) km" where
  "usertrap_syscall p =
     kbind (killed p) (\<lambda>k.
     kthen (kif k (kexit (- 1)) (kret ()))
    (kbind (tf_get p TF_EPC) (\<lambda>epc.
     kthen (tf_set p TF_EPC (epc + 4))
    (kthen hart_intr_on
           syscall))))"

text \<open>The cases of \<open>usertrap\<close>; the result is \<open>which_dev\<close>.\<close>

definition usertrap_handle :: "nat \<Rightarrow> ('z ktrap_scheme, nat) km" where
  "usertrap_handle p =
     kbind r_scause (\<lambda>scause.
     kif (scause = 8) (kthen (usertrap_syscall p) (kret 0))
    (kbind devintr (\<lambda>dev.
     kif (dev \<noteq> 0) (kret dev)
    (kbind r_stval (\<lambda>stval.
     kbind (kget (\<lambda>s. pagetable (procs s p))) (\<lambda>pt.
     kbind (kif (scause = 15 \<or> scause = 13) (vmfault pt stval (scause = 13)) (kret 0)) (\<lambda>pa.
     kif (pa \<noteq> 0) (kret 0)
    (kbind (kget (\<lambda>s. pid (procs s p))) (\<lambda>i.
     kbind r_sepc (\<lambda>sepc.
     kthen (kprintf ''usertrap(): unexpected scause 0x%lx pid=%d\<newline>'' [uint scause, sint i])
    (kthen (kprintf ''            sepc=0x%lx stval=0x%lx\<newline>'' [uint sepc, uint stval])
    (kthen (setkilled p)
           (kret 0)))))))))))))"

definition usertrap :: "('z ktrap_scheme, uint64) km" where
  "usertrap =
     kbind r_sstatus (\<lambda>st.
     kthen (kpanic_if (\<lambda>_. st AND SSTATUS_SPP \<noteq> 0) ''usertrap: not from user mode'')
    (kbind (kget kernelvec_addr) (\<lambda>kv.
     kthen (w_stvec kv)
    (kbind myproc_deref (\<lambda>p.
     kbind r_sepc (\<lambda>sepc.
     kthen (tf_set p TF_EPC sepc)
    (kbind (usertrap_handle p) (\<lambda>dev.
     kbind (killed p) (\<lambda>k.
     kthen (kif k (kexit (- 1)) (kret ()))
    (kthen (kif (dev = 2) yield (kret ()))
    (kthen prepare_return
    (kget (\<lambda>s. MAKE_SATP (pagetable (procs s p)))))))))))))))"

definition kerneltrap :: "('z ktrap_scheme, unit) km" where
  "kerneltrap =
     kbind r_sepc (\<lambda>sepc.
     kbind r_sstatus (\<lambda>sstatus.
     kbind r_scause (\<lambda>scause.
     kthen (kpanic_if (\<lambda>_. sstatus AND SSTATUS_SPP = 0) ''kerneltrap: not from supervisor mode'')
    (kbind hart_intr_get (\<lambda>on.
     kthen (kpanic_if (\<lambda>_. on) ''kerneltrap: interrupts enabled'')
    (kbind devintr (\<lambda>dev.
     kif (dev = 0)
       (kbind r_stval (\<lambda>stval.
        kthen (kprintf ''scause=0x%lx sepc=0x%lx stval=0x%lx\<newline>'' [uint scause, uint sepc, uint stval])
              (kpanic ''kerneltrap'')))
    (kbind myproc (\<lambda>me.
     kthen (kif (dev = 2 \<and> me \<noteq> None) yield (kret ()))
    (kthen (w_sepc sepc)
           (w_sstatus sstatus)))))))))))"

text \<open>
  \<open>forkret\<close>, up to the jump to \<open>userret\<close> in the trampoline page; the result is the \<open>satp\<close> value
  it passes. \<open>init_path\<close> is the string \<open>/init\<close>.
\<close>

definition init_path :: "byte list" where
  "init_path = [47, 105, 110, 105, 116]"

definition forkret :: "('z ktrap_scheme, uint64) km" where
  "forkret =
     kbind myproc_deref (\<lambda>p.
     kthen (release (ProcLock p))
    (kbind (kget first) (\<lambda>f.
     kthen (kif f
              (kthen (fsinit ROOTDEV)
              (kthen (kmod (\<lambda>s. s\<lparr>first := False\<rparr>))
              (kbind (kexec init_path [init_path]) (\<lambda>r.
               kthen (tf_set p (TF_A 0) (of_int r))
              (kbind (tf_get p (TF_A 0)) (\<lambda>a0.
               kpanic_if (\<lambda>_. a0 = - 1) ''exec''))))))
              (kret ()))
    (kthen prepare_return
           (kget (\<lambda>s. MAKE_SATP (pagetable (procs s p))))))))"

section \<open>Booting\<close>

definition timerinit :: "('z ktrap_scheme, unit) km" where
  "timerinit =
     kbind r_mie (\<lambda>x.
     kthen (w_mie (x OR MIE_STIE))
    (kbind r_menvcfg (\<lambda>x.
     kthen (w_menvcfg (x OR push_bit 63 1))
    (kbind r_mcounteren (\<lambda>x.
     kthen (w_mcounteren (x OR 2))
    (kbind r_time (\<lambda>t.
     w_stimecmp (t + 1000000))))))))"

definition start :: "('z ktrap_scheme, unit) km" where
  "start =
     kbind r_mstatus (\<lambda>x.
     kthen (w_mstatus ((x AND NOT MSTATUS_MPP_MASK) OR MSTATUS_MPP_S))
    (kbind (kget main_addr) (\<lambda>m.
     kthen (w_mepc m)
    (kthen (w_satp 0)
    (kthen (w_medeleg 0xffff)
    (kthen (w_mideleg 0xffff)
    (kbind r_sie (\<lambda>x.
     kthen (w_sie (x OR SIE_SEIE OR SIE_STIE))
    (kthen (w_pmpaddr0 0x3fffffffffffff)
    (kthen (w_pmpcfg0 0xf)
    (kthen timerinit
    (kbind r_mhartid (\<lambda>i.
     w_tp (scast (ucast i :: uint32)))))))))))))) )"

definition printfinit :: "('z kthread_scheme, unit) km" where
  "printfinit = klock_init PrLock"

text \<open>\<open>main\<close> on a hart; the argument is the number of rounds of the scheduler.\<close>

definition main_boot :: "('z ktrap_scheme, unit) km" where
  "main_boot =
     kthen consoleinit
    (kthen printfinit
    (kthen (kprintf ''\<newline>'' [])
    (kthen (kprintf ''xv6 kernel is booting\<newline>'' [])
    (kthen (kprintf ''\<newline>'' [])
    (kthen kinit
    (kthen kvminit
    (kthen kvminithart
    (kthen procinit
    (kthen trapinit
    (kthen trapinithart
    (kthen plicinit
    (kthen plicinithart
    (kthen binit
    (kthen iinit
    (kthen fileinit
    (kthen virtio_disk_init
    (kthen userinit
           (kmod (\<lambda>s. s\<lparr>started := True\<rparr>)))))))))))))))))))"

definition kmain :: "nat \<Rightarrow> ('z ktrap_scheme, unit) km" where
  "kmain n =
     kbind cpuid (\<lambda>hart.
     kthen (kif (hart = 0) main_boot
           (kbind (kget (\<lambda>s. started s)) (\<lambda>st.
            kif (\<not> st) kstuck
           (kthen (kprintf ''hart %d starting\<newline>'' [hart])
           (kthen kvminithart
           (kthen trapinithart
                  plicinithart))))))
           (scheduler n))"

end
