(* ===== verification/Xv6_Tx.thy ===== *)
theory Xv6_Tx
  imports Xv6_Fs
begin

text \<open>
  Reading and updating blocks inside a transaction: what the pairs of \<open>bread\<close> and \<open>brelse\<close>, with or
  without \<open>log_write\<close> in between, do to the contents of the blocks (\<open>lview\<close>). The operations of the
  file system are sequences of such steps; the block allocator is verified here.
\<close>

section \<open>Steps of a transaction\<close>

lemma tx_openD:
  assumes "tx_open s H n pins"
  shows "bio_inv s H pins" "bio_free s" "log_dev s = ROOTDEV" "lh_n s = int n"
    "\<forall>i < n. \<exists>b < NBUF. caches (bufs s) (lh_block s i) b"
    "\<forall>b < NBUF. pins b = (if \<exists>i < n. caches (bufs s) (lh_block s i) b then 1 else 0)"
  using assms unfolding tx_open_def by blast+

lemma tx_open_cong:
  assumes tx: "tx_open s H n pins" and inv: "bio_inv t H' pins" and fr: "tx_frame s t" "lh_n t = lh_n s" "lh_block t = lh_block s"
    and ca: "\<And>x c. caches (bufs t) x c = caches (bufs s) x c"
  shows "tx_open t H' n pins"
proof -
  have "bio_free t" using tx tx_frame_simps [OF fr(1)] by (simp add: tx_open_def bio_free_def)
  then show ?thesis using tx inv fr(2,3) tx_frame_simps [OF fr(1)] unfolding tx_open_def ca by simp
qed

lemma bio_frame_log:
  fixes s t :: "'z klog_scheme"
  assumes "bio_frame s t" shows "lh_n t = lh_n s" "lh_block t = lh_block s"
proof -
  have t: "t = s\<lparr>bufs := bufs t, slocks := slocks t, procs := procs t, disk := disk t, dtrace := dtrace t\<rparr>"
    using assms by (simp add: bio_frame_def)
  show "lh_n t = lh_n s" "lh_block t = lh_block s" by (subst t, simp)+
qed

text \<open>The pinned buffers are as many as the logged blocks.\<close>

lemma tx_open_room:
  assumes tx: "tx_open s H n pins" and le: "card H + n < NBUF"
  shows "\<exists>c < NBUF. c \<notin> H \<and> pins c = 0"
proof (rule ccontr)
  assume a: "\<not> ?thesis"
  note inv = tx_openD(1) [OF tx]
  have "\<exists>b. i < n \<longrightarrow> b < NBUF \<and> caches (bufs s) (lh_block s i) b" for i
    using tx_openD(5) [OF tx, rule_format, of i] by auto
  then have "\<forall>i. \<exists>b. i < n \<longrightarrow> b < NBUF \<and> caches (bufs s) (lh_block s i) b" ..
  from choice [OF this] obtain g where g: "\<And>i. i < n \<Longrightarrow> g i < NBUF" "\<And>i. i < n \<Longrightarrow> caches (bufs s) (lh_block s i) (g i)"
    by blast
  have "c \<in> H \<union> g ` {0..<n}" if c: "c < NBUF" for c
  proof (cases "c \<in> H")
    case False
    then have pc: "pins c \<noteq> 0" using a c by auto
    have "pins c = (if \<exists>i < n. caches (bufs s) (lh_block s i) c then 1 else 0)" using tx_openD(6) [OF tx] c by blast
    with pc have "\<exists>i < n. caches (bufs s) (lh_block s i) c" by (auto split: if_splits)
    then obtain i where i: "i < n" "caches (bufs s) (lh_block s i) c" by blast
    have "g i = c" by (rule bio_inv_unique [OF inv g(1) [OF i(1)] c g(2) [OF i(1)] i(2)])
    then show ?thesis using i(1) by (intro UnI2 image_eqI [of _ _ i]) simp_all
  qed (rule UnI1)
  then have sub: "{0..<NBUF} \<subseteq> H \<union> g ` {0..<n}" by (intro subsetI) simp
  have "H \<subseteq> {0..<NBUF}" using bio_inv_held [OF inv] by (intro subsetI) simp
  then have "finite H" by (rule finite_subset) simp
  then have "finite (H \<union> g ` {0..<n})" by simp
  then have "card {0..<NBUF} \<le> card (H \<union> g ` {0..<n})" using sub by (rule card_mono)
  also have "\<dots> \<le> card H + card (g ` {0..<n})" by (rule card_Un_le)
  also have "\<dots> \<le> card H + card {0..<n}" by (intro add_left_mono card_image_le) simp
  finally show False using le by simp
qed

lemma tx_open_brelse:
  fixes s :: "'z klog_scheme"
  assumes tx: "tx_open s H n pins" and b: "b \<in> H" and clean: "0 < pins b \<or> bdata (bufs s b) = disk s (blockno (bufs s b))"
  shows "\<exists>t. brelse b es s = Ok () t es \<and> tx_open t (H - {b}) n pins \<and> lview t = lview s \<and> same_data s t \<and> tx_frame s t \<and>
    lh_block t = lh_block s"
proof -
  obtain t where t: "brelse b es s = Ok () t es" "bio_inv t (H - {b}) pins" "lview t = lview s" "bio_frame s t" "same_data s t"
    using brelse_spec [OF tx_openD(1,2) [OF tx] b clean, of es] by blast
  have "caches (bufs t) x c = caches (bufs s) x c" for x c using t(5) by (simp add: same_data_def caches_def)
  then have "tx_open t (H - {b}) n pins"
    using tx_open_cong [OF tx t(2) bio_tx_frame [OF t(4)] bio_frame_log [OF t(4)]] by blast
  then show ?thesis using t(1,3,5) bio_tx_frame [OF t(4)] bio_frame_log [OF t(4)] by (intro exI [of _ t]) simp
qed

text \<open>Changing the contents of a locked buffer.\<close>

lemma tx_open_set_data:
  fixes s :: "'z klog_scheme" and m :: memory
  assumes tx: "tx_open s H n pins" and b: "b \<in> H" "caches (bufs s) bno b"
  defines "t \<equiv> s\<lparr>bufs := (bufs s)(b := (bufs s b)\<lparr>bdata := m\<rparr>)\<rparr>"
  shows "tx_open t H n pins" "lview t = (lview s)(bno := m)" "tx_frame s t" "caches (bufs t) x c = caches (bufs s) x c"
    "lh_block t = lh_block s" "disk t = disk s" "log_outstanding t = log_outstanding s"
proof -
  note d = bio_set_data [OF tx_openD(1) [OF tx] b, of m, folded t_def]
  show ca: "caches (bufs t) x c = caches (bufs s) x c" for x c by (simp add: t_def caches_def)
  show "tx_open t H n pins" by (rule tx_open_cong [OF tx d(1) bio_tx_frame [OF d(3)] bio_frame_log [OF d(3)] ca])
  show "lview t = (lview s)(bno := m)" by (rule d(2))
  show "tx_frame s t" by (rule bio_tx_frame [OF d(3)])
qed (simp_all add: t_def)

text \<open>
  The idiom of an update: read the block, change its contents, \<open>log_write\<close>, release. Its effect on
  the blocks is the update of one block, and that block is now part of the transaction.
\<close>

definition buf_update :: "(memory \<Rightarrow> memory) \<Rightarrow> nat \<Rightarrow> ('z klog_scheme, unit) km" where
  "buf_update f b =
     kthen (set_buf b (\<lambda>q. q\<lparr>bdata := f (bdata q)\<rparr>))
    (kthen (log_write b)
           (brelse b))"

lemma buf_update_spec:
  fixes s :: "'z klog_scheme"
  assumes tx: "tx_open s H n pins" and b: "b \<in> H" "caches (bufs s) bno b" and rd: "LogLock \<notin> set (held s)" "1 \<le> log_outstanding s"
    and n: "n < LOGBLOCKS" and bno: "\<not> in_log (log_start s) bno"
  shows "\<exists>t n' pins'. buf_update f b es s = Ok () t es \<and> tx_open t (H - {b}) n' pins' \<and> n' \<le> Suc n \<and>
    lview t = (lview s)(bno := f (bdata (bufs s b))) \<and> disk t = disk s \<and> tx_frame s t \<and>
    lh_block t ` {0..<n'} = insert bno (lh_block s ` {0..<n}) \<and> (\<forall>c. c \<noteq> b \<longrightarrow> bdata (bufs t c) = bdata (bufs s c)) \<and>
    (\<forall>x c. caches (bufs t) x c = caches (bufs s) x c)"
proof -
  define s1 where "s1 = s\<lparr>bufs := (bufs s)(b := (bufs s b)\<lparr>bdata := f (bdata (bufs s b))\<rparr>)\<rparr>"
  note d = tx_open_set_data [OF tx b, of "f (bdata (bufs s b))", folded s1_def]
  have bb: "blockno (bufs s1 b) = bno" using b(2) by (simp add: s1_def caches_def)
  have h1: "held s1 = held s" "log_start s1 = log_start s" by (simp_all add: s1_def)
  have dt: "bdata (bufs s1 c) = bdata (bufs s c)" if "c \<noteq> b" for c using that by (simp add: s1_def)
  have "\<exists>t n' pins'. log_write b es s1 = Ok () t es \<and> tx_open t H n' pins' \<and> n' \<le> Suc n \<and> 0 < pins' b \<and>
     lview t = lview s1 \<and> same_data s1 t \<and> tx_frame s1 t \<and> lh_block t ` {0..<n'} = insert bno (lh_block s ` {0..<n})"
  proof (cases "\<exists>i < n. lh_block s i = bno")
    case True
    then obtain i where i: "i < n" "lh_block s1 i = blockno (bufs s1 b)" using d(5) bb by auto
    have "pins b = 1"
      using tx_openD(6) [OF tx, rule_format, of b] bio_inv_held [OF tx_openD(1) [OF tx] b(1)] b(2) True by auto
    moreover have "lh_block s ` {0..<n} = insert bno (lh_block s ` {0..<n})"
      using True by (metis atLeast0LessThan imageI insert_absorb lessThan_iff)
    ultimately show ?thesis
      using log_write_absorb [OF d(1) _ n _ i, of es] rd h1 d(1,5,7)
      by (intro exI [of _ s1] exI [of _ n] exI [of _ pins]) (simp add: same_data_def)
  next
    case False
    then obtain t where t: "log_write b es s1 = Ok () t es" "tx_open t H (Suc n) (pins(b := 1))" "lview t = lview s1" "same_data s1 t"
      "lh_block t = (lh_block s1)(n := bno)" "tx_frame s1 t"
      using log_write_new [OF d(1) b(1) _ n _ bb [symmetric], of es] rd h1 d(5,7) bno by auto
    have "lh_block t ` {0..<Suc n} = insert bno (lh_block s ` {0..<n})"
      unfolding t(5) d(5) by (auto simp: image_iff less_Suc_eq)
    then show ?thesis using t by (intro exI [of _ t] exI [of _ "Suc n"] exI [of _ "pins(b := 1)"]) simp
  qed
  then obtain t n' pins' where t: "log_write b es s1 = Ok () t es" "tx_open t H n' pins'" "n' \<le> Suc n" "0 < pins' b"
    "lview t = lview s1" "same_data s1 t" "tx_frame s1 t" "lh_block t ` {0..<n'} = insert bno (lh_block s ` {0..<n})" by blast
  obtain u where u: "brelse b es t = Ok () u es" "tx_open u (H - {b}) n' pins'" "lview u = lview t" "same_data t u" "tx_frame t u"
    "lh_block u = lh_block t"
    using tx_open_brelse [OF t(2) b(1), of es] t(4) by blast
  have "buf_update f b es s = Ok () u es" using t(1) u(1) by (simp add: buf_update_def s1_def)
  moreover have "tx_frame s u" using tx_frame_trans [OF tx_frame_trans [OF d(3) t(7)] u(5)] .
  ultimately show ?thesis
    using t u d(2,4,6) dt by (intro exI [of _ u] exI [of _ n'] exI [of _ pins']) (simp add: same_data_def caches_def)
qed

text \<open>Reading a block and releasing it.\<close>

lemma tx_clean:
  fixes s :: "'z klog_scheme"
  assumes tx: "tx_open s H n pins" and b: "b \<in> H" "caches (bufs s) bno b"
    and d: "bdata (bufs s b) = lview u bno" "disk s = disk u" and u: "tx_open u H' n pins" "b \<notin> H'" "b < NBUF"
    and same: "\<And>c. c \<noteq> b \<Longrightarrow> bufs s c = bufs u c"
  shows "0 < pins b \<or> bdata (bufs s b) = disk s (blockno (bufs s b))"
proof (cases "pins b = 0")
  case True
  have "\<not> bvalid (bufs u c) \<or> c = b" if c: "c < NBUF" "caches (bufs u) bno c" for c
  proof (rule ccontr)
    assume "\<not> ?thesis"
    then have "c \<noteq> b" by simp
    then have "caches (bufs s) bno c" using c(2) same by (simp add: caches_def)
    then have "c = b" using bio_inv_unique [OF tx_openD(1) [OF tx] c(1) u(3) _ b(2)] by simp
    then show False using \<open>c \<noteq> b\<close> by simp
  qed
  moreover have "bdata (bufs u b) = disk u (blockno (bufs u b))" if "bvalid (bufs u b)"
    using bio_invD [OF tx_openD(1) [OF u(1)] u(3)] that True u(2) by simp
  ultimately have "lview u bno = disk u bno"
    using lview_cached [OF tx_openD(1) [OF u(1)] u(3)] lview_uncached [of u bno] by (metis caches_def)
  then show ?thesis using d b(2) by (simp add: caches_def)
qed simp

lemma tx_open_read:
  fixes s :: "'z klog_scheme"
  assumes tx: "tx_open s H n pins" and nl: "\<forall>b \<in> H. blockno (bufs s b) \<noteq> bno" and room: "card H + n < NBUF"
  shows "\<exists>b t. bread ROOTDEV bno es s = Ok b t es \<and> b \<notin> H \<and> tx_open t (insert b H) n pins \<and> caches (bufs t) bno b \<and>
    bdata (bufs t b) = lview s bno \<and> lview t = lview s \<and> disk t = disk s \<and> tx_frame s t \<and> lh_block t = lh_block s \<and>
    (\<forall>c. c \<noteq> b \<longrightarrow> bufs t c = bufs s c) \<and> (0 < pins b \<or> bdata (bufs t b) = disk t (blockno (bufs t b)))"
proof -
  obtain b t where t: "bread ROOTDEV bno es s = Ok b t es" "b \<notin> H" "tx_open t (insert b H) n pins" "caches (bufs t) bno b"
    "bdata (bufs t b) = lview s bno" "lview t = lview s" "disk t = disk s" "bio_frame s t" "\<forall>c. c \<noteq> b \<longrightarrow> bufs t c = bufs s c"
    using tx_open_bread [OF tx nl tx_open_room [OF tx room], of es] by blast
  have "b < NBUF" using bio_inv_held [OF tx_openD(1) [OF t(3)]] by simp
  then have "0 < pins b \<or> bdata (bufs t b) = disk t (blockno (bufs t b))"
    using tx_clean [OF t(3) _ t(4,5,7) tx t(2)] t(9) by simp
  then show ?thesis using t bio_tx_frame [OF t(8)] bio_frame_log [OF t(8)] by (intro exI [of _ b] exI [of _ t]) simp
qed

text \<open>
  A block of a transaction, read and then released or updated: \<open>tx_block\<close> is the contract that the
  operations of the file system rely on.
\<close>

definition tx_same :: "nat set \<Rightarrow> 'z klog_scheme \<Rightarrow> 'z klog_scheme \<Rightarrow> bool" where
  "tx_same H s t \<longleftrightarrow> tx_frame s t \<and> disk t = disk s \<and>
     (\<forall>c \<in> H. bdata (bufs t c) = bdata (bufs s c) \<and> blockno (bufs t c) = blockno (bufs s c))"

lemma tx_same_refl [simp]: "tx_same H s s"
  by (simp add: tx_same_def)

lemma tx_same_trans: "tx_same H s t \<Longrightarrow> tx_same H t u \<Longrightarrow> tx_same H s u"
  unfolding tx_same_def using tx_frame_trans by (metis (no_types))

definition tx_written :: "nat set \<Rightarrow> 'z klog_scheme \<Rightarrow> uint32 \<Rightarrow> memory \<Rightarrow> nat \<Rightarrow> 'z klog_scheme \<Rightarrow> nat \<Rightarrow> bool" where
  "tx_written H s bno m n t n' \<longleftrightarrow> (\<exists>pins. tx_open t H n' pins) \<and> n' \<le> Suc n \<and> lview t = (lview s)(bno := m) \<and> tx_same H s t \<and>
     lh_block t ` {0..<n'} = insert bno (lh_block s ` {0..<n})"

lemma tx_block:
  fixes s :: "'z klog_scheme"
  assumes tx: "tx_open s H n pins" and nl: "\<forall>b \<in> H. blockno (bufs s b) \<noteq> bno" and room: "card H + n < NBUF"
  obtains b t where "bread ROOTDEV bno es s = Ok b t es" "bdata (bufs t b) = lview s bno" "tx_same H s t" "b \<notin> H"
    "\<exists>u. brelse b es t = Ok () u es \<and> tx_open u H n pins \<and> lview u = lview s \<and> tx_same H s u \<and> lh_block u = lh_block s"
    "\<And>f. LogLock \<notin> set (held s) \<Longrightarrow> 1 \<le> log_outstanding s \<Longrightarrow> \<not> in_log (log_start s) bno \<Longrightarrow>
       \<exists>u n'. buf_update f b es t = Ok () u es \<and> tx_written H s bno (f (lview s bno)) n u n'"
proof -
  obtain b t where t: "bread ROOTDEV bno es s = Ok b t es" "b \<notin> H" "tx_open t (insert b H) n pins" "caches (bufs t) bno b"
    "bdata (bufs t b) = lview s bno" "lview t = lview s" "disk t = disk s" "tx_frame s t" "lh_block t = lh_block s"
    "\<forall>c. c \<noteq> b \<longrightarrow> bufs t c = bufs s c" "0 < pins b \<or> bdata (bufs t b) = disk t (blockno (bufs t b))"
    using tx_open_read [OF tx nl room, of es] by blast
  have H: "insert b H - {b} = H" using t(2) by simp
  have st: "tx_same H s t" using t(2,7,8,10) by (auto simp: tx_same_def)
  obtain u where u: "brelse b es t = Ok () u es" "tx_open u H n pins" "lview u = lview t" "same_data t u" "tx_frame t u" "lh_block u = lh_block t"
    using tx_open_brelse [OF t(3) _ t(11), of es] H by auto
  have "tx_same H t u" using u(4,5) by (simp add: tx_same_def same_data_def)
  then have 1: "\<exists>u. brelse b es t = Ok () u es \<and> tx_open u H n pins \<and> lview u = lview s \<and> tx_same H s u \<and> lh_block u = lh_block s"
    using u t(6,9) tx_same_trans [OF st] by (intro exI [of _ u]) simp
  have n: "n < LOGBLOCKS" using room by (simp add: NBUF_def LOGBLOCKS_def MAXOPBLOCKS_def)
  have "\<exists>u n'. buf_update f b es t = Ok () u es \<and> tx_written H s bno (f (lview s bno)) n u n'"
    if a: "LogLock \<notin> set (held s)" "1 \<le> log_outstanding s" "\<not> in_log (log_start s) bno" for f
  proof -
    obtain v n' pins' where v: "buf_update f b es t = Ok () v es" "tx_open v (insert b H - {b}) n' pins'" "n' \<le> Suc n"
      "lview v = (lview t)(bno := f (bdata (bufs t b)))" "disk v = disk t" "tx_frame t v"
      "lh_block v ` {0..<n'} = insert bno (lh_block t ` {0..<n})" "\<forall>c. c \<noteq> b \<longrightarrow> bdata (bufs v c) = bdata (bufs t c)"
      "\<forall>x c. caches (bufs v) x c = caches (bufs t) x c"
      using buf_update_spec [OF t(3) _ t(4) _ _ n, of f es] a tx_frame_simps [OF t(8)] by auto
    have "blockno (bufs v c) = blockno (bufs t c)" if c: "c \<in> H" for c
      using bio_invD(5) [OF tx_openD(1) [OF t(3)] bio_inv_held [OF tx_openD(1) [OF t(3)]], of c] c v(9) by (auto simp: caches_def)
    moreover have "bdata (bufs v c) = bdata (bufs t c)" if "c \<in> H" for c using v(8) t(2) that by metis
    ultimately have "tx_same H t v" using v(5,6) by (simp add: tx_same_def)
    then have "tx_written H s bno (f (lview s bno)) n v n'"
      using v t(5,6,9) tx_same_trans [OF st] H unfolding tx_written_def by auto
    then show ?thesis using v(1) by blast
  qed
  then show ?thesis using that [OF t(1,5) st t(2) 1] by blast
qed

lemma buf_update_seq:
  "kthen (set_buf b (\<lambda>q. q\<lparr>bdata := f (bdata q)\<rparr>)) (kthen (log_write b) (kthen (brelse b) m)) es s = kthen (buf_update f b) m es s"
  by (simp add: buf_update_def kthen_def kbind_def split: kres.splits)

lemma tx_frame_fs:
  fixes s t :: "'z kfs_scheme"
  assumes "tx_frame s t" shows "sb t = sb s" "itable t = itable s"
proof -
  have t: "t = s\<lparr>bufs := bufs t, slocks := slocks t, procs := procs t, disk := disk t, dtrace := dtrace t,
      lh_n := lh_n t, lh_block := lh_block t\<rparr>" using assms by (simp add: tx_frame_def)
  show "sb t = sb s" "itable t = itable s" by (subst t, simp)+
qed

lemma tx_open_kout [simp]: "tx_open (s\<lparr>kout := k\<rparr>) H n pins = tx_open s H n pins" "lview (s\<lparr>kout := k\<rparr>) = lview s"
proof -
  show "lview (s\<lparr>kout := k\<rparr>) = lview s" by (rule ext) (simp add: lview_def split: option.splits)
  have "bio_inv (s\<lparr>kout := k\<rparr>) H pins = bio_inv s H pins" "bio_free (s\<lparr>kout := k\<rparr>) = bio_free s"
    by (simp_all add: bio_inv_def bio_free_def)
  then show "tx_open (s\<lparr>kout := k\<rparr>) H n pins = tx_open s H n pins" by (simp add: tx_open_def)
qed

section \<open>The block allocator\<close>

text \<open>Whether block \<open>b\<close> is free according to the bitmap, and the bits after an update of the bitmap.\<close>

definition free_block :: "'z kfs_scheme \<Rightarrow> nat \<Rightarrow> bool" where
  "free_block s b = bit_free (lview s (BBLOCK (of_nat b) (sb s))) (b mod BPB)"

lemma byte_zero_iff: "(w :: byte) = 0 \<longleftrightarrow> (\<forall>n < 8. \<not> bit w n)"
  by (auto simp: bit_eq_iff)

lemma byte_mask: "k < 8 \<Longrightarrow> (w :: byte) AND push_bit k 1 = 0 \<longleftrightarrow> \<not> bit w k"
  unfolding byte_zero_iff by (auto simp: bit_and_iff bit_exp_iff)

lemma bit_free_iff: "bit_free m i \<longleftrightarrow> \<not> bit (m (of_nat (i div 8))) (i mod 8)"
  unfolding bit_free_def by (rule byte_mask) simp

lemma byte_index_inject: "i < BPB \<Longrightarrow> j < BPB \<Longrightarrow> (of_nat (i div 8) :: uint64) = of_nat (j div 8) \<longleftrightarrow> i div 8 = j div 8"
  by (auto simp: BPB_def BSIZE_def word_unat_eq_iff unat_of_nat take_bit_nat_eq_self_iff)

lemma bit_mark_free:
  assumes "i < BPB" "j < BPB" shows "bit_free (bit_mark m i) j \<longleftrightarrow> j \<noteq> i \<and> bit_free m j"
proof (cases "i div 8 = j div 8")
  case True
  then have "i mod 8 = j mod 8 \<longleftrightarrow> i = j" using div_mult_mod_eq [of i 8] div_mult_mod_eq [of j 8] by auto
  then show ?thesis using True unfolding bit_free_iff bit_mark_def by (auto simp: bit_or_iff bit_exp_iff)
next
  case False
  then have "i \<noteq> j" "(of_nat (j div 8) :: uint64) \<noteq> of_nat (i div 8)" using byte_index_inject [OF assms] by auto
  then show ?thesis unfolding bit_free_iff bit_mark_def by simp
qed

lemma bit_clear_free:
  assumes "i < BPB" "j < BPB" shows "bit_free (bit_clear m i) j \<longleftrightarrow> j = i \<or> bit_free m j"
proof (cases "i div 8 = j div 8")
  case True
  then have "i mod 8 = j mod 8 \<longleftrightarrow> i = j" using div_mult_mod_eq [of i 8] div_mult_mod_eq [of j 8] by auto
  then show ?thesis using True unfolding bit_free_iff bit_clear_def by (auto simp: bit_and_iff bit_not_iff bit_exp_iff)
next
  case False
  then have "i \<noteq> j" "(of_nat (j div 8) :: uint64) \<noteq> of_nat (i div 8)" using byte_index_inject [OF assms] by auto
  then show ?thesis unfolding bit_free_iff bit_clear_def by simp
qed

lemma balloc_bit_spec:
  "(case balloc_bit m b sz bi of
      None \<Rightarrow> \<forall>j. bi \<le> j \<longrightarrow> j < BPB \<longrightarrow> b + j < sz \<longrightarrow> \<not> bit_free m j
    | Some i \<Rightarrow> bi \<le> i \<and> i < BPB \<and> b + i < sz \<and> bit_free m i \<and> (\<forall>j. bi \<le> j \<longrightarrow> j < i \<longrightarrow> \<not> bit_free m j))"
proof (induction m b sz bi rule: balloc_bit.induct)
  case (1 m b sz bi)
  show ?case
  proof (cases "bi < BPB \<and> b + bi < sz \<and> \<not> bit_free m bi")
    case True
    have step: "bi \<le> j \<longleftrightarrow> j = bi \<or> Suc bi \<le> j" for j by auto
    show ?thesis using 1 True by (subst balloc_bit.simps) (auto simp: step split: option.splits)
  qed (subst balloc_bit.simps, auto)
qed

lemma BBLOCK_base:
  assumes "BPB dvd b" "i < BPB" "b + i < 2 ^ 32"
  shows "BBLOCK (of_nat (b + i)) q = BBLOCK (of_nat b) q" "(b + i) mod BPB = i"
proof -
  obtain k where k: "b = k * BPB" using assms(1) by (metis dvd_def mult.commute)
  have "unat (of_nat n :: uint32) = n" if "n < 2 ^ 32" for n using that by (simp add: unat_of_nat take_bit_nat_eq_self_iff)
  from this [of "b + i"] this [of b] this [of BPB]
  have "unat (of_nat (b + i) :: uint32) = b + i" "unat (of_nat b :: uint32) = b" "unat (of_nat BPB :: uint32) = BPB"
    using assms(3) by (simp_all only:) (simp_all add: BPB_def BSIZE_def)
  moreover have "(b + i) div BPB = b div BPB" using assms(2) k by simp
  ultimately have "(of_nat (b + i) :: uint32) div of_nat BPB = of_nat b div of_nat BPB" by (simp only: word_unat_eq_iff unat_div)
  then show "BBLOCK (of_nat (b + i)) q = BBLOCK (of_nat b) q" by (simp add: BBLOCK_def)
  show "(b + i) mod BPB = i" using assms(2) k by simp
qed

text \<open>
  What the allocator relies on: the blocks of the bitmap and the free blocks are not in use by the log
  or by the caller, and the bitmap marks itself and the boot block as used.
\<close>

definition alloc_layout :: "'z kfs_scheme \<Rightarrow> nat set \<Rightarrow> bool" where
  "alloc_layout s H \<longleftrightarrow>
     (\<forall>b < unat (sb_size (sb s)). \<not> in_log (log_start s) (BBLOCK (of_nat b) (sb s)) \<and>
        (\<forall>c \<in> H. blockno (bufs s c) \<noteq> BBLOCK (of_nat b) (sb s))) \<and>
     (\<forall>b < unat (sb_size (sb s)). free_block s b \<longrightarrow> b \<noteq> 0 \<and> \<not> in_log (log_start s) (of_nat b) \<and>
        (\<forall>a < unat (sb_size (sb s)). BBLOCK (of_nat a) (sb s) \<noteq> of_nat b) \<and> (\<forall>c \<in> H. blockno (bufs s c) \<noteq> of_nat b))"

definition alloc_result :: "'z kfs_scheme \<Rightarrow> uint32 \<Rightarrow> 'z kfs_scheme \<Rightarrow> bool" where
  "alloc_result s r t \<longleftrightarrow>
     (if r = 0 then (\<forall>b < unat (sb_size (sb s)). \<not> free_block s b) \<and> lview t = lview s
      else unat r < unat (sb_size (sb s)) \<and> free_block s (unat r) \<and> (\<forall>b < unat r. \<not> free_block s b) \<and>
        lview t = (lview s)(BBLOCK r (sb s) := bit_mark (lview s (BBLOCK r (sb s))) (unat r mod BPB),
                            r := memset (lview s r) 0 0 (of_nat BSIZE)))"

lemma bzero_update: "bzero dev bno = kbind (bread dev bno) (buf_update (\<lambda>d. memset d 0 0 (of_nat BSIZE)))"
  unfolding bzero_def buf_update_def ..

text \<open>What the operations keep of the rest of the state.\<close>

definition fs_same :: "nat set \<Rightarrow> 'z kfs_scheme \<Rightarrow> 'z kfs_scheme \<Rightarrow> bool" where
  "fs_same H s t \<longleftrightarrow> held t = held s \<and> cur t = cur s \<and> log_start t = log_start s \<and> log_outstanding t = log_outstanding s \<and>
     sb t = sb s \<and> itable t = itable s \<and> disk t = disk s \<and>
     (\<forall>c \<in> H. bdata (bufs t c) = bdata (bufs s c) \<and> blockno (bufs t c) = blockno (bufs s c))"

lemma tx_same_fs: "tx_same H s t \<Longrightarrow> fs_same H s t"
  using tx_frame_simps [of s t] tx_frame_fs [of s t] by (simp add: tx_same_def fs_same_def)

lemma fs_same_trans: "fs_same H s t \<Longrightarrow> fs_same H t u \<Longrightarrow> fs_same H s u"
  by (simp add: fs_same_def)

lemma free_block_cong: "lview t = lview s \<Longrightarrow> sb t = sb s \<Longrightarrow> free_block t b = free_block s b"
  by (simp add: free_block_def)

lemma alloc_layout_cong: "lview t = lview s \<Longrightarrow> fs_same H s t \<Longrightarrow> alloc_layout t H = alloc_layout s H"
  by (simp add: alloc_layout_def fs_same_def free_block_def)

lemma alloc_result_cong: "lview t = lview s \<Longrightarrow> sb t = sb s \<Longrightarrow> alloc_result t r u = alloc_result s r u"
  by (simp add: alloc_result_def free_block_def)

lemma unat_of_nat_32: "n < 2 ^ 32 \<Longrightarrow> unat (of_nat n :: uint32) = n"
  by (simp add: unat_of_nat take_bit_nat_eq_self_iff)

lemma alloc_found:
  assumes b: "BPB dvd b" "\<forall>c < b. \<not> free_block s c"
    and i: "balloc_bit (lview s (BBLOCK (of_nat b) (sb s))) b (unat (sb_size (sb s))) 0 = Some i"
  shows "free_block s (b + i)" "b + i < unat (sb_size (sb s))" "\<forall>c < b + i. \<not> free_block s c"
    "BBLOCK (of_nat (b + i)) (sb s) = BBLOCK (of_nat b) (sb s)" "(b + i) mod BPB = i"
proof -
  have bi: "i < BPB" "b + i < unat (sb_size (sb s))" "bit_free (lview s (BBLOCK (of_nat b) (sb s))) i"
    and small: "\<forall>j < i. \<not> bit_free (lview s (BBLOCK (of_nat b) (sb s))) j"
    using balloc_bit_spec [where m = "lview s (BBLOCK (of_nat b) (sb s))" and b = b and sz = "unat (sb_size (sb s))" and bi = 0] i
    by simp_all
  have lt: "b + i < 2 ^ 32" using u32_bound [OF bi(2)] by simp
  have base: "BBLOCK (of_nat (b + j)) (sb s) = BBLOCK (of_nat b) (sb s)" "(b + j) mod BPB = j" if "j \<le> i" for j
    using BBLOCK_base [OF b(1)] bi(1) lt that by auto
  show "BBLOCK (of_nat (b + i)) (sb s) = BBLOCK (of_nat b) (sb s)" "(b + i) mod BPB = i" by (rule base [OF order_refl])+
  then show "free_block s (b + i)" unfolding free_block_def using bi(3) by simp
  have "\<not> free_block s c" if c: "c < b + i" for c
  proof (cases "c < b")
    case False
    then have "c = b + (c - b)" "c - b < i" using c by auto
    then show ?thesis using small base [of "c - b"] unfolding free_block_def by (metis less_imp_le)
  qed (use b(2) in blast)
  then show "\<forall>c < b + i. \<not> free_block s c" by blast
  show "b + i < unat (sb_size (sb s))" by (rule bi(2))
qed

lemma alloc_result_found:
  assumes lay: "alloc_layout s H" and b: "BPB dvd b" "\<forall>c < b. \<not> free_block s c"
    and i: "balloc_bit (lview s (BBLOCK (of_nat b) (sb s))) b (unat (sb_size (sb s))) 0 = Some i"
    and l: "lview t = (lview s)(BBLOCK (of_nat b) (sb s) := bit_mark (lview s (BBLOCK (of_nat b) (sb s))) i)"
      "lview u = (lview t)(of_nat (b + i) := memset (lview t (of_nat (b + i))) 0 0 (of_nat BSIZE))"
  shows "alloc_result s (of_nat (b + i)) u"
proof -
  note f = alloc_found [OF b i]
  note lay' = lay [unfolded alloc_layout_def, THEN conjunct2, rule_format, OF f(2,1)]
  have ne: "BBLOCK (of_nat b) (sb s) \<noteq> of_nat (b + i)" using lay' f(2,4) by metis
  have un: "unat (of_nat (b + i) :: uint32) = b + i" by (rule unat_of_nat_32) (use u32_bound [OF f(2)] in simp)
  have nz: "(of_nat (b + i) :: uint32) \<noteq> 0" using lay' un by (metis unsigned_0)
  have "lview u = (lview s)(BBLOCK (of_nat (b + i)) (sb s) := bit_mark (lview s (BBLOCK (of_nat (b + i)) (sb s))) ((b + i) mod BPB),
     of_nat (b + i) := memset (lview s (of_nat (b + i))) 0 0 (of_nat BSIZE))"
    unfolding l(2) f(4,5) using l(1) ne by simp
  then show ?thesis unfolding alloc_result_def un using nz f(1,2,3) by simp
qed

lemma alloc_none_step:
  assumes b: "BPB dvd b" "\<forall>c < b. \<not> free_block s c" "b < unat (sb_size (sb s))"
    and i: "balloc_bit (lview s (BBLOCK (of_nat b) (sb s))) b (unat (sb_size (sb s))) 0 = None"
    and c: "c < b + BPB" "c < unat (sb_size (sb s))"
  shows "\<not> free_block s c"
proof (cases "c < b")
  case False
  then obtain j where j: "c = b + j" "j < BPB" using c(1) by (metis add_less_cancel_left le_Suc_ex not_less)
  have "\<not> bit_free (lview s (BBLOCK (of_nat b) (sb s))) j"
    using balloc_bit_spec [where m = "lview s (BBLOCK (of_nat b) (sb s))" and b = b and sz = "unat (sb_size (sb s))" and bi = 0] i j c(2) by simp
  then show ?thesis unfolding free_block_def j(1) using BBLOCK_base [OF b(1) j(2)] u32_bound [OF c(2)] j(1) by simp
qed (use b(2) in blast)

lemma balloc_found:
  fixes s :: "'z kfs_scheme"
  assumes tx: "tx_open s H n pins" and lay: "alloc_layout s H" and rd: "LogLock \<notin> set (held s)" "1 \<le> log_outstanding s"
    and room: "card H + n + 1 < NBUF" and b: "BPB dvd b" "\<forall>c < b. \<not> free_block s c" "b < unat (sb_size (sb s))"
    and i: "balloc_bit (lview s (BBLOCK (of_nat b) (sb s))) b (unat (sb_size (sb s))) 0 = Some i"
  shows "\<exists>t n' pins'. balloc_from ROOTDEV b es s = Ok (of_nat (b + i)) t es \<and> tx_open t H n' pins' \<and> n' \<le> n + 2 \<and>
    fs_same H s t \<and> alloc_result s (of_nat (b + i)) t"
proof -
  let ?B = "BBLOCK (of_nat b) (sb s)"
  note lb = lay [unfolded alloc_layout_def, THEN conjunct1, rule_format, OF b(3)]
  obtain bp s1 where 1: "bread ROOTDEV ?B es s = Ok bp s1 es" "bdata (bufs s1 bp) = lview s ?B"
    "\<And>f. \<exists>u n'. buf_update f bp es s1 = Ok () u es \<and> tx_written H s ?B (f (lview s ?B)) n u n'"
    by (rule tx_block [OF tx, of ?B es]) (use lb room rd in auto)
  obtain s2 n2 where 2: "buf_update (\<lambda>d. bit_mark d i) bp es s1 = Ok () s2 es" "tx_written H s ?B (bit_mark (lview s ?B) i) n s2 n2"
    using 1(3) by blast
  then obtain pins2 where tx2: "tx_open s2 H n2 pins2" and n2: "n2 \<le> Suc n" and l2: "lview s2 = (lview s)(?B := bit_mark (lview s ?B) i)"
    and same2: "tx_same H s s2" unfolding tx_written_def by blast
  let ?r = "of_nat (b + i) :: uint32"
  note found = alloc_found [OF b(1,2) i]
  have lr: "\<not> in_log (log_start s) ?r" "\<forall>c \<in> H. blockno (bufs s c) \<noteq> ?r"
    using lay [unfolded alloc_layout_def, THEN conjunct2, rule_format, OF found(2,1)] by blast+
  note f2 = tx_same_fs [OF same2]
  obtain bq s3 where 3: "bread ROOTDEV ?r es s2 = Ok bq s3 es"
    "\<And>f. \<exists>u n'. buf_update f bq es s3 = Ok () u es \<and> tx_written H s2 ?r (f (lview s2 ?r)) n2 u n'"
    by (rule tx_block [OF tx2, of ?r es]) (use lr room rd n2 f2 in \<open>auto simp: fs_same_def\<close>)
  obtain s4 n4 where 4: "buf_update (\<lambda>d. memset d 0 0 (of_nat BSIZE)) bq es s3 = Ok () s4 es"
    "tx_written H s2 ?r (memset (lview s2 ?r) 0 0 (of_nat BSIZE)) n2 s4 n4" using 3(2) by blast
  then obtain pins4 where tx4: "tx_open s4 H n4 pins4" and n4: "n4 \<le> Suc n2"
    and l4: "lview s4 = (lview s2)(?r := memset (lview s2 ?r) 0 0 (of_nat BSIZE))" and same4: "tx_same H s2 s4"
    unfolding tx_written_def by blast
  have "bzero ROOTDEV ?r es s2 = Ok () s4 es" unfolding bzero_update using 3(1) 4(1) by simp
  then have "balloc_from ROOTDEV b es s = Ok ?r s4 es"
    using buf_update_seq [of bp "\<lambda>d. bit_mark d i" "kthen (bzero ROOTDEV ?r) (kret ?r)" es s1] b(3) 1(1,2) 2(1) i
    by (subst balloc_from.simps) simp
  moreover have "fs_same H s s4" using fs_same_trans [OF f2 tx_same_fs [OF same4]] .
  ultimately show ?thesis using tx4 n2 n4 alloc_result_found [OF lay b(1,2) i l2 l4]
    by (intro exI [of _ s4] exI [of _ n4] exI [of _ pins4]) simp
qed

lemma balloc_from_spec:
  fixes s :: "'z kfs_scheme"
  assumes "tx_open s H n pins" "alloc_layout s H" "LogLock \<notin> set (held s)" "1 \<le> log_outstanding s" "card H + n + 1 < NBUF"
    "BPB dvd b" "\<forall>c < b. c < unat (sb_size (sb s)) \<longrightarrow> \<not> free_block s c"
  shows "\<exists>r t n' pins'. balloc_from ROOTDEV b es s = Ok r t es \<and> tx_open t H n' pins' \<and> n' \<le> n + 2 \<and>
    fs_same H s t \<and> alloc_result s r t"
  using assms
proof (induction "unat (sb_size (sb s)) - b" arbitrary: s b pins rule: less_induct)
  case less
  let ?B = "BBLOCK (of_nat b) (sb s)" and ?sz = "unat (sb_size (sb s))"
  show ?case
  proof (cases "b < ?sz")
    case False
    then have "balloc_from ROOTDEV b es s = Ok 0 (s\<lparr>kout := kout s @ [(''balloc: out of blocks\<newline>'', [])]\<rparr>) es"
      by (subst balloc_from.simps) simp
    then show ?thesis using less.prems False
      by (intro exI [of _ 0] exI [of _ "s\<lparr>kout := kout s @ [(''balloc: out of blocks\<newline>'', [])]\<rparr>"] exI [of _ n] exI [of _ pins])
        (simp add: alloc_result_def fs_same_def)
  next
    case b: True
    show ?thesis
    proof (cases "balloc_bit (lview s ?B) b ?sz 0")
      case (Some i)
      then show ?thesis using balloc_found [OF less.prems(1-6) _ b Some, of es] less.prems(7) b by auto
    next
      case None
      note lb = less.prems(2) [unfolded alloc_layout_def, THEN conjunct1, rule_format, OF b]
      obtain bp s1 s2 where 1: "bread ROOTDEV ?B es s = Ok bp s1 es" "bdata (bufs s1 bp) = lview s ?B" "tx_same H s s1"
        and 2: "brelse bp es s1 = Ok () s2 es" "tx_open s2 H n pins" "lview s2 = lview s" "tx_same H s s2"
        by (rule tx_block [OF less.prems(1), of ?B es]) (use lb less.prems(5) in auto)
      have sz: "sb s1 = sb s" "sb s2 = sb s" using tx_same_fs [OF 1(3)] tx_same_fs [OF 2(4)] by (simp_all add: fs_same_def)
      have free: "free_block s2 c = free_block s c" for c by (rule free_block_cong) (use 2(3) sz in simp_all)
      have run: "balloc_from ROOTDEV b es s = balloc_from ROOTDEV (b + BPB) es s2"
        by (subst balloc_from.simps) (use b 1(1,2) 2(1) None in simp)
      note f2 = tx_same_fs [OF 2(4)]
      have "\<exists>r t n' pins'. balloc_from ROOTDEV (b + BPB) es s2 = Ok r t es \<and> tx_open t H n' pins' \<and> n' \<le> n + 2 \<and>
          fs_same H s2 t \<and> alloc_result s2 r t"
      proof (rule less.hyps [OF _ 2(2)])
        show "alloc_layout s2 H" using alloc_layout_cong [OF 2(3) f2] less.prems(2) by simp
        show "\<forall>c < b + BPB. c < unat (sb_size (sb s2)) \<longrightarrow> \<not> free_block s2 c"
          using alloc_none_step [OF less.prems(6) _ b None] less.prems(7) b unfolding free sz by auto
      qed (use less.prems(3-6) f2 sz b in \<open>simp_all add: fs_same_def BPB_def BSIZE_def\<close>)
      then show ?thesis unfolding run using fs_same_trans [OF f2] alloc_result_cong [OF 2(3) sz(2)] by blast
    qed
  qed
qed

text \<open>The free blocks after a bit of the bitmap has been set or cleared.\<close>

lemma BBLOCK_eq_div:
  assumes "BBLOCK (of_nat b) q = BBLOCK (of_nat c) q" "b < 2 ^ 32" "c < 2 ^ 32" shows "b div BPB = c div BPB"
proof -
  have "unat (of_nat BPB :: uint32) = BPB" by (rule unat_of_nat_32) (simp add: BPB_def BSIZE_def)
  moreover have "(of_nat b :: uint32) div of_nat BPB = of_nat c div of_nat BPB" using assms(1) by (simp add: BBLOCK_def)
  ultimately show ?thesis using unat_of_nat_32 [OF assms(2)] unat_of_nat_32 [OF assms(3)] by (metis unat_div)
qed

lemma free_block_update:
  assumes l: "lview t (BBLOCK (of_nat b) (sb s)) = g (lview s (BBLOCK (of_nat b) (sb s))) (b mod BPB)"
      "\<forall>a < sz. BBLOCK (of_nat a) (sb s) \<noteq> BBLOCK (of_nat b) (sb s) \<longrightarrow>
         lview t (BBLOCK (of_nat a) (sb s)) = lview s (BBLOCK (of_nat a) (sb s))"
    and g: "\<And>m i j. i < BPB \<Longrightarrow> j < BPB \<Longrightarrow> bit_free (g m i) j \<longleftrightarrow> (if j = i then P else bit_free m j)"
    and sb: "sb t = sb s" and c: "b < sz" "c < sz" "sz \<le> 2 ^ 32"
  shows "free_block t c \<longleftrightarrow> (if c = b then P else free_block s c)"
proof -
  have mods: "b mod BPB < BPB" "c mod BPB < BPB" by (simp_all add: BPB_def BSIZE_def)
  show ?thesis
  proof (cases "BBLOCK (of_nat c) (sb s) = BBLOCK (of_nat b) (sb s)")
    case True
    then have "c div BPB = b div BPB" using BBLOCK_eq_div [OF True] c by simp
    then have "c mod BPB = b mod BPB \<longleftrightarrow> c = b" by (metis div_mult_mod_eq)
    then show ?thesis using l(1) True g [OF mods] sb by (simp add: free_block_def)
  next
    case False
    then show ?thesis using l(2) c sb by (auto simp: free_block_def)
  qed
qed

lemma u32_le: "unat (x :: uint32) \<le> 2 ^ 32"
proof -
  have "unat x < 2 ^ LENGTH(32)" by (rule unsigned_less)
  then show ?thesis by simp
qed

section \<open>Properties of the allocator\<close>

text \<open>A file system of 200 blocks whose bitmap, block 100, marks the blocks before 150 as used.\<close>

definition fs_boot :: kfs where
  "fs_boot = (klog.extend log_boot (kfs.fields
     \<lparr>sb_magic = FSMAGIC, sb_size = 200, sb_nblocks = 50, sb_ninodes = 32, sb_nlog = 31, sb_logstart = 40, sb_inodestart = 90,
       sb_bmapstart = 100\<rparr>
     (\<lambda>_. \<lparr>idev = 0, inum = 0, iref = 0, ivalid = False, itype = 0, imajor = 0, iminor = 0, inlink = 0, isize = 0, iaddrs = \<lambda>_. 0\<rparr>)))
     \<lparr>disk := (\<lambda>_ _. 0)(100 := (\<lambda>i. if unat i < 18 then mask 8 else if unat i = 18 then mask 6 else 0))\<rparr>"

lemma fs_boot_simps [simp]:
  "sb_size (sb fs_boot) = 200" "sb_inodestart (sb fs_boot) = 90" "sb_bmapstart (sb fs_boot) = 100" "held fs_boot = []"
  "log_start fs_boot = 40" "log_outstanding fs_boot = 1" "lh_n fs_boot = 0" "log_dev fs_boot = ROOTDEV" "cur fs_boot = Some 0"
  "disk fs_boot = (\<lambda>_ _. 0)(100 := (\<lambda>i. if unat i < 18 then mask 8 else if unat i = 18 then mask 6 else 0))"
  "bufs fs_boot = bufs log_boot" "iref (itable fs_boot i) = 0"
  by (simp_all add: fs_boot_def kfs.defs log_state_defs bio_boot_simps)

lemma fs_boot_inv: "bio_inv fs_boot {} (\<lambda>_. 0)"
  unfolding bio_inv_def using log_boot_lru(1)
  by (auto simp: fs_boot_def kfs.defs ROOTDEV_def log_state_defs caches_def NBUF_def bio_boot_simps copy_vm_def intro!: exI [of _ "[0..<NBUF]"])

lemma fs_boot_open: "tx_open fs_boot {} 0 (\<lambda>_. 0)"
  using fs_boot_inv by (simp add: tx_open_def bio_free_def)

lemma fs_boot_lview [simp]: "lview fs_boot = disk fs_boot"
  by (rule ext, rule lview_uncached) (simp add: log_state_defs)

lemma fs_boot_free_block:
  assumes "b < 200" shows "free_block fs_boot b \<longleftrightarrow> 150 \<le> b"
proof -
  have "unat (of_nat b :: uint32) = b" by (rule unat_of_nat_32) (use assms in simp)
  then have "BBLOCK (of_nat b) (sb fs_boot) = 100"
    using assms by (simp add: BBLOCK_def word_unat_eq_iff unat_div BPB_def BSIZE_def unat_word_ariths)
  moreover have "unat (of_nat (b div 8) :: uint64) = b div 8" using assms by (simp add: unat_of_nat take_bit_nat_eq_self_iff)
  moreover have "b mod BPB = b" using assms by (simp add: BPB_def BSIZE_def)
  moreover have "b mod 8 < 8" by simp
  moreover have "b div 8 = 18 \<Longrightarrow> b mod 8 < 6 \<longleftrightarrow> b < 150" "b div 8 < 18 \<Longrightarrow> b < 150" "b < 150 \<Longrightarrow> b div 8 \<le> 18" by presburger+
  ultimately show ?thesis by (auto simp: free_block_def bit_free_iff bit_mask_iff)
qed

lemma fs_boot_layout: "alloc_layout fs_boot {}"
proof -
  have B: "BBLOCK (of_nat b) (sb fs_boot) = 100" if "b < 200" for b
    using that unat_of_nat_32 [of b] by (simp add: BBLOCK_def word_unat_eq_iff unat_div BPB_def BSIZE_def unat_word_ariths)
  have w: "(of_nat b :: uint32) - 40 = of_nat (b - 40)" "unat (of_nat (b - 40) :: uint32) = b - 40" "of_nat b \<noteq> (100 :: uint32)"
    if "150 \<le> b" "b < 200" for b
    using that unat_of_nat_32 [of "b - 40"] unat_of_nat_32 [of b] by (auto simp: of_nat_diff)
  show ?thesis
    unfolding alloc_layout_def using fs_boot_free_block w
    by (auto simp: B in_log_def LOGBLOCKS_def MAXOPBLOCKS_def)
qed





end
