(* ===== verification/Xv6_Inode.thy ===== *)
theory Xv6_Inode
  imports Xv6_Tx
begin

text \<open>
  Inodes on the disk and in memory (\<open>kernel/fs.c\<close>): the table of \<open>iget\<close>, and \<open>iupdate\<close> and \<open>ilock\<close>,
  which copy an inode to its block and back.
\<close>

section \<open>Structures in a block\<close>

text \<open>Two blocks that differ at most in a range of offsets.\<close>

definition outside :: "nat \<Rightarrow> nat \<Rightarrow> memory \<Rightarrow> memory \<Rightarrow> bool" where
  "outside a n m m' \<longleftrightarrow> (\<forall>x < 2 ^ 32. x < a \<or> a + n \<le> x \<longrightarrow> m' (of_nat x) = m (of_nat x))"

lemma outside_trans: "outside a n m m' \<Longrightarrow> outside a n m' m'' \<Longrightarrow> outside a n m m''"
  by (simp add: outside_def)

lemma outside_mono: "outside b k m m' \<Longrightarrow> a \<le> b \<Longrightarrow> b + k \<le> a + n \<Longrightarrow> outside a n m m'"
  by (auto simp: outside_def)

lemma outside_write: "b + length xs \<le> 2 ^ 32 \<Longrightarrow> outside b (length xs) m (write_bytes m (of_nat b) xs)"
  using write_bytes_at [of b xs _ m] by (auto simp: outside_def)

lemma outside_store:
  "b + 4 \<le> 2 ^ 32 \<Longrightarrow> outside b 4 m (store32 m (of_nat b) v)" "b + 2 \<le> 2 ^ 32 \<Longrightarrow> outside b 2 m (store16 m (of_nat b) w)"
  using outside_write [of b "bytes_le 4 (unat v)" m] outside_write [of b "bytes_le 2 (unat w)" m]
  by (simp_all add: store32_def store16_def)

lemma load_le_outside:
  assumes o: "outside a n m m'" and d: "disjoint_ranges x k a n" "x + k \<le> 2 ^ 32"
  shows "load_le m' (of_nat x) k = load_le m (of_nat x) k"
proof (rule load_le_cong)
  fix i assume i: "i < k"
  have "x + i < 2 ^ 32" "x + i < a \<or> a + n \<le> x + i" using d i by (auto simp: disjoint_ranges_def)
  then have "m' (of_nat (x + i)) = m (of_nat (x + i))" using o unfolding outside_def by blast
  then show "m' (of_nat x + of_nat i) = m (of_nat x + of_nat i)" by simp
qed

lemma load_outside:
  assumes "outside a n m m'"
  shows "disjoint_ranges x 4 a n \<Longrightarrow> x + 4 \<le> 2 ^ 32 \<Longrightarrow> load32 m' (of_nat x) = load32 m (of_nat x)"
    "disjoint_ranges x 2 a n \<Longrightarrow> x + 2 \<le> 2 ^ 32 \<Longrightarrow> load16 m' (of_nat x) = load16 m (of_nat x)"
  using load_le_outside [OF assms, of x] by (simp_all add: load32_def load16_def)

text \<open>The two halves of \<open>put_dinode\<close>: the addresses and the fields before them.\<close>

definition put_addrs :: "dinode \<Rightarrow> nat \<Rightarrow> nat \<Rightarrow> memory \<Rightarrow> memory" where
  "put_addrs d a k m = fold (\<lambda>i m. store32 m (of_nat (a + 12 + 4 * i)) (daddrs d i)) [0..<k] m"

definition put_fields :: "dinode \<Rightarrow> nat \<Rightarrow> memory \<Rightarrow> memory" where
  "put_fields d a m =
     store32 (store16 (store16 (store16 (store16 m (of_nat a) (dtype d)) (of_nat (a + 2)) (dmajor d))
       (of_nat (a + 4)) (dminor d)) (of_nat (a + 6)) (dnlink d)) (of_nat (a + 8)) (dsize d)"

lemma put_dinode_parts: "put_dinode m a d = put_addrs d a (Suc NDIRECT) (put_fields d a m)"
  unfolding put_dinode_def put_addrs_def put_fields_def ..

lemma put_addrs_spec:
  assumes "k \<le> 13" "a < 2 ^ 31"
  shows "outside (a + 12) (4 * k) m (put_addrs d a k m)" "i < k \<Longrightarrow> load32 (put_addrs d a k m) (of_nat (a + 12 + 4 * i)) = daddrs d i"
  using assms
proof (induction k arbitrary: i)
  case 0
  { case 1 then show ?case by (simp add: put_addrs_def outside_def) }
  { case 2 then show ?case by simp }
next
  case (Suc k)
  let ?m = "put_addrs d a k m" and ?x = "a + 12 + 4 * k"
  have step: "put_addrs d a (Suc k) m = store32 ?m (of_nat ?x) (daddrs d k)" by (simp add: put_addrs_def)
  { case 1
    then have o: "outside ?x 4 ?m (put_addrs d a (Suc k) m)" unfolding step by (intro outside_store) simp
    show ?case
      by (rule outside_trans [OF outside_mono [OF Suc.IH(1)] outside_mono [OF o]]) (use 1 in simp_all) }
  { case 2
    then have o: "outside ?x 4 ?m (put_addrs d a (Suc k) m)" unfolding step by (intro outside_store) simp
    show ?case
    proof (cases "i = k")
      case True then show ?thesis unfolding step by simp
    next
      case False
      then show ?thesis using load_outside(1) [OF o, of "a + 12 + 4 * i"] Suc.IH(2) [of i] 2 by (simp add: disjoint_ranges_def)
    qed }
qed

lemma put_fields_outside:
  assumes "a < 2 ^ 31" shows "outside a 12 m (put_fields d a m)"
proof -
  define m1 where "m1 = store16 m (of_nat a) (dtype d)"
  define m2 where "m2 = store16 m1 (of_nat (a + 2)) (dmajor d)"
  define m3 where "m3 = store16 m2 (of_nat (a + 4)) (dminor d)"
  define m4 where "m4 = store16 m3 (of_nat (a + 6)) (dnlink d)"
  have "outside a 2 m m1" "outside (a + 2) 2 m1 m2" "outside (a + 4) 2 m2 m3" "outside (a + 6) 2 m3 m4"
    "outside (a + 8) 4 m4 (store32 m4 (of_nat (a + 8)) (dsize d))"
    unfolding m1_def m2_def m3_def m4_def by (rule outside_store, use assms in simp)+
  from this [THEN outside_mono, of a 12]
  have "outside a 12 m m1" "outside a 12 m1 m2" "outside a 12 m2 m3" "outside a 12 m3 m4"
    "outside a 12 m4 (store32 m4 (of_nat (a + 8)) (dsize d))" by simp_all
  then have "outside a 12 m (store32 m4 (of_nat (a + 8)) (dsize d))" using outside_trans by blast
  then show ?thesis unfolding put_fields_def m4_def m3_def m2_def m1_def .
qed

lemma load_store_other:
  "disjoint_ranges a 4 b 4 \<Longrightarrow> a + 4 \<le> 2 ^ 32 \<Longrightarrow> b + 4 \<le> 2 ^ 32 \<Longrightarrow> load32 (store32 m (of_nat b) v) (of_nat a) = load32 m (of_nat a)"
  "disjoint_ranges a 2 b 4 \<Longrightarrow> a + 2 \<le> 2 ^ 32 \<Longrightarrow> b + 4 \<le> 2 ^ 32 \<Longrightarrow> load16 (store32 m (of_nat b) v) (of_nat a) = load16 m (of_nat a)"
  "disjoint_ranges a 4 b 2 \<Longrightarrow> a + 4 \<le> 2 ^ 32 \<Longrightarrow> b + 2 \<le> 2 ^ 32 \<Longrightarrow> load32 (store16 m (of_nat b) w) (of_nat a) = load32 m (of_nat a)"
  "disjoint_ranges a 2 b 2 \<Longrightarrow> a + 2 \<le> 2 ^ 32 \<Longrightarrow> b + 2 \<le> 2 ^ 32 \<Longrightarrow> load16 (store16 m (of_nat b) w) (of_nat a) = load16 m (of_nat a)"
  using load_outside [OF outside_store(1)] load_outside [OF outside_store(2)] by blast+

lemma put_fields_get:
  assumes "a < 2 ^ 31"
  shows "load16 (put_fields d a m) (of_nat a) = dtype d" "load16 (put_fields d a m) (of_nat (a + 2)) = dmajor d"
    "load16 (put_fields d a m) (of_nat (a + 4)) = dminor d" "load16 (put_fields d a m) (of_nat (a + 6)) = dnlink d"
    "load32 (put_fields d a m) (of_nat (a + 8)) = dsize d"
  using assms by (simp_all add: put_fields_def load_store_other disjoint_ranges_def del: of_nat_add add_2_eq_Suc add_2_eq_Suc')

text \<open>Inodes are equal if their fields and their 13 addresses are.\<close>

definition dinode_eq :: "dinode \<Rightarrow> dinode \<Rightarrow> bool" where
  "dinode_eq c d \<longleftrightarrow> dtype c = dtype d \<and> dmajor c = dmajor d \<and> dminor c = dminor d \<and> dnlink c = dnlink d \<and> dsize c = dsize d \<and>
     (\<forall>i \<le> NDIRECT. daddrs c i = daddrs d i)"

lemma put_dinode_outside:
  assumes "a < 2 ^ 31" shows "outside a 64 m (put_dinode m a d)"
proof -
  have "outside a 64 m (put_fields d a m)" by (rule outside_mono [OF put_fields_outside [OF assms]]) simp_all
  moreover have "outside a 64 (put_fields d a m) (put_dinode m a d)" unfolding put_dinode_parts
    by (rule outside_mono [OF put_addrs_spec(1)]) (use assms in \<open>simp_all add: NDIRECT_def\<close>)
  ultimately show ?thesis by (rule outside_trans)
qed

lemma get_put_dinode:
  assumes "a < 2 ^ 31" shows "dinode_eq (get_dinode (put_dinode m a d) a) d"
proof -
  let ?m = "put_fields d a m"
  have o: "outside (a + 12) 52 ?m (put_addrs d a 13 ?m)" using put_addrs_spec(1) [of 13 a ?m d] assms by simp
  have "load16 (put_addrs d a 13 ?m) (of_nat x) = load16 ?m (of_nat x)" if "x + 2 \<le> a + 12" for x
    by (rule load_outside(2) [OF o]) (use assms that in \<open>simp_all add: disjoint_ranges_def\<close>)
  moreover have "load32 (put_addrs d a 13 ?m) (of_nat x) = load32 ?m (of_nat x)" if "x + 4 \<le> a + 12" for x
    by (rule load_outside(1) [OF o]) (use assms that in \<open>simp_all add: disjoint_ranges_def\<close>)
  moreover have "i \<le> 12 \<Longrightarrow> load32 (put_addrs d a 13 ?m) (of_nat (a + 12 + 4 * i)) = daddrs d i" for i
    using put_addrs_spec(2) [of 13 a i d ?m] assms by simp
  ultimately show ?thesis using put_fields_get [OF assms, of d m]
    by (simp add: dinode_eq_def get_dinode_def put_dinode_parts NDIRECT_def del: of_nat_add add_2_eq_Suc add_2_eq_Suc')
qed

lemma get_dinode_outside:
  assumes "outside a 64 m m'" "a + 64 \<le> b \<or> b + 64 \<le> a" "a < 2 ^ 31" "b < 2 ^ 31"
  shows "dinode_eq (get_dinode m' b) (get_dinode m b)"
proof -
  have "load16 m' (of_nat x) = load16 m (of_nat x)" if "b \<le> x" "x + 2 \<le> b + 64" for x
    by (rule load_outside(2) [OF assms(1)]) (use assms that in \<open>auto simp: disjoint_ranges_def\<close>)
  moreover have "load32 m' (of_nat x) = load32 m (of_nat x)" if "b \<le> x" "x + 4 \<le> b + 64" for x
    by (rule load_outside(1) [OF assms(1)]) (use assms that in \<open>auto simp: disjoint_ranges_def\<close>)
  ultimately show ?thesis by (simp add: dinode_eq_def get_dinode_def NDIRECT_def del: of_nat_add add_2_eq_Suc add_2_eq_Suc')
qed

section \<open>Inodes and their blocks\<close>

text \<open>The inode with number \<open>x\<close> as the blocks have it.\<close>

definition dinode_at :: "'z kfs_scheme \<Rightarrow> uint32 \<Rightarrow> dinode" where
  "dinode_at s x = get_dinode (lview s (IBLOCK x (sb s))) (dinode_off x)"

lemma dinode_off_small: "dinode_off x < 2 ^ 31"
proof -
  have "unat x mod IPB < IPB" by (simp add: IPB_def BSIZE_def)
  then show ?thesis by (simp add: dinode_off_def IPB_def BSIZE_def)
qed

lemma dinode_off_apart:
  assumes "IBLOCK x b = IBLOCK y b" "x \<noteq> y"
  shows "dinode_off x + 64 \<le> dinode_off y \<or> dinode_off y + 64 \<le> dinode_off x"
proof -
  have "x div of_nat IPB = y div of_nat IPB" using assms(1) by (simp add: IBLOCK_def)
  moreover have "unat (of_nat IPB :: uint32) = IPB" by (simp add: IPB_def BSIZE_def)
  ultimately have "unat x div IPB = unat y div IPB" by (metis unat_div)
  moreover have "unat x \<noteq> unat y" using assms(2) by (simp add: word_unat_eq_iff)
  ultimately have "unat x mod IPB \<noteq> unat y mod IPB" by (metis div_mult_mod_eq)
  then show ?thesis by (auto simp: dinode_off_def)
qed

lemma dinode_at_put:
  assumes "lview t = (lview s)(IBLOCK x (sb s) := put_dinode (lview s (IBLOCK x (sb s))) (dinode_off x) d)" "sb t = sb s"
  shows "dinode_eq (dinode_at t x) d" "y \<noteq> x \<Longrightarrow> dinode_eq (dinode_at t y) (dinode_at s y)"
proof -
  show "dinode_eq (dinode_at t x) d" using get_put_dinode [OF dinode_off_small] assms by (simp add: dinode_at_def)
  assume y: "y \<noteq> x"
  show "dinode_eq (dinode_at t y) (dinode_at s y)"
  proof (cases "IBLOCK y (sb s) = IBLOCK x (sb s)")
    case True
    then show ?thesis using get_dinode_outside [OF put_dinode_outside [OF dinode_off_small] _ dinode_off_small dinode_off_small]
        dinode_off_apart [OF True y] assms by (auto simp: dinode_at_def)
  qed (use assms in \<open>simp add: dinode_at_def dinode_eq_def\<close>)
qed

lemma iupdate_spec:
  fixes s :: "'z kfs_scheme"
  assumes tx: "tx_open s H n pins" and rd: "LogLock \<notin> set (held s)" "1 \<le> log_outstanding s" and room: "card H + n < NBUF"
    and dev: "idev (itable s i) = ROOTDEV" and blk: "bno = IBLOCK (inum (itable s i)) (sb s)" "\<not> in_log (log_start s) bno"
      "\<forall>b \<in> H. blockno (bufs s b) \<noteq> bno"
  shows "\<exists>t n' pins'. iupdate i es s = Ok () t es \<and> tx_open t H n' pins' \<and> n' \<le> n + 1 \<and> tx_same H s t \<and>
    lview t = (lview s)(bno := put_dinode (lview s bno) (dinode_off (inum (itable s i))) (to_dinode (itable s i)))"
proof -
  let ?f = "\<lambda>d. put_dinode d (dinode_off (inum (itable s i))) (to_dinode (itable s i))"
  obtain bp s1 where 1: "bread ROOTDEV bno es s = Ok bp s1 es" "tx_same H s s1"
    "\<And>f. \<exists>u n'. buf_update f bp es s1 = Ok () u es \<and> tx_written H s bno (f (lview s bno)) n u n'"
    by (rule tx_block [OF tx blk(3) room, of es]) (use blk(2) rd in auto)
  obtain t n' where t: "buf_update ?f bp es s1 = Ok () t es" "tx_written H s bno (?f (lview s bno)) n t n'" using 1(3) by blast
  have "itable s1 = itable s" using tx_same_fs [OF 1(2)] by (simp add: fs_same_def)
  then have "iupdate i es s = Ok () t es" using 1(1) t(1) dev blk(1) by (simp add: iupdate_def buf_update_def)
  then show ?thesis using t(2) unfolding tx_written_def by auto
qed

text \<open>Locks of inodes and the inode table are no concern of the transaction.\<close>

lemma tx_open_itable [simp]:
  "tx_open (s\<lparr>itable := f\<rparr>) H n pins = tx_open s H n pins" "lview (s\<lparr>itable := f\<rparr>) = lview s"
proof -
  show "lview (s\<lparr>itable := f\<rparr>) = lview s" by (rule ext) (simp add: lview_def split: option.splits)
  have "bio_inv (s\<lparr>itable := f\<rparr>) H pins = bio_inv s H pins" "bio_free (s\<lparr>itable := f\<rparr>) = bio_free s"
    by (simp_all add: bio_inv_def bio_free_def)
  then show "tx_open (s\<lparr>itable := f\<rparr>) H n pins = tx_open s H n pins" by (simp add: tx_open_def)
qed

lemma tx_open_inode_lock [simp]:
  "tx_open (s\<lparr>slocks := (slocks s)(InodeSleep i := v)\<rparr>) H n pins = tx_open s H n pins"
  "lview (s\<lparr>slocks := (slocks s)(InodeSleep i := v)\<rparr>) = lview s"
proof -
  let ?t = "s\<lparr>slocks := (slocks s)(InodeSleep i := v)\<rparr>"
  show "lview ?t = lview s" by (rule ext) (simp add: lview_def split: option.splits)
  have "bio_inv ?t H pins = bio_inv s H pins" "bio_free ?t = bio_free s"
    by (simp_all add: bio_inv_def bio_free_def)
  then show "tx_open ?t H n pins = tx_open s H n pins" by (simp add: tx_open_def)
qed

text \<open>The in-memory inode with the fields of the one on the disk.\<close>

definition load_fields :: "inode \<Rightarrow> dinode \<Rightarrow> inode" where
  "load_fields p d = p\<lparr>itype := dtype d, imajor := dmajor d, iminor := dminor d, inlink := dnlink d, isize := dsize d,
     iaddrs := \<lambda>k. if k \<le> NDIRECT then daddrs d k else iaddrs p k\<rparr>"

definition loaded :: "inode \<Rightarrow> dinode \<Rightarrow> inode" where
  "loaded p d = (load_fields p d)\<lparr>ivalid := True\<rparr>"

lemma ilock_load_fields:
  "ilock_load i =
     kbind (inode_get i id) (\<lambda>p.
     kbind (kget (\<lambda>s. IBLOCK (inum p) (sb s))) (\<lambda>bno.
     kbind (bread (idev p) bno) (\<lambda>bp.
     kbind (buf_get bp bdata) (\<lambda>d.
     kthen (set_inode i (\<lambda>p. load_fields p (get_dinode d (dinode_off (inum p)))))
    (kthen (brelse bp)
    (kthen (set_inode i (\<lambda>p. p\<lparr>ivalid := True\<rparr>))
           (kpanic_if (\<lambda>s. itype (itable s i) = 0) ''ilock: no type'')))))))"
  unfolding ilock_load_def load_fields_def Let_def ..

lemma ilock_load_spec:
  fixes s :: "'z kfs_scheme"
  assumes tx: "tx_open s H n pins" and room: "card H + n < NBUF" and dev: "idev (itable s i) = ROOTDEV"
    and blk: "\<forall>b \<in> H. blockno (bufs s b) \<noteq> IBLOCK (inum (itable s i)) (sb s)"
  shows "\<exists>t. ilock_load i es s = (if dtype (dinode_at s (inum (itable s i))) = 0 then Panic ''ilock: no type'' else Ok () t es) \<and>
    tx_open t H n pins \<and> lview t = lview s \<and> sb t = sb s \<and> held t = held s \<and> slocks t (InodeSleep j) = slocks s (InodeSleep j) \<and>
    itable t = (itable s)(i := loaded (itable s i) (dinode_at s (inum (itable s i))))"
proof -
  let ?B = "IBLOCK (inum (itable s i)) (sb s)" and ?d = "dinode_at s (inum (itable s i))"
  obtain b s1 where 1: "bread ROOTDEV ?B es s = Ok b s1 es" "b \<notin> H" "tx_open s1 (insert b H) n pins" "bdata (bufs s1 b) = lview s ?B"
    "lview s1 = lview s" "tx_frame s s1" "0 < pins b \<or> bdata (bufs s1 b) = disk s1 (blockno (bufs s1 b))"
    using tx_open_read [OF tx blk room, of es] by blast
  define s2 where "s2 = s1\<lparr>itable := (itable s1)(i := load_fields (itable s1 i) ?d)\<rparr>"
  have 2: "tx_open s2 (insert b H) n pins" "0 < pins b \<or> bdata (bufs s2 b) = disk s2 (blockno (bufs s2 b))" "lview s2 = lview s1"
    using 1(3,7) by (simp_all add: s2_def)
  obtain s3 where 3: "brelse b es s2 = Ok () s3 es" "tx_open s3 (insert b H - {b}) n pins" "lview s3 = lview s2" "tx_frame s2 s3"
    using tx_open_brelse [OF 2(1) _ 2(2), of es] by auto
  have it: "itable s1 = itable s" "sb s1 = sb s" "itable s3 = itable s2" "sb s3 = sb s2" "held s3 = held s" "held s1 = held s"
    using tx_frame_fs [OF 1(6)] tx_frame_fs [OF 3(4)] tx_frame_simps [OF 1(6)] tx_frame_simps [OF 3(4)] by (simp_all add: s2_def)
  define t where "t = s3\<lparr>itable := (itable s3)(i := (itable s3 i)\<lparr>ivalid := True\<rparr>)\<rparr>"
  have "slocks s1 (InodeSleep j) = slocks s (InodeSleep j)" "slocks s3 (InodeSleep j) = slocks s2 (InodeSleep j)"
    using 1(6) 3(4) by (simp_all add: tx_frame_def)
  then have sl: "slocks t (InodeSleep j) = slocks s (InodeSleep j)" by (simp add: t_def s2_def)
  have tt: "itable t = (itable s)(i := loaded (itable s i) ?d)" "lview t = lview s" "sb t = sb s" "held t = held s" "tx_open t H n pins"
    using it 1(5) 2(3) 3 1(2) by (auto simp: t_def s2_def loaded_def fun_eq_iff)
  have "ilock_load i es s = kpanic_if (\<lambda>s. itype (itable s i) = 0) ''ilock: no type'' es t"
    using 1(1,4) 3(1) dev it
    by (simp add: ilock_load_fields t_def s2_def dinode_at_def)
  also have "\<dots> = (if dtype ?d = 0 then Panic ''ilock: no type'' else Ok () t es)"
    using tt(1) by (simp add: kpanic_if_def loaded_def load_fields_def)
  finally show ?thesis using tt sl by blast
qed

lemma ilock_spec:
  fixes s :: "'z kfs_scheme"
  assumes tx: "tx_open s H n pins" and room: "card H + n < NBUF" and dev: "idev (itable s i) = ROOTDEV"
    and blk: "\<forall>b \<in> H. blockno (bufs s b) \<noteq> IBLOCK (inum (itable s i)) (sb s)"
    and i: "1 \<le> iref (itable s i)" "\<not> slocked (slocks s (InodeSleep i))" "\<not> ivalid (itable s i)"
  shows "\<exists>t. ilock (Some i) es s = (if dtype (dinode_at s (inum (itable s i))) = 0 then Panic ''ilock: no type'' else Ok () t es) \<and>
    tx_open t H n pins \<and> lview t = lview s \<and> slocked (slocks t (InodeSleep i)) \<and>
    itable t = (itable s)(i := loaded (itable s i) (dinode_at s (inum (itable s i))))"
proof -
  have "bio_free s" using tx_openD(2) [OF tx] .
  then obtain p where p: "cur s = Some p" "SleepLk (InodeSleep i) \<notin> set (held s)" by (auto simp: bio_free_def)
  define s1 where "s1 = s\<lparr>slocks := (slocks s)(InodeSleep i := \<lparr>slocked = True, slpid = pid (procs s p)\<rparr>)\<rparr>"
  have s1: "acquiresleep (InodeSleep i) es s = Ok () s1 es" unfolding s1_def by (rule acquiresleep_Ok [OF p(1) i(2) p(2)])
  have f: "itable s1 = itable s" "sb s1 = sb s" "bufs s1 = bufs s" "lview s1 = lview s" "dinode_at s1 = dinode_at s"
    by (simp_all add: s1_def dinode_at_def [abs_def])
  have "tx_open s1 H n pins" using tx by (simp add: s1_def)
  from ilock_load_spec [OF this room, of i es i] dev blk
  obtain t where t: "ilock_load i es s1 = (if dtype (dinode_at s (inum (itable s i))) = 0 then Panic ''ilock: no type'' else Ok () t es)"
    "tx_open t H n pins" "lview t = lview s" "slocks t (InodeSleep i) = slocks s1 (InodeSleep i)"
    "itable t = (itable s)(i := loaded (itable s i) (dinode_at s (inum (itable s i))))"
    unfolding f by blast
  have "ilock (Some i) es s = ilock_load i es s1" using s1 i f(1) by (simp add: ilock_def)
  then show ?thesis using t by (intro exI [of _ t]) (simp add: s1_def)
qed

section \<open>The inode table\<close>

definition itable_ok :: "(nat \<Rightarrow> inode) \<Rightarrow> bool" where
  "itable_ok f \<longleftrightarrow> (\<forall>i < NINODE. 0 \<le> iref (f i)) \<and>
     (\<forall>i < NINODE. \<forall>j < NINODE. 0 < iref (f i) \<longrightarrow> 0 < iref (f j) \<longrightarrow> idev (f i) = idev (f j) \<longrightarrow> inum (f i) = inum (f j) \<longrightarrow> i = j)"

definition active :: "(nat \<Rightarrow> inode) \<Rightarrow> uint32 \<Rightarrow> uint32 \<Rightarrow> nat \<Rightarrow> bool" where
  "active f dev ino i \<longleftrightarrow> i < NINODE \<and> 0 < iref (f i) \<and> idev (f i) = dev \<and> inum (f i) = ino"

lemma iget_scan_spec:
  "(case iget_scan f dev ino em i of
      Inl j \<Rightarrow> active f dev ino j
    | Inr r \<Rightarrow> (\<forall>j \<ge> i. \<not> active f dev ino j) \<and>
        (case r of None \<Rightarrow> em = None \<and> (\<forall>j. i \<le> j \<longrightarrow> j < NINODE \<longrightarrow> iref (f j) \<noteq> 0)
         | Some j \<Rightarrow> em = Some j \<or> em = None \<and> j < NINODE \<and> iref (f j) = 0))"
proof (induction f dev ino em i rule: iget_scan.induct)
  case (1 f dev ino em i)
  have step: "i \<le> j \<longleftrightarrow> j = i \<or> Suc i \<le> j" for j by auto
  show ?case
  proof (cases "i < NINODE \<and> \<not> (iref (f i) > 0 \<and> idev (f i) = dev \<and> inum (f i) = ino)")
    case True
    then have "\<not> active f dev ino i" by (auto simp: active_def)
    then show ?thesis using 1 True
      by (subst iget_scan.simps) (auto simp: step split: sum.splits option.splits if_splits)
  qed (subst iget_scan.simps, auto simp: active_def split: option.splits)
qed

lemma iget_run:
  assumes "ItableLock \<notin> set (held s)"
  shows "iget dev ino es s = (case iget_scan (itable s) dev ino None 0 of
     Inl j \<Rightarrow> Ok j (s\<lparr>itable := (itable s)(j := (itable s j)\<lparr>iref := iref (itable s j) + 1\<rparr>)\<rparr>) es
   | Inr None \<Rightarrow> Panic ''iget: no inodes''
   | Inr (Some j) \<Rightarrow> Ok j (s\<lparr>itable := (itable s)(j := (itable s j)\<lparr>idev := dev, inum := ino, iref := 1, ivalid := False\<rparr>)\<rparr>) es)"
  using assms by (simp add: iget_def split: sum.splits option.splits)

text \<open>What \<open>iget\<close> promises of the entry \<open>i\<close> that it returns and of the table.\<close>

definition iget_result :: "'z kfs_scheme \<Rightarrow> uint32 \<Rightarrow> uint32 \<Rightarrow> nat \<Rightarrow> 'z kfs_scheme \<Rightarrow> bool" where
  "iget_result s dev ino i t \<longleftrightarrow>
     active (itable t) dev ino i \<and> itable_ok (itable t) \<and> (\<forall>k. k \<noteq> i \<longrightarrow> itable t k = itable s k) \<and> t = s\<lparr>itable := itable t\<rparr> \<and>
     (if active (itable s) dev ino i then itable t i = (itable s i)\<lparr>iref := iref (itable s i) + 1\<rparr>
      else (\<forall>k. \<not> active (itable s) dev ino k) \<and> iref (itable s i) = 0 \<and> iref (itable t i) = 1 \<and> \<not> ivalid (itable t i))"

lemma itable_okD:
  assumes "itable_ok f"
  shows "i < NINODE \<Longrightarrow> 0 \<le> iref (f i)"
    "i < NINODE \<Longrightarrow> j < NINODE \<Longrightarrow> 0 < iref (f i) \<Longrightarrow> 0 < iref (f j) \<Longrightarrow> idev (f i) = idev (f j) \<Longrightarrow> inum (f i) = inum (f j) \<Longrightarrow> i = j"
  using assms unfolding itable_ok_def by blast+

lemma itable_ok_take:
  assumes "itable_ok f" "\<forall>k. \<not> active f dev ino k"
  shows "itable_ok (f(i := (f i)\<lparr>idev := dev, inum := ino, iref := 1, ivalid := False\<rparr>))" (is "itable_ok ?g")
  unfolding itable_ok_def
proof (intro conjI allI impI)
  show "0 \<le> iref (?g k)" if "k < NINODE" for k using itable_okD(1) [OF assms(1) that] by simp
  fix a b assume ab: "a < NINODE" "b < NINODE" "0 < iref (?g a)" "0 < iref (?g b)" "idev (?g a) = idev (?g b)" "inum (?g a) = inum (?g b)"
  have "k = i \<or> \<not> (idev (f k) = dev \<and> inum (f k) = ino)" if "k < NINODE" "0 < iref (?g k)" for k
    using assms(2) that unfolding active_def by (cases "k = i") auto
  then show "a = b" using ab itable_okD(2) [OF assms(1) ab(1,2)] by (cases "a = i"; cases "b = i") force+
qed

lemma itable_ok_ref:
  assumes "itable_ok f" "0 < iref (f i)" shows "itable_ok (f(i := (f i)\<lparr>iref := iref (f i) + 1\<rparr>))" (is "itable_ok ?g")
  unfolding itable_ok_def
proof (intro conjI allI impI)
  show "0 \<le> iref (?g k)" if "k < NINODE" for k using itable_okD(1) [OF assms(1) that] assms(2) by auto
  have eq: "idev (?g k) = idev (f k)" "inum (?g k) = inum (f k)" "0 < iref (?g k) \<Longrightarrow> 0 < iref (f k)" for k
    using assms(2) by (auto split: if_splits)
  fix a b assume "a < NINODE" "b < NINODE" "0 < iref (?g a)" "0 < iref (?g b)" "idev (?g a) = idev (?g b)" "inum (?g a) = inum (?g b)"
  then show "a = b" using itable_okD(2) [OF assms(1)] unfolding eq(1,2) by (blast dest: eq(3))
qed

section \<open>Properties of inodes\<close>



text \<open>
  C22: \<open>iget\<close> returns the table entry of the inode if there is one, with one more reference; otherwise it
  takes an entry without references for it, to be loaded later; and it panics exactly if there is neither.
  No other entry changes, and no inode ever has two entries.
\<close>

theorem iget_correct:
  fixes s :: "'z kfs_scheme"
  assumes ok: "itable_ok (itable s)" and free: "ItableLock \<notin> set (held s)"
  shows "if (\<exists>i. active (itable s) dev ino i) \<or> (\<exists>i < NINODE. iref (itable s i) = 0)
    then \<exists>i t. iget dev ino es s = Ok i t es \<and> iget_result s dev ino i t
    else iget dev ino es s = Panic ''iget: no inodes''"
proof (cases "iget_scan (itable s) dev ino None 0")
  case (Inl i)
  then have a: "active (itable s) dev ino i" using iget_scan_spec [where f = "itable s" and em = None and i = 0 and dev = dev and ino = ino] by simp
  let ?f = "(itable s)(i := (itable s i)\<lparr>iref := iref (itable s i) + 1\<rparr>)"
  have "itable_ok ?f" using itable_ok_ref [OF ok] a by (simp add: active_def)
  then have "iget_result s dev ino i (s\<lparr>itable := ?f\<rparr>)" using a by (simp add: iget_result_def active_def)
  then show ?thesis using a iget_run [OF free, of dev ino es] Inl by auto
next
  case (Inr r)
  then have no: "\<forall>j. \<not> active (itable s) dev ino j"
    and r: "case r of None \<Rightarrow> \<forall>j < NINODE. iref (itable s j) \<noteq> 0 | Some j \<Rightarrow> j < NINODE \<and> iref (itable s j) = 0"
    using iget_scan_spec [where f = "itable s" and em = None and i = 0 and dev = dev and ino = ino] by (auto split: option.splits)
  show ?thesis
  proof (cases r)
    case None
    then show ?thesis using iget_run [OF free, of dev ino es] Inr no r by auto
  next
    case (Some i)
    let ?f = "(itable s)(i := (itable s i)\<lparr>idev := dev, inum := ino, iref := 1, ivalid := False\<rparr>)"
    have "iget_result s dev ino i (s\<lparr>itable := ?f\<rparr>)"
      using itable_ok_take [OF ok no] no r Some by (simp add: iget_result_def active_def)
    then show ?thesis using iget_run [OF free, of dev ino es] Inr r Some by auto
  qed
qed

theorem iget_correct_witness:
  "\<exists>i t u. iget ROOTDEV 5 [] fs_boot = Ok i t [] \<and> iget ROOTDEV 5 [] t = Ok i u [] \<and> iref (itable u i) = 2"
proof -
  have ok: "itable_ok (itable fs_boot)" by (simp add: itable_ok_def)
  have ex: "\<exists>i < NINODE. iref (itable fs_boot i) = 0" by (intro exI [of _ 0]) (simp add: NINODE_def)
  obtain i t where t: "iget ROOTDEV 5 [] fs_boot = Ok i t []" "iget_result fs_boot ROOTDEV 5 i t"
    using iget_correct [OF ok, of ROOTDEV 5 "[]"] ex by auto
  have t': "itable_ok (itable t)" "active (itable t) ROOTDEV 5 i" "held t = []" "iref (itable t i) = 1"
    using t(2) by (auto simp: iget_result_def active_def dest: arg_cong [where f = held])
  then obtain j u where u: "iget ROOTDEV 5 [] t = Ok j u []" "iget_result t ROOTDEV 5 j u"
    using iget_correct [of t ROOTDEV 5 "[]"] exI [of "active (itable t) ROOTDEV 5" i] by auto
  then have "active (itable t) ROOTDEV 5 j" using t'(2) unfolding iget_result_def by metis
  then have "j = i" using t'(1,2) by (auto simp: itable_ok_def active_def)
  then show ?thesis using t(1) u t'(2,4) by (auto simp: iget_result_def)
qed

end
