(* ===== verification/Xv6_Frame.thy ===== *)
theory Xv6_Frame
  imports Xv6_Nosleep
begin

text \<open>
  Routines of the page allocator and of the page tables change the memory and the free list and
  nothing else of the kernel's state, whatever layers that state has on top: \<open>mem_only\<close>. The layers
  above rely on it for what they keep of their own fields across a copy.
\<close>

definition low_frame :: "'z kmem_scheme \<Rightarrow> 'z kmem_scheme \<Rightarrow> bool" where
  "low_frame s t \<longleftrightarrow> t = s\<lparr>mem := mem t, freelist := freelist t\<rparr>"

lemma low_frame_refl [simp]: "low_frame s s"
  by (simp add: low_frame_def)

lemma low_frame_upd [simp]: "low_frame s (s\<lparr>mem := m\<rparr>)" "low_frame s (s\<lparr>freelist := l\<rparr>)" "low_frame s (s\<lparr>mem := m, freelist := l\<rparr>)"
  by (simp_all add: low_frame_def)

lemma low_frame_trans: "low_frame s t \<Longrightarrow> low_frame t u \<Longrightarrow> low_frame s u"
  unfolding low_frame_def by (metis kmem.fold_congs(1,2) kmem.unfold_congs(1,2) kmem.update_convs(1,2) kmem.surjective)

definition mem_only_at :: "('z kmem_scheme, 'a) km \<Rightarrow> ('z kmem_scheme \<Rightarrow> 'z kmem_scheme) list \<Rightarrow> 'z kmem_scheme \<Rightarrow> bool" where
  "mem_only_at m es s \<longleftrightarrow> (case m es s of Ok x t es' \<Rightarrow> low_frame s t \<and> es' = es | Panic _ \<Rightarrow> True | Asleep _ \<Rightarrow> False)"

definition mem_only :: "('z kmem_scheme, 'a) km \<Rightarrow> bool" where
  "mem_only m \<longleftrightarrow> (\<forall>es s. mem_only_at m es s)"

named_theorems mem_only_rule \<open>routines that change only the memory\<close>

lemma mem_onlyD: "mem_only m \<Longrightarrow> m es s = Ok x t es' \<Longrightarrow> low_frame s t"
  unfolding mem_only_def mem_only_at_def by (force dest: spec [of _ es] spec [of _ s])

lemma mem_onlyI: "(\<And>es s. mem_only_at m es s) \<Longrightarrow> mem_only m"
  by (simp add: mem_only_def)

lemma mem_only_at: "mem_only m \<Longrightarrow> mem_only_at m es s"
  by (simp add: mem_only_def)

lemma mem_only_at_bind:
  "mem_only_at m es s \<Longrightarrow> (\<And>x t. m es s = Ok x t es \<Longrightarrow> mem_only_at (f x) es t) \<Longrightarrow> mem_only_at (kbind m f) es s"
  by (fastforce simp: mem_only_at_def kbind_def split: kres.splits elim: low_frame_trans)

lemma mem_only_at_then:
  "mem_only_at m es s \<Longrightarrow> (\<And>x t. m es s = Ok x t es \<Longrightarrow> mem_only_at n es t) \<Longrightarrow> mem_only_at (kthen m n) es s"
  unfolding kthen_def by (rule mem_only_at_bind)

lemma mem_only_at_if: "(c \<Longrightarrow> mem_only_at m es s) \<Longrightarrow> (\<not> c \<Longrightarrow> mem_only_at n es s) \<Longrightarrow> mem_only_at (kif c m n) es s"
  by (simp add: mem_only_at_def kif_def)

lemma mem_only_at_prod:
  "(\<And>x y. v = (x, y) \<Longrightarrow> mem_only_at (f x y) es s) \<Longrightarrow> mem_only_at (case v of (x, y) \<Rightarrow> f x y) es s"
  by (cases v) simp

lemma mem_only_at_eqI: "m es s = n es s \<Longrightarrow> mem_only_at n es s \<Longrightarrow> mem_only_at m es s"
  by (simp add: mem_only_at_def)

lemmas mem_only_at_rules = mem_only_at_bind mem_only_at_then mem_only_at_if mem_only_at_prod

lemma mem_only_basic [mem_only_rule]:
  "mem_only (kret x)" "mem_only (kpanic p)" "mem_only (kget g)" "mem_only (kpanic_if c p)"
  "mem_only (kmod (\<lambda>s. s\<lparr>mem := f s\<rparr>))" "mem_only (kmod (\<lambda>s. s\<lparr>freelist := h s\<rparr>))"
  by (simp_all add: mem_only_def mem_only_at_def kpanic_if_def)

lemma mem_only_bind [mem_only_rule]: "mem_only m \<Longrightarrow> (\<And>x. mem_only (f x)) \<Longrightarrow> mem_only (kbind m f)"
  by (intro mem_onlyI mem_only_at_bind) (simp_all add: mem_only_def)

lemma mem_only_then [mem_only_rule]: "mem_only m \<Longrightarrow> mem_only n \<Longrightarrow> mem_only (kthen m n)"
  by (simp add: kthen_def mem_only_bind)

lemma mem_only_kif [mem_only_rule]: "mem_only m \<Longrightarrow> mem_only n \<Longrightarrow> mem_only (kif c m n)"
  by (intro mem_onlyI mem_only_at_if) (simp_all add: mem_only_def)

lemma mem_only_if [mem_only_rule]: "mem_only m \<Longrightarrow> mem_only n \<Longrightarrow> mem_only (if c then m else n)"
  by simp

lemma mem_only_option [mem_only_rule]:
  "mem_only m \<Longrightarrow> (\<And>x. mem_only (f x)) \<Longrightarrow> mem_only (case v of None \<Rightarrow> m | Some x \<Rightarrow> f x)"
  by (cases v) simp_all

lemma mem_only_prod [mem_only_rule]: "(\<And>x y. mem_only (f x y)) \<Longrightarrow> mem_only (case v of (x, y) \<Rightarrow> f x y)"
  by (cases v) simp

lemma mem_only_pages [mem_only_rule]: "mem_only kalloc" "mem_only (kfree p)"
proof -
  have "mem_only_at kalloc es s" for es and s :: "'z kmem_scheme"
    by (auto simp: mem_only_at_def kalloc_def acquire_def release_def kpanic_if_def kthen_def kbind_def low_frame_def split: kres.splits if_splits)
  then show "mem_only (kalloc :: ('z kmem_scheme, addr) km)" by (rule mem_onlyI)
  have "mem_only_at (kfree p) es s" for es and s :: "'y kmem_scheme"
    by (auto simp: mem_only_at_def kfree_def acquire_def release_def kpanic_if_def kthen_def kbind_def low_frame_def split: kres.splits if_splits)
  then show "mem_only (kfree p :: ('y kmem_scheme, unit) km)" by (rule mem_onlyI)
qed

lemma mem_only_walk_levels [mem_only_rule]: "mem_only (walk_levels l pt va al)"
  by (induction l arbitrary: pt) (simp_all add: mem_only_rule)

lemma mem_only_walk [mem_only_rule]: "mem_only (walk pt va al)"
  unfolding walk_def by (intro mem_only_rule)

lemma mem_only_walkaddr [mem_only_rule]: "mem_only (walkaddr pt va)" "mem_only (ismapped pt va)"
  unfolding walkaddr_def ismapped_def by (intro mem_only_rule)+

lemma mem_only_mappages_loop [mem_only_rule]: "mem_only (mappages_loop pt a b pa perm)"
proof (rule mem_onlyI)
  fix es s
  show "mem_only_at (mappages_loop pt a b pa perm) es s"
  proof (induction pt a b pa perm es s rule: mappages_loop.induct)
    case (1 pt a b pa perm es s)
    show ?case
      by (rule mem_only_at_eqI, rule mappages_loop.simps, intro mem_only_at_rules; (rule 1; assumption | rule mem_only_at, rule mem_only_rule))
  qed
qed

lemma mem_only_mappages [mem_only_rule]: "mem_only (mappages pt va sz pa perm)"
  unfolding mappages_def by (intro mem_only_rule)

lemma mem_only_myproc [mem_only_rule]: "mem_only myproc" "mem_only myproc_deref"
  unfolding myproc_deref_def myproc_def by (intro mem_only_rule)+

lemma mem_only_vmfault [mem_only_rule]: "mem_only (vmfault pt va rd)"
  unfolding vmfault_def by (intro mem_only_rule)

lemma mem_only_copyin [mem_only_rule]: "mem_only (copyin pt va n)"
proof (rule mem_onlyI)
  fix es s
  show "mem_only_at (copyin pt va n) es s"
  proof (induction pt va n es s rule: copyin.induct)
    case (1 pt va n es s)
    show ?case
      by (rule mem_only_at_eqI, rule copyin.simps, intro mem_only_at_rules; (rule 1; assumption | rule mem_only_at, intro mem_only_rule))
  qed
qed

lemma mem_only_copyout [mem_only_rule]: "mem_only (copyout pt va bs)"
proof (rule mem_onlyI)
  fix es s
  show "mem_only_at (copyout pt va bs) es s"
  proof (induction pt va bs es s rule: copyout.induct)
    case (1 pt va bs es s)
    show ?case
      by (rule mem_only_at_eqI, rule copyout.simps, intro mem_only_at_rules; (rule 1; assumption | rule mem_only_at, intro mem_only_rule))
  qed
qed

end
