(* ===== verification/Xv6_Pipe.thy ===== *)
theory Xv6_Pipe
  imports Xv6_Frame Xv6_File Xv6_Ring Xv6_Tx
begin

text \<open>
  Pipes as bounded queues of bytes: the interface of the ring buffer, for the pipe's array, and what
  \<open>pipewrite\<close> and \<open>piperead\<close> do to the contents of the pipe and to the user's memory.
\<close>

interpretation pipe_ring: ring PIPESIZE
  by unfold_locales (simp_all add: PIPESIZE_def)

definition pipe_bytes :: "pipe \<Rightarrow> byte list" where
  "pipe_bytes x = ring_list PIPESIZE (pdata x) (nread x) (nwrite x)"

definition pipe_ok :: "pipe \<Rightarrow> bool" where
  "pipe_ok x \<longleftrightarrow> unat (nwrite x - nread x) \<le> PIPESIZE"

lemma length_pipe_bytes: "length (pipe_bytes x) = unat (nwrite x - nread x)"
  by (simp add: pipe_bytes_def)

lemma pipe_full_iff:
  assumes "pipe_ok x" shows "nwrite x = nread x + of_nat PIPESIZE \<longleftrightarrow> length (pipe_bytes x) = PIPESIZE"
proof
  assume "length (pipe_bytes x) = PIPESIZE"
  then have "of_nat (unat (nwrite x - nread x)) = (of_nat PIPESIZE :: uint32)" by (simp add: length_pipe_bytes)
  then show "nwrite x = nread x + of_nat PIPESIZE" by (simp add: algebra_simps)
qed (simp add: length_pipe_bytes PIPESIZE_def)

lemma pipe_empty_iff: "nread x = nwrite x \<longleftrightarrow> pipe_bytes x = []"
  by (simp add: pipe_bytes_def ring_list_Nil)

text \<open>The effects of one byte.\<close>

definition put :: "byte \<Rightarrow> pipe \<Rightarrow> pipe" where
  "put ch x = x\<lparr>pdata := (pdata x)(unat (nwrite x) mod PIPESIZE := ch), nwrite := nwrite x + 1\<rparr>"

definition took :: "pipe \<Rightarrow> pipe" where
  "took x = x\<lparr>nread := nread x + 1\<rparr>"

lemma pipe_put_Ok: "pipe_put pi ch es s = Ok () (s\<lparr>pipes := (pipes s)(pi := put ch (pipes s pi))\<rparr>) es"
  by (simp add: pipe_put_def put_def)

lemma pipe_take_Ok:
  "pipe_take pi es s = Ok (pdata (pipes s pi) (unat (nread (pipes s pi)) mod PIPESIZE)) (s\<lparr>pipes := (pipes s)(pi := took (pipes s pi))\<rparr>) es"
  by (simp add: pipe_take_def took_def)

lemma put_fields [simp]: "readopen (put ch x) = readopen x" "writeopen (put ch x) = writeopen x"
  "readopen (took x) = readopen x" "writeopen (took x) = writeopen x"
  by (simp_all add: put_def took_def)

lemma put_bytes:
  assumes "length (pipe_bytes x) < PIPESIZE" shows "pipe_bytes (put ch x) = pipe_bytes x @ [ch]"
  using pipe_ring.push [of "nwrite x" "nread x" "pdata x" ch] assms by (simp add: pipe_bytes_def put_def)

lemma put_ok:
  assumes "length (pipe_bytes x) < PIPESIZE" shows "pipe_ok (put ch x)"
  using put_bytes [OF assms, of ch] assms unfolding pipe_ok_def length_pipe_bytes [symmetric] by simp

lemma took_bytes:
  assumes "pipe_bytes x \<noteq> []"
  shows "pipe_bytes x = pdata x (unat (nread x) mod PIPESIZE) # pipe_bytes (took x)"
  using pipe_ring.pop [of "nread x" "nwrite x" "pdata x"] assms pipe_empty_iff [of x] by (simp add: pipe_bytes_def took_def)

lemma took_ok:
  assumes "pipe_ok x" "pipe_bytes x \<noteq> []" shows "pipe_ok (took x)"
  using took_bytes [OF assms(2)] assms(1) unfolding pipe_ok_def length_pipe_bytes [symmetric] by (cases "pipe_bytes x") auto

section \<open>The user's memory\<close>

lemma uproc_ok_pipes [simp]: "uproc_ok (s\<lparr>pipes := f\<rparr>) xs root sz = uproc_ok s xs root sz"
  by (simp add: uproc_ok_def uvm_ok_def vm_ok_def kmem_ok_def)

lemma uproc_ok_held [simp]: "KmemLock \<notin> set (held s) \<Longrightarrow> KmemLock \<notin> set h \<Longrightarrow> uproc_ok (s\<lparr>held := h\<rparr>) xs root sz = uproc_ok s xs root sz"
  by (simp add: uproc_ok_def uvm_ok_def vm_ok_def kmem_ok_def)

text \<open>Bytes that are in mapped pages of the user, and which the user may write.\<close>

definition ubytes :: "'z kproc_scheme \<Rightarrow> addr \<Rightarrow> uint64 \<Rightarrow> uint64 \<Rightarrow> byte list \<Rightarrow> bool" where
  "ubytes s root sz va bs \<longleftrightarrow>
     (\<forall>k < length bs. vpte (mem s) root (page_no (va + of_nat k)) AND PTE_V \<noteq> 0 \<and> uview (mem s) root sz (va + of_nat k) = Some (bs ! k))"

definition uwritable :: "'z kproc_scheme \<Rightarrow> addr \<Rightarrow> uint64 \<Rightarrow> uint64 \<Rightarrow> nat \<Rightarrow> bool" where
  "uwritable s root sz va n \<longleftrightarrow>
     (\<forall>k < n. vpte (mem s) root (page_no (va + of_nat k)) AND PTE_V \<noteq> 0 \<and> vpte (mem s) root (page_no (va + of_nat k)) AND PTE_W \<noteq> 0 \<and>
        uview (mem s) root sz (va + of_nat k) \<noteq> None)"

lemma copyin_byte:
  fixes s :: "'z kproc_scheme"
  assumes "uproc_ok s xs root sz" "vpte (mem s) root (page_no va) AND PTE_V \<noteq> 0" "uview (mem s) root sz va = Some b"
  shows "\<exists>t ys. copyin root va 1 es s = Ok (0, [b]) t es \<and> uproc_ok t ys root sz \<and> vm_mono (mem s) (mem t) root \<and>
    uview (mem t) root sz = uview (mem s) root sz \<and> low_frame s t"
proof -
  from copyin_spec [OF assms(1), of va 1 es] obtain r bs t ys where t: "copyin root va 1 es s = Ok (r, bs) t es" "uproc_ok t ys root sz"
    "vm_mono (mem s) (mem t) root" "uview (mem t) root sz = uview (mem s) root sz" "length bs \<le> 1"
    "map Some bs = uread (uview (mem s) root sz) va (length bs)"
    and r: "r = 0 \<and> length bs = 1 \<or> r = - 1 \<and> length bs < 1 \<and> (uview (mem s) root sz (va + of_nat (length bs)) = None \<or>
       length ys \<le> 1 \<and> vpte (mem s) root (page_no (va + of_nat (length bs))) AND PTE_V = 0)" by blast
  have "r = 0" "length bs = 1" using r assms(2,3) by auto
  then have "bs = [b]" using t(6) assms(3) by (cases bs) (auto simp: uread_def)
  then show ?thesis using t \<open>r = 0\<close> mem_onlyD [OF mem_only_copyin t(1)] by blast
qed

lemma copyout_byte:
  fixes s :: "'z kproc_scheme"
  assumes "uproc_ok s xs root sz" "vpte (mem s) root (page_no va) AND PTE_V \<noteq> 0" "vpte (mem s) root (page_no va) AND PTE_W \<noteq> 0"
    "uview (mem s) root sz va \<noteq> None"
  shows "\<exists>t ys. copyout root va [b] es s = Ok 0 t es \<and> uproc_ok t ys root sz \<and> vm_mono (mem s) (mem t) root \<and>
    uview (mem t) root sz = uwrite (uview (mem s) root sz) va [b] \<and> low_frame s t"
proof -
  from copyout_spec [OF assms(1), of "[b]" va es] obtain r k t ys where t: "copyout root va [b] es s = Ok r t es" "uproc_ok t ys root sz"
    "vm_mono (mem s) (mem t) root" "uview (mem t) root sz = uwrite (uview (mem s) root sz) va (take k [b])"
    and r: "r = 0 \<and> k = 1 \<or> r = - 1 \<and> k < 1 \<and> (uview (mem t) root sz (va + of_nat k) = None \<or>
       length ys \<le> 1 \<and> vpte (mem s) root (page_no (va + of_nat k)) AND PTE_V = 0 \<or> vpte (mem t) root (page_no (va + of_nat k)) AND PTE_W = 0)"
    by auto
  have "vpte (mem t) root (page_no va) = vpte (mem s) root (page_no va)" using t(3) assms(2) by (simp add: vm_mono_def)
  then have "r = 0 \<and> k = 1" using r t(4) assms(2-4) by auto
  then show ?thesis using t mem_onlyD [OF mem_only_copyout t(1)] by auto
qed

section \<open>Writing\<close>

text \<open>What the loops change: the pipe, the memory and the free list.\<close>

definition pipe_frame :: "addr \<Rightarrow> 'z kfile_scheme \<Rightarrow> 'z kfile_scheme \<Rightarrow> bool" where
  "pipe_frame pi s t \<longleftrightarrow> t = s\<lparr>mem := mem t, freelist := freelist t, pipes := (pipes s)(pi := pipes t pi)\<rparr>"

lemma pipe_frame_simps:
  assumes "pipe_frame pi s t" shows "held t = held s" "cur t = cur s" "procs t = procs s" "q \<noteq> pi \<Longrightarrow> pipes t q = pipes s q"
proof -
  have t: "t = s\<lparr>mem := mem t, freelist := freelist t, pipes := (pipes s)(pi := pipes t pi)\<rparr>" using assms by (simp add: pipe_frame_def)
  show "held t = held s" "cur t = cur s" "procs t = procs s" "q \<noteq> pi \<Longrightarrow> pipes t q = pipes s q" by (subst t, simp)+
qed

lemma pipe_frame_refl [simp]: "pipe_frame pi s s"
  by (simp add: pipe_frame_def)

lemma pipe_frame_step:
  fixes s t u :: "'z kfile_scheme"
  assumes "low_frame s t" "pipe_frame pi (t\<lparr>pipes := (pipes t)(pi := x)\<rparr>) u" shows "pipe_frame pi s u"
proof -
  have t: "t = s\<lparr>mem := mem t, freelist := freelist t\<rparr>" using assms(1) by (simp add: low_frame_def)
  have u: "u = t\<lparr>mem := mem u, freelist := freelist u, pipes := (pipes t)(pi := pipes u pi)\<rparr>" using assms(2) by (simp add: pipe_frame_def)
  have "pipes t = pipes s" by (subst t) simp
  then show ?thesis unfolding pipe_frame_def by (subst u, subst t) simp
qed

lemma pipe_frame_low:
  fixes s t u :: "'z kfile_scheme"
  assumes "low_frame (s\<lparr>pipes := (pipes s)(pi := x)\<rparr>) t" "pipe_frame pi t u" shows "pipe_frame pi s u"
proof -
  have t: "t = s\<lparr>pipes := (pipes s)(pi := x), mem := mem t, freelist := freelist t\<rparr>" using assms(1) by (simp add: low_frame_def)
  have u: "u = t\<lparr>mem := mem u, freelist := freelist u, pipes := (pipes t)(pi := pipes u pi)\<rparr>" using assms(2) by (simp add: pipe_frame_def)
  have "pipes t = (pipes s)(pi := x)" by (subst t) simp
  then show ?thesis unfolding pipe_frame_def by (subst u, subst t) simp
qed

lemma low_frame_file:
  fixes s t :: "'z kfile_scheme"
  assumes "low_frame s t" shows "held t = held s" "cur t = cur s" "procs t = procs s" "pipes t = pipes s"
proof -
  have t: "t = s\<lparr>mem := mem t, freelist := freelist t\<rparr>" using assms by (simp add: low_frame_def)
  show "held t = held s" "cur t = cur s" "procs t = procs s" "pipes t = pipes s" by (subst t, simp)+
qed

lemma killed_Ok: "ProcLock p \<notin> set (held s) \<Longrightarrow> killed p es s = Ok (pkilled (procs s p)) s es"
  by (simp add: killed_def)

lemma wakeup_all:
  "(\<And>p. ProcLock p \<notin> set (held s)) \<Longrightarrow> wakeup ch es s = Ok () (s\<lparr>procs := woken_all ch (cur s) (procs s)\<rparr>) es"
  using wakeup_Ok [of s ch es] by (simp add: woken_all_def [abs_def])

lemma ubytes_mono:
  "ubytes s root sz va bs \<Longrightarrow> vm_mono (mem s) (mem t) root \<Longrightarrow> uview (mem t) root sz = uview (mem s) root sz \<Longrightarrow> ubytes t root sz va bs"
  by (simp add: ubytes_def vm_mono_def)

lemma pipewrite_loop_spec:
  fixes s :: "'z kfile_scheme"
  assumes "uproc_ok s xs root sz" "cur s = Some pr" "pagetable (procs s pr) = root" "\<not> pkilled (procs s pr)" "ProcLock pr \<notin> set (held s)"
    "readopen (pipes s pi)" "pipe_ok (pipes s pi)" "length (pipe_bytes (pipes s pi)) + (length bs - i) \<le> PIPESIZE" "i \<le> length bs"
    "ubytes s root sz a bs" "length bs < 2 ^ 31"
  shows "\<exists>t ys. pipewrite_loop pr pi a (int (length bs)) (int i) es s = Ok (Inl (int (length bs))) t es \<and> uproc_ok t ys root sz \<and>
    pipe_frame pi s t \<and> uview (mem t) root sz = uview (mem s) root sz \<and> pipe_ok (pipes t pi) \<and>
    pipe_bytes (pipes t pi) = pipe_bytes (pipes s pi) @ drop i bs"
  using assms
proof (induction "length bs - i" arbitrary: i s xs)
  case 0
  then have "i = length bs" by simp
  then have "pipewrite_loop pr pi a (int (length bs)) (int i) es s = Ok (Inl (int (length bs))) s es"
    by (subst pipewrite_loop.simps) simp
  then show ?case using 0 \<open>i = length bs\<close> by (intro exI [of _ s] exI [of _ xs]) simp
next
  case (Suc k)
  then have i: "i < length bs" by simp
  then have room: "length (pipe_bytes (pipes s pi)) < PIPESIZE" using Suc.prems(8) by simp
  have ub: "vpte (mem s) root (page_no (a + of_nat i)) AND PTE_V \<noteq> 0" "uview (mem s) root sz (a + of_nat i) = Some (bs ! i)"
    using Suc.prems(10) i by (simp_all add: ubytes_def)
  from copyin_byte [OF Suc.prems(1) ub, of es] obtain t ys where
    t: "copyin root (a + of_nat i) 1 es s = Ok (0, [bs ! i]) t es" "uproc_ok t ys root sz" "vm_mono (mem s) (mem t) root"
      "uview (mem t) root sz = uview (mem s) root sz" "low_frame s t" by blast
  note fr = low_frame_file [OF t(5)]
  let ?u = "t\<lparr>pipes := (pipes t)(pi := put (bs ! i) (pipes t pi))\<rparr>"
  have full: "nwrite (pipes s pi) \<noteq> nread (pipes s pi) + of_nat PIPESIZE" using pipe_full_iff [OF Suc.prems(7)] room by simp
  have step: "pipewrite_loop pr pi a (int (length bs)) (int i) es s = pipewrite_loop pr pi a (int (length bs)) (int (Suc i)) es ?u"
    using i Suc.prems(3-6) full t(1) by (subst pipewrite_loop.simps) (simp add: killed_Ok pipe_put_Ok add.commute)
  have "\<exists>v zs. pipewrite_loop pr pi a (int (length bs)) (int (Suc i)) es ?u = Ok (Inl (int (length bs))) v es \<and> uproc_ok v zs root sz \<and>
    pipe_frame pi ?u v \<and> uview (mem v) root sz = uview (mem ?u) root sz \<and> pipe_ok (pipes v pi) \<and>
    pipe_bytes (pipes v pi) = pipe_bytes (pipes ?u pi) @ drop (Suc i) bs"
    by (rule Suc.hyps(1) [where xs = ys]) (use Suc.hyps(2) Suc.prems t(2) i fr put_ok [OF room] put_bytes [OF room]
      ubytes_mono [OF Suc.prems(10) t(3,4)] in \<open>simp_all add: ubytes_def\<close>)
  then obtain v zs where v: "pipewrite_loop pr pi a (int (length bs)) (int (Suc i)) es ?u = Ok (Inl (int (length bs))) v es"
    "uproc_ok v zs root sz" "pipe_frame pi ?u v" "uview (mem v) root sz = uview (mem ?u) root sz" "pipe_ok (pipes v pi)"
    "pipe_bytes (pipes v pi) = pipe_bytes (pipes ?u pi) @ drop (Suc i) bs" by blast
  have "drop i bs = bs ! i # drop (Suc i) bs" using i by (simp add: Cons_nth_drop_Suc)
  then show ?case unfolding step using v t(4) fr(4) put_bytes [OF room] pipe_frame_step [OF t(5) v(3)]
    by (intro exI [of _ v] exI [of _ zs]) simp
qed

section \<open>Reading\<close>

lemma uwritable_mono:
  assumes "uwritable s root sz va n" "vm_mono (mem s) (mem t) root" "uview (mem t) root sz = uwrite (uview (mem s) root sz) b bs"
  shows "uwritable t root sz va n"
  using assms by (simp add: uwritable_def vm_mono_def uwrite_def)

lemma uwritable_Suc: "uwritable s root sz va (Suc n) \<Longrightarrow> uwritable s root sz (va + 1) n"
proof -
  assume a: "uwritable s root sz va (Suc n)"
  have "va + 1 + of_nat k = va + of_nat (Suc k)" for k by simp
  then show "uwritable s root sz (va + 1) n" using a unfolding uwritable_def by (metis Suc_less_eq)
qed

lemma piperead_loop_spec:
  fixes s :: "'z kfile_scheme"
  assumes "uproc_ok s xs root sz" "pagetable (procs s pr) = root" "pipe_ok (pipes s pi)" "i \<le> n"
    "m = min (n - i) (length (pipe_bytes (pipes s pi)))" "uwritable s root sz (a + of_nat i) m"
  shows "\<exists>t ys. piperead_loop pr pi a (int n) (int i) es s = Ok (int (i + m)) t es \<and> uproc_ok t ys root sz \<and> pipe_frame pi s t \<and>
    uview (mem t) root sz = uwrite (uview (mem s) root sz) (a + of_nat i) (take m (pipe_bytes (pipes s pi))) \<and>
    pipe_ok (pipes t pi) \<and> pipe_bytes (pipes t pi) = drop m (pipe_bytes (pipes s pi)) \<and> writeopen (pipes t pi) = writeopen (pipes s pi)"
  using assms
proof (induction m arbitrary: i s xs)
  case 0
  have "piperead_loop pr pi a (int n) (int i) es s = Ok (int i) s es"
    using 0(4,5) by (subst piperead_loop.simps) (auto simp: pipe_empty_iff min_def split: if_splits)
  then show ?case using 0 by (intro exI [of _ s] exI [of _ xs]) simp
next
  case (Suc m)
  let ?x = "pipes s pi" and ?a = "a + of_nat i"
  have i: "i < n" and ne: "pipe_bytes ?x \<noteq> []" using Suc.prems(5) by auto
  let ?ch = "pdata ?x (unat (nread ?x) mod PIPESIZE)" and ?s1 = "s\<lparr>pipes := (pipes s)(pi := took ?x)\<rparr>"
  note tb = took_bytes [OF ne]
  have w: "vpte (mem s) root (page_no ?a) AND PTE_V \<noteq> 0" "vpte (mem s) root (page_no ?a) AND PTE_W \<noteq> 0" "uview (mem s) root sz ?a \<noteq> None"
    using Suc.prems(6) unfolding uwritable_def by (auto dest!: spec [of _ 0])
  from copyout_byte [of ?s1 xs root sz ?a ?ch es] Suc.prems(1) w obtain t ys where
    t: "copyout root ?a [?ch] es ?s1 = Ok 0 t es" "uproc_ok t ys root sz" "vm_mono (mem s) (mem t) root"
      "uview (mem t) root sz = uwrite (uview (mem s) root sz) ?a [?ch]" "low_frame ?s1 t" by auto
  note fr = low_frame_file [OF t(5)]
  have step: "piperead_loop pr pi a (int n) (int i) es s = piperead_loop pr pi a (int n) (int (Suc i)) es t"
    using i ne Suc.prems(2) t(1) by (subst piperead_loop.simps) (simp add: pipe_empty_iff pipe_take_Ok add.commute)
  have "\<exists>v zs. piperead_loop pr pi a (int n) (int (Suc i)) es t = Ok (int (Suc i + m)) v es \<and> uproc_ok v zs root sz \<and> pipe_frame pi t v \<and>
    uview (mem v) root sz = uwrite (uview (mem t) root sz) (a + of_nat (Suc i)) (take m (pipe_bytes (pipes t pi))) \<and>
    pipe_ok (pipes v pi) \<and> pipe_bytes (pipes v pi) = drop m (pipe_bytes (pipes t pi)) \<and> writeopen (pipes v pi) = writeopen (pipes t pi)"
  proof (rule Suc.IH [OF t(2)])
    show "m = min (n - Suc i) (length (pipe_bytes (pipes t pi)))" using Suc.prems(5) tb fr(4) i by (cases "pipe_bytes ?x") auto
    show "uwritable t root sz (a + of_nat (Suc i)) m"
      using uwritable_mono [OF uwritable_Suc [OF Suc.prems(6)] t(3,4)] by (simp add: algebra_simps)
  qed (use Suc.prems(2) fr took_ok [OF Suc.prems(3) ne] i in simp_all)
  then obtain v zs where v: "piperead_loop pr pi a (int n) (int (Suc i)) es t = Ok (int (Suc i + m)) v es" "uproc_ok v zs root sz" "pipe_frame pi t v"
    "uview (mem v) root sz = uwrite (uview (mem t) root sz) (a + of_nat (Suc i)) (take m (pipe_bytes (pipes t pi)))"
    "pipe_ok (pipes v pi)" "pipe_bytes (pipes v pi) = drop m (pipe_bytes (pipes t pi))" "writeopen (pipes v pi) = writeopen (pipes t pi)" by blast
  have len: "m < 512" using Suc.prems(3,5) by (simp add: pipe_ok_def length_pipe_bytes PIPESIZE_def)
  have "uwrite (uwrite (uview (mem s) root sz) ?a [?ch]) (?a + 1) (take m (pipe_bytes (took ?x))) =
      uwrite (uview (mem s) root sz) ?a (?ch # take m (pipe_bytes (took ?x)))"
    using uwrite_append [of "[?ch]" "take m (pipe_bytes (took ?x))" "uview (mem s) root sz" ?a] len by simp
  then have "uview (mem v) root sz = uwrite (uview (mem s) root sz) ?a (take (Suc m) (pipe_bytes ?x))"
    unfolding v(4) t(4) using fr(4) tb by (simp add: algebra_simps)
  moreover have "pipe_bytes (pipes v pi) = drop (Suc m) (pipe_bytes ?x)" unfolding v(6) using fr(4) by (subst tb) simp
  moreover have "pipe_frame pi s v" by (rule pipe_frame_low [OF t(5) v(3)])
  ultimately show ?case unfolding step using v fr(4) by (intro exI [of _ v] exI [of _ zs]) simp
qed

section \<open>A concrete kernel\<close>

text \<open>The process of \<open>copy_vm\<close>, with one page of memory, on a machine with a file system, a console and pipes.\<close>

definition dev_boot :: kdev where
  "dev_boot = kfs.extend fs_boot (kdev.fields \<lparr>thr_out = [], rhr_in = [], ctl_reg = (\<lambda>_. 0), tx_wait = 0, tx_delays = []\<rparr> False False False
     \<lparr>cons_buf = (\<lambda>_. 0), cons_r = 0, cons_w = 0, cons_e = 0\<rparr> (\<lambda>_. \<lparr>dev_read = None, dev_write = None\<rparr>))"

definition pipe_boot :: pipe where
  "pipe_boot = \<lparr>pdata = \<lambda>_. 0, nread = 0xffffffff, nwrite = 0xffffffff, readopen = True, writeopen = True\<rparr>"

definition file_boot :: kfile where
  "file_boot = kdev.extend dev_boot (kfile.fields
     (\<lambda>_. \<lparr>ftype = FD_NONE, fref = 0, freadable = False, fwritable = False, fpipe = 0, fip = None, foff = 0, fmajor = 0\<rparr>) (\<lambda>_. pipe_boot))"

lemmas boot_defs = file_boot_def dev_boot_def fs_boot_def kfile.defs kdev.defs kfs.defs log_state_defs bio_boot_def kproc.defs

lemma file_boot_simps [simp]:
  "held file_boot = []" "cur file_boot = Some 0" "mem file_boot = copy_mem" "procs file_boot = procs copy_vm" "pipes file_boot = (\<lambda>_. pipe_boot)"
  "slocks file_boot = slocks copy_vm" "\<not> pkilled (procs copy_vm p)"
  by (simp_all add: boot_defs copy_vm_def)

lemma pipe_boot_simps [simp]: "readopen pipe_boot" "writeopen pipe_boot" "pipe_bytes pipe_boot = []" "pipe_ok pipe_boot"
  by (simp_all add: pipe_boot_def pipe_bytes_def pipe_ok_def)

lemma uproc_ok_cong:
  fixes s :: "'y kproc_scheme" and t :: "'z kproc_scheme"
  assumes "uproc_ok s xs root sz" "cur t = cur s" "procs t = procs s" "mem t = mem s" "freelist t = freelist s" "kend t = kend s"
    "KmemLock \<in> set (held t) \<longleftrightarrow> KmemLock \<in> set (held s)"
  shows "uproc_ok t xs root sz"
  using assms unfolding uproc_ok_def uvm_ok_def vm_ok_def kmem_ok_def by simp

lemma file_boot_ok: "uproc_ok file_boot [] (copy_page 5) 4096"
  by (rule uproc_ok_cong [OF copy_vm_ok]) (simp_all add: boot_defs copy_vm_def)

lemma file_boot_page:
  assumes "k < 4096"
  shows "vpte copy_mem (copy_page 5) (page_no (of_nat k)) AND PTE_V \<noteq> 0" "vpte copy_mem (copy_page 5) (page_no (of_nat k)) AND PTE_W \<noteq> 0"
    "\<exists>b. uview copy_mem (copy_page 5) 4096 (of_nat k) = Some b"
proof -
  have "unat (of_nat k :: uint64) = k" using assms by (simp add: unat_of_nat take_bit_nat_eq_self_iff)
  then have pn: "page_no (of_nat k) = 0" and lt: "\<not> (of_nat k :: uint64) \<ge> MAXVA"
    using assms by (simp_all add: page_no_def PGSIZE_def MAXVA_eq word_le_nat_alt)
  let ?v = "PA2PTE (copy_page 4) OR (PTE_W OR PTE_U OR PTE_R) OR PTE_V"
  have bits: "?v AND PTE_V \<noteq> 0" "?v AND PTE_U \<noteq> 0" "?v AND PTE_W \<noteq> 0"
    by (simp_all add: and_flag_eq_0_iff bit_or_iff bit_flag_iff)
  show "vpte copy_mem (copy_page 5) (page_no (of_nat k)) AND PTE_V \<noteq> 0" "vpte copy_mem (copy_page 5) (page_no (of_nat k)) AND PTE_W \<noteq> 0"
    using bits by (simp_all add: pn copy_mem_pt(3))
  show "\<exists>b. uview copy_mem (copy_page 5) 4096 (of_nat k) = Some b" using bits lt by (simp add: uview_def pn copy_mem_pt(3) Let_def)
qed

section \<open>Properties of pipes\<close>

text \<open>
  C23: \<open>pipewrite\<close> of bytes that fit into the pipe and lie in the user's memory appends exactly these
  bytes, in order, to the contents of the pipe, returns their number and wakes the readers up. It
  does not block, touches no other pipe and does not change what the user sees.
\<close>

theorem pipewrite_appends:
  fixes s :: "'z kfile_scheme"
  assumes u: "uproc_ok s xs root sz" "cur s = Some pr" "\<not> pkilled (procs s pr)" "ubytes s root sz a bs" "length bs < 2 ^ 31"
    and locks: "PipeLock pi \<notin> set (held s)" "\<And>p. ProcLock p \<notin> set (held s)" "KmemLock \<notin> set (held s)"
    and pipe: "readopen (pipes s pi)" "pipe_ok (pipes s pi)" "length (pipe_bytes (pipes s pi)) + length bs \<le> PIPESIZE"
  shows "\<exists>t. pipewrite pi a (int (length bs)) es s = Ok (int (length bs)) t es \<and> pipe_ok (pipes t pi) \<and>
    pipe_bytes (pipes t pi) = pipe_bytes (pipes s pi) @ bs \<and> (\<forall>q. q \<noteq> pi \<longrightarrow> pipes t q = pipes s q) \<and> held t = held s \<and>
    uview (mem t) root sz = uview (mem s) root sz \<and> procs t = woken_all (ChPipeRead pi) (cur s) (procs s)"
proof -
  have root: "pagetable (procs s pr) = root" using u(1,2) by (auto simp: uproc_ok_def)
  let ?s = "s\<lparr>held := PipeLock pi # held s\<rparr>"
  from pipewrite_loop_spec [of ?s xs root sz pr pi bs 0 a es] u pipe locks root
  obtain t where t: "pipewrite_loop pr pi a (int (length bs)) 0 es ?s = Ok (Inl (int (length bs))) t es" "pipe_frame pi ?s t"
    "uview (mem t) root sz = uview (mem s) root sz" "pipe_ok (pipes t pi)" "pipe_bytes (pipes t pi) = pipe_bytes (pipes s pi) @ bs"
    by (auto simp: ubytes_def)
  note fr = pipe_frame_simps [OF t(2)]
  have "wakeup (ChPipeRead pi) es t = Ok () (t\<lparr>procs := woken_all (ChPipeRead pi) (cur s) (procs s)\<rparr>) es"
    using wakeup_all [of t "ChPipeRead pi" es] locks(2) fr(1-3) by simp
  then have "pipewrite pi a (int (length bs)) es s =
      Ok (int (length bs)) (t\<lparr>procs := woken_all (ChPipeRead pi) (cur s) (procs s), held := held s\<rparr>) es"
    using t(1) fr(1) locks(1) u(2) by (simp add: pipewrite_def myproc_deref_def myproc_def)
  then show ?thesis using t fr(4) by (intro exI) (auto simp: fun_eq_iff)
qed

theorem pipewrite_appends_witness:
  "\<exists>bs t. length bs = 3 \<and> pipewrite 0x80100000 0 3 [] file_boot = Ok 3 t [] \<and> pipe_bytes (pipes t 0x80100000) = bs"
proof -
  define bs where "bs = map (\<lambda>k. the (uview copy_mem (copy_page 5) 4096 (of_nat k))) [0..<3]"
  have l: "length bs = 3" by (simp add: bs_def)
  have "ubytes file_boot (copy_page 5) 4096 0 bs"
    using file_boot_page by (fastforce simp: ubytes_def bs_def)
  then show ?thesis
    using pipewrite_appends [OF file_boot_ok, of 0 0 bs "0x80100000" "[]"] l by (auto simp: PIPESIZE_def)
qed

text \<open>
  C24: \<open>piperead\<close> on a pipe with contents removes as many bytes as it was asked for, or all if there are
  fewer, from the front, writes them in order to the user's memory and nothing else, returns their
  number and wakes the writers up, without blocking.
\<close>

theorem piperead_takes:
  fixes s :: "'z kfile_scheme"
  assumes u: "uproc_ok s xs root sz" "cur s = Some pr" "uwritable s root sz a m"
    and locks: "PipeLock pi \<notin> set (held s)" "\<And>p. ProcLock p \<notin> set (held s)" "KmemLock \<notin> set (held s)"
    and pipe: "pipe_ok (pipes s pi)" "pipe_bytes (pipes s pi) \<noteq> [] \<or> \<not> writeopen (pipes s pi)"
    and m: "m = min n (length (pipe_bytes (pipes s pi)))"
  shows "\<exists>t. piperead pi a (int n) es s = Ok (int m) t es \<and> pipe_ok (pipes t pi) \<and>
    pipe_bytes (pipes t pi) = drop m (pipe_bytes (pipes s pi)) \<and> (\<forall>q. q \<noteq> pi \<longrightarrow> pipes t q = pipes s q) \<and> held t = held s \<and>
    uview (mem t) root sz = uwrite (uview (mem s) root sz) a (take m (pipe_bytes (pipes s pi))) \<and>
    procs t = woken_all (ChPipeWrite pi) (cur s) (procs s)"
proof -
  have root: "pagetable (procs s pr) = root" using u(1,2) by (auto simp: uproc_ok_def)
  let ?s = "s\<lparr>held := PipeLock pi # held s\<rparr>"
  from piperead_loop_spec [of ?s xs root sz pr pi 0 n m a es] u pipe locks root m
  obtain t where t: "piperead_loop pr pi a (int n) 0 es ?s = Ok (int m) t es" "pipe_frame pi ?s t"
    "uview (mem t) root sz = uwrite (uview (mem s) root sz) a (take m (pipe_bytes (pipes s pi)))" "pipe_ok (pipes t pi)"
    "pipe_bytes (pipes t pi) = drop m (pipe_bytes (pipes s pi))"
    by (auto simp: uwritable_def)
  note fr = pipe_frame_simps [OF t(2)]
  have "piperead_wait pr pi es ?s = Ok True ?s es"
    using pipe(2) by (subst piperead_wait.simps) (auto simp: pipe_empty_iff kif_def)
  moreover have "wakeup (ChPipeWrite pi) es t = Ok () (t\<lparr>procs := woken_all (ChPipeWrite pi) (cur s) (procs s)\<rparr>) es"
    using wakeup_all [of t "ChPipeWrite pi" es] locks(2) fr(1-3) by simp
  ultimately have "piperead pi a (int n) es s =
      Ok (int m) (t\<lparr>procs := woken_all (ChPipeWrite pi) (cur s) (procs s), held := held s\<rparr>) es"
    using t(1) fr(1) locks(1) u(2) by (simp add: piperead_def myproc_deref_def myproc_def)
  then show ?thesis using t fr(4) by (intro exI) (auto simp: fun_eq_iff)
qed

theorem piperead_takes_witness:
  "\<exists>t. piperead 0x80100000 5 9 [] (file_boot\<lparr>pipes := \<lambda>_. put 8 (put 7 pipe_boot)\<rparr>) = Ok 2 t [] \<and>
     uview (mem t) (copy_page 5) 4096 6 = Some 8 \<and> pipe_bytes (pipes t 0x80100000) = []"
proof -
  let ?s = "file_boot\<lparr>pipes := \<lambda>_. put 8 (put 7 pipe_boot)\<rparr>"
  have b: "pipe_bytes (put 8 (put 7 pipe_boot)) = [7, 8]" "pipe_ok (put 8 (put 7 pipe_boot))"
    using put_bytes [of "put 7 pipe_boot" 8] put_bytes [of pipe_boot 7] put_ok [of "put 7 pipe_boot" 8] by (simp_all add: PIPESIZE_def)
  have "uwritable ?s (copy_page 5) 4096 5 2"
    using file_boot_page [of "5 + k" for k] by (fastforce simp: uwritable_def)
  moreover have "uproc_ok ?s [] (copy_page 5) 4096" using file_boot_ok by simp
  ultimately show ?thesis
    using piperead_takes [of ?s "[]" "copy_page 5" 4096 0 5 2 "0x80100000" 9 "[]"] b
    by (simp add: numeral_2_eq_2) (auto simp: uwrite_def)
qed

text \<open>
  C32: a byte that cannot be delivered is lost. If the destination of \<open>piperead\<close> is outside the user's
  address space, it returns 0, as at the end of the stream, and the first byte of the pipe is gone.
\<close>

theorem piperead_loses_byte:
  fixes s :: "'z kfile_scheme"
  assumes "cur s = Some pr" "PipeLock pi \<notin> set (held s)" "\<And>p. ProcLock p \<notin> set (held s)" "PGROUNDDOWN a \<ge> MAXVA" "0 < n"
    and b: "pipe_bytes (pipes s pi) = b # bs"
  shows "\<exists>t. piperead pi a n es s = Ok 0 t es \<and> pipe_bytes (pipes t pi) = bs \<and> mem t = mem s"
proof -
  let ?s = "s\<lparr>held := PipeLock pi # held s\<rparr>" and ?x = "took (pipes s pi)"
  let ?t = "?s\<lparr>pipes := (pipes s)(pi := ?x)\<rparr>"
  have ne: "nread (pipes s pi) \<noteq> nwrite (pipes s pi)" using b pipe_empty_iff [of "pipes s pi"] by simp
  have "piperead_wait pr pi es ?s = Ok True ?s es" using ne by (subst piperead_wait.simps) simp
  moreover have "copyout pt a [c] es u = Ok (- 1) u es" for pt c and u :: "'z kfile_scheme"
    using assms(4) by (subst copyout.simps) simp
  then have "piperead_loop pr pi a n 0 es ?s = Ok 0 ?t es" using ne assms(5) by (subst piperead_loop.simps) (simp add: pipe_take_Ok)
  moreover have "wakeup (ChPipeWrite pi) es ?t = Ok () (?t\<lparr>procs := woken_all (ChPipeWrite pi) (cur s) (procs s)\<rparr>) es"
    using wakeup_all [of ?t "ChPipeWrite pi" es] assms(3) by simp
  moreover have "pipe_bytes ?x = bs" using took_bytes [of "pipes s pi"] b by simp
  ultimately show ?thesis using assms(1,2) by (simp add: piperead_def myproc_deref_def myproc_def)
qed

theorem piperead_loses_byte_witness:
  "\<exists>t. piperead 0x80100000 MAXVA 1 [] (file_boot\<lparr>pipes := \<lambda>_. put 7 pipe_boot\<rparr>) = Ok 0 t [] \<and> pipe_bytes (pipes t 0x80100000) = []"
proof -
  have "PGROUNDDOWN MAXVA \<ge> MAXVA" by (simp add: PGROUNDDOWN_def MAXVA_eq)
  moreover have "pipe_bytes (put 7 pipe_boot) = [7]" using put_bytes [of pipe_boot 7] by (simp add: PIPESIZE_def)
  ultimately show ?thesis
    using piperead_loses_byte [of "file_boot\<lparr>pipes := \<lambda>_. put 7 pipe_boot\<rparr>" 0 "0x80100000" MAXVA 1 7 "[]" "[]"] by auto
qed

end
