(* ===== verification/Xv6_Printf.thy ===== *)
theory Xv6_Printf
  imports Xv6_Console
begin

text \<open>
  Formatted output: the kernel's \<open>printf\<close> and \<open>panic\<close> (\<open>kernel/printf.c\<close>) and the user's \<open>vprintf\<close>
  (\<open>user/printf.c\<close>). A variable argument is the 64-bit value that the caller passed and, if that is
  a pointer to a string, the characters before the NUL; an argument that the caller did not pass is
  any such value. The characters that the code hands to \<open>consputc\<close> one after the other are a list.
  The table of digits is an argument of the routines the two files have in common.
\<close>

record vararg =
  va_val :: uint64
  va_str :: "byte list"

type_synonym va_list = "nat \<Rightarrow> vararg"

definition chars :: "string \<Rightarrow> byte list" where
  "chars = map (\<lambda>c. of_nat (of_char c))"

definition kdigits :: "nat \<Rightarrow> byte" where
  "kdigits i = chars ''0123456789abcdef'' ! i"

definition udigits :: "nat \<Rightarrow> byte" where
  "udigits i = chars ''0123456789ABCDEF'' ! i"

text \<open>The bases that the callers pass.\<close>

datatype radix = Dec | Hex

definition base :: "radix \<Rightarrow> nat" where
  "base r = (case r of Dec \<Rightarrow> 10 | Hex \<Rightarrow> 16)"

lemma base_bounds [simp]: "1 < base r" "0 < base r" "Suc 0 < base r" "base r \<le> 16"
  by (cases r; simp add: base_def)+

lemma base_le_pos: "base r \<le> x \<Longrightarrow> 0 < x"
  using base_bounds(2) [of r] by linarith

section \<open>Numbers\<close>

text \<open>The loop of \<open>printint\<close>, on the value of \<open>x\<close>: it fills \<open>buf\<close> from index \<open>i\<close> on and returns the index after the last.\<close>

function printint_loop :: "(nat \<Rightarrow> byte) \<Rightarrow> radix \<Rightarrow> nat \<Rightarrow> (nat \<Rightarrow> byte) \<Rightarrow> nat \<Rightarrow> (nat \<Rightarrow> byte) \<times> nat" where
  "printint_loop digits r x buf i =
     (let buf = buf(i := digits (x mod base r)); x' = x div base r in
      if x' \<noteq> 0 then printint_loop digits r x' buf (i + 1) else (buf, i + 1))"
  by pat_completeness auto
termination
  by (relation "measure (\<lambda>(d, r, x, buf, i). x)") (auto simp: div_greater_zero_iff intro!: div_less_dividend dest: base_le_pos)

declare printint_loop.simps [simp del]

text \<open>
  The buffer of \<open>printint\<close> and its length before it is printed backwards. \<open>xx\<close> is a \<open>long long\<close>;
  its negation is taken modulo \<open>2 ^ 64\<close>, as the machine does it for the least value too.
\<close>

definition printint_buf :: "(nat \<Rightarrow> byte) \<Rightarrow> uint64 \<Rightarrow> radix \<Rightarrow> bool \<Rightarrow> (nat \<Rightarrow> byte) \<times> nat" where
  "printint_buf digits xx r sign =
     (let neg = (sign \<and> sint xx < 0);
          x = (if neg then - xx else xx);
          (buf, i) = printint_loop digits r (unat x) (\<lambda>_. 0) 0
      in if neg then (buf(i := 45), i + 1) else (buf, i))"

definition out_backwards :: "(nat \<Rightarrow> byte) \<times> nat \<Rightarrow> uint32 list" where
  "out_backwards bi = map (\<lambda>k. ucast (fst bi k)) (rev [0..<snd bi])"

definition printint :: "(nat \<Rightarrow> byte) \<Rightarrow> uint64 \<Rightarrow> radix \<Rightarrow> bool \<Rightarrow> uint32 list" where
  "printint digits xx r sign = out_backwards (printint_buf digits xx r sign)"

definition printptr :: "(nat \<Rightarrow> byte) \<Rightarrow> uint64 \<Rightarrow> uint32 list" where
  "printptr digits x = [48, 120] @ map (\<lambda>i. ucast (digits (unat (drop_bit 60 (push_bit (4 * i) x))))) [0..<16]"

section \<open>Formats\<close>

datatype conv = CInt bool radix bool | CPtr | CChar | CStr | CPercent | CUnknown

text \<open>
  The conversion that the characters after a \<open>%\<close> ask for, and how many of them it uses beyond the
  first. \<open>CInt long r sign\<close> prints an argument of 32 bits, or of 64 if \<open>long\<close>.
\<close>

definition conversion :: "byte \<Rightarrow> byte \<Rightarrow> byte \<Rightarrow> conv \<times> nat" where
  "conversion c0 c1 c2 =
     (if c0 = 100 then (CInt False Dec True, 0)
      else if c0 = 108 \<and> c1 = 100 then (CInt True Dec True, 1)
      else if c0 = 108 \<and> c1 = 108 \<and> c2 = 100 then (CInt True Dec True, 2)
      else if c0 = 117 then (CInt False Dec False, 0)
      else if c0 = 108 \<and> c1 = 117 then (CInt True Dec False, 1)
      else if c0 = 108 \<and> c1 = 108 \<and> c2 = 117 then (CInt True Dec False, 2)
      else if c0 = 120 then (CInt False Hex False, 0)
      else if c0 = 108 \<and> c1 = 120 then (CInt True Hex False, 1)
      else if c0 = 108 \<and> c1 = 108 \<and> c2 = 120 then (CInt True Hex False, 2)
      else if c0 = 112 then (CPtr, 0)
      else if c0 = 99 then (CChar, 0)
      else if c0 = 115 then (CStr, 0)
      else if c0 = 37 then (CPercent, 0)
      else (CUnknown, 0))"

text \<open>The argument as \<open>va_arg\<close> of an \<open>int\<close>, \<open>uint32\<close> or \<open>uint64\<close> converts it for \<open>printint\<close>.\<close>

definition va_int :: "bool \<Rightarrow> bool \<Rightarrow> uint64 \<Rightarrow> uint64" where
  "va_int long sign v = (if long then v else if sign then scast (ucast v :: 32 word) else ucast (ucast v :: 32 word))"

definition peek_at :: "byte list \<Rightarrow> nat \<Rightarrow> byte" where
  "peek_at cs i = (if i < length cs then cs ! i else 0)"

definition is_null :: "vararg \<Rightarrow> bool" where
  "is_null v \<longleftrightarrow> va_val v = 0"

text \<open>The loop of \<open>printf\<close> from a position of the format and an argument on.\<close>

function printf_chars :: "(nat \<Rightarrow> byte) \<Rightarrow> byte list \<Rightarrow> va_list \<Rightarrow> nat \<Rightarrow> uint32 list" where
  "printf_chars digits [] ap k = []"
| "printf_chars digits (cx # fmt) ap k =
     (if cx \<noteq> 37 then ucast cx # printf_chars digits fmt ap k
      else case fmt of [] \<Rightarrow> []
        | c0 # rest \<Rightarrow>
            (let c1 = peek_at rest 0;
                 c2 = (if c1 \<noteq> 0 then peek_at rest 1 else 0);
                 (cv, extra) = conversion c0 c1 c2;
                 rest' = drop extra rest
             in case cv of
                  CInt long r sign \<Rightarrow> printint digits (va_int long sign (va_val (ap k))) r sign @ printf_chars digits rest' ap (k + 1)
                | CPtr \<Rightarrow> printptr digits (va_val (ap k)) @ printf_chars digits rest' ap (k + 1)
                | CChar \<Rightarrow> ucast (va_val (ap k)) # printf_chars digits rest' ap (k + 1)
                | CStr \<Rightarrow> map ucast (if is_null (ap k) then chars ''(null)'' else va_str (ap k)) @ printf_chars digits rest' ap (k + 1)
                | CPercent \<Rightarrow> 37 # printf_chars digits rest' ap k
                | CUnknown \<Rightarrow> 37 # ucast c0 # printf_chars digits rest' ap k))"
  by pat_completeness auto
termination
  by (relation "measure (\<lambda>(d, fmt, ap, k). length fmt)") auto

declare printf_chars.simps [simp del]

definition printf :: "byte list \<Rightarrow> va_list \<Rightarrow> ('z kdev_scheme, int) km" where
  "printf fmt ap =
     kbind (kget panicking) (\<lambda>p.
     kthen (if \<not> p then acquire PrLock else kret ())
    (kthen (kfor (printf_chars kdigits fmt ap 0) consputc)
    (kbind (kget panicking) (\<lambda>p.
     kthen (if \<not> p then release PrLock else kret ())
           (kret 0)))))"

definition str_arg :: "uint64 \<Rightarrow> byte list \<Rightarrow> va_list" where
  "str_arg a cs = (\<lambda>_. \<lparr>va_val = a, va_str = cs\<rparr>)"

definition panic :: "uint64 \<Rightarrow> byte list \<Rightarrow> ('z kdev_scheme, unit) km" where
  "panic a cs =
     kthen (kmod (\<lambda>s. s\<lparr>panicking := True\<rparr>))
    (kbind (printf (chars ''panic: '') (str_arg 0 [])) (\<lambda>_.
     kbind (printf (chars ''%s\<newline>'') (str_arg a cs)) (\<lambda>_.
     kthen (kmod (\<lambda>s. s\<lparr>panicked := True\<rparr>))
           kstuck)))"

section \<open>The user's printf\<close>

text \<open>
  The user's \<open>printint\<close> keeps the magnitude in a \<open>uint\<close>. The characters go to the file descriptor
  one by one.
\<close>

definition uprintint_buf :: "uint64 \<Rightarrow> radix \<Rightarrow> bool \<Rightarrow> (nat \<Rightarrow> byte) \<times> nat" where
  "uprintint_buf xx r sg =
     (let neg = (sg \<and> sint xx < 0);
          x = (ucast (if neg then - xx else xx) :: uint32);
          (buf, i) = printint_loop udigits r (unat x) (\<lambda>_. 0) 0
      in if neg then (buf(i := 45), i + 1) else (buf, i))"

definition uprintint :: "uint64 \<Rightarrow> radix \<Rightarrow> bool \<Rightarrow> byte list" where
  "uprintint xx r sg = map ucast (out_backwards (uprintint_buf xx r sg))"

text \<open>\<open>vprintf\<close>: \<open>st\<close> says whether the last character was a \<open>%\<close>.\<close>

function vprintf :: "bool \<Rightarrow> byte list \<Rightarrow> va_list \<Rightarrow> nat \<Rightarrow> byte list" where
  "vprintf st [] ap k = []"
| "vprintf st (c0 # rest) ap k =
     (if \<not> st then (if c0 = 37 then vprintf True rest ap k else c0 # vprintf False rest ap k)
      else (let c1 = peek_at rest 0;
                c2 = (if c1 \<noteq> 0 then peek_at rest 1 else 0);
                (cv, extra) = conversion c0 c1 c2;
                rest' = drop extra rest
            in case cv of
                 CInt long r sign \<Rightarrow> uprintint (va_int long sign (va_val (ap k))) r sign @ vprintf False rest' ap (k + 1)
               | CPtr \<Rightarrow> map ucast (printptr udigits (va_val (ap k))) @ vprintf False rest' ap (k + 1)
               | CChar \<Rightarrow> ucast (va_val (ap k)) # vprintf False rest' ap (k + 1)
               | CStr \<Rightarrow> (if is_null (ap k) then chars ''(null)'' else va_str (ap k)) @ vprintf False rest' ap (k + 1)
               | CPercent \<Rightarrow> 37 # vprintf False rest' ap k
               | CUnknown \<Rightarrow> 37 # c0 # vprintf False rest' ap k))"
  by pat_completeness auto
termination
  by (relation "measure (\<lambda>(st, fmt, ap, k). length fmt)") auto

declare vprintf.simps [simp del]

text \<open>The calls of \<open>write\<close> that print: each character on its own.\<close>

definition putc :: "int \<Rightarrow> byte \<Rightarrow> int \<times> byte list" where
  "putc fd c = (fd, [c])"

definition fprintf :: "int \<Rightarrow> byte list \<Rightarrow> va_list \<Rightarrow> (int \<times> byte list) list" where
  "fprintf fd fmt ap = map (putc fd) (vprintf False fmt ap 0)"

definition uprintf :: "byte list \<Rightarrow> va_list \<Rightarrow> (int \<times> byte list) list" where
  "uprintf fmt ap = map (putc 1) (vprintf False fmt ap 0)"

section \<open>Numerals\<close>

text \<open>The numeral of a number, most significant digit first, and the number that a numeral stands for.\<close>

function numeral_of :: "(nat \<Rightarrow> byte) \<Rightarrow> radix \<Rightarrow> nat \<Rightarrow> byte list" where
  "numeral_of digits r n =
     (if n div base r \<noteq> 0 then numeral_of digits r (n div base r) else []) @ [digits (n mod base r)]"
  by pat_completeness auto
termination
  by (relation "measure (\<lambda>(d, r, n). n)") (auto simp: div_greater_zero_iff intro!: div_less_dividend dest: base_le_pos)

declare numeral_of.simps [simp del]

definition digit_val :: "byte \<Rightarrow> nat" where
  "digit_val c = (if unat c < 58 then unat c - 48 else unat c - 87)"

definition value_of :: "radix \<Rightarrow> byte list \<Rightarrow> nat" where
  "value_of r cs = foldl (\<lambda>a c. a * base r + digit_val c) 0 cs"

lemma digit_val_kdigits: "i < 16 \<Longrightarrow> digit_val (kdigits i) = i"
proof -
  assume "i < 16"
  then have "i \<in> {0, 1, 2, 3, 4, 5, 6, 7, 8, 9, 10, 11, 12, 13, 14, 15}" by (simp add: numeral_eq_Suc less_Suc_eq)
  then show ?thesis by (auto simp: kdigits_def chars_def digit_val_def)
qed

lemma value_numeral_of: "value_of r (numeral_of kdigits r n) = n"
proof (induction n rule: less_induct)
  case (less n)
  have m: "digit_val (kdigits (n mod base r)) = n mod base r"
    by (rule digit_val_kdigits) (meson base_bounds(2,4) mod_less_divisor order_less_le_trans)
  show ?case
  proof (cases "n div base r = 0")
    case True
    then show ?thesis using m by (subst numeral_of.simps) (auto simp: value_of_def div_eq_0_iff)
  next
    case False
    then have "n div base r < n" by (intro div_less_dividend) (auto simp: div_eq_0_iff not_less dest: base_le_pos)
    then have "foldl (\<lambda>a c. a * base r + digit_val c) 0 (numeral_of kdigits r (n div base r)) = n div base r"
      using less.IH by (simp add: value_of_def)
    then show ?thesis using False m by (subst numeral_of.simps) (simp add: value_of_def)
  qed
qed

lemma length_numeral_of: "n < base r ^ Suc k \<Longrightarrow> length (numeral_of digits r n) \<le> Suc k"
proof (induction k arbitrary: n)
  case 0
  then show ?case by (subst numeral_of.simps) simp
next
  case (Suc k)
  have "n div base r < base r ^ Suc k" using Suc.prems by (simp add: less_mult_imp_div_less mult.commute)
  from Suc.IH [OF this] show ?case by (subst numeral_of.simps) simp
qed

lemma printint_loop_numeral:
  "printint_loop digits r x buf i = (buf', j) \<Longrightarrow>
     j = i + length (numeral_of digits r x) \<and> rev (map buf' [i..<j]) = numeral_of digits r x \<and> (\<forall>k < i. buf' k = buf k)"
proof (induction digits r x buf i arbitrary: buf' j rule: printint_loop.induct)
  case (1 digits r x buf i)
  let ?b = "buf(i := digits (x mod base r))"
  show ?case
  proof (cases "x div base r = 0")
    case True
    then have "buf' = ?b" "j = i + 1" using "1.prems" by (subst (asm) printint_loop.simps, simp)+
    then show ?thesis using True by (subst (1 2) numeral_of.simps) simp
  next
    case False
    then have "printint_loop digits r (x div base r) ?b (i + 1) = (buf', j)" using "1.prems" by (subst (asm) printint_loop.simps) simp
    then have IH: "j = i + 1 + length (numeral_of digits r (x div base r))" "rev (map buf' [i + 1..<j]) = numeral_of digits r (x div base r)"
      "\<forall>k < i + 1. buf' k = ?b k" using "1.IH" [OF refl refl] False by blast+
    have "[i..<j] = i # [i + 1..<j]" using IH(1) upt_conv_Cons [of i j] by simp
    then show ?thesis using False IH by (subst (1 2) numeral_of.simps) auto
  qed
qed

lemma out_backwards_numeral:
  assumes "printint_loop digits r x (\<lambda>_. 0) 0 = (buf, i)"
  shows "out_backwards (buf, i) = map ucast (numeral_of digits r x)" "i = length (numeral_of digits r x)"
    "out_backwards (buf(i := c), i + 1) = map ucast (c # numeral_of digits r x)"
proof -
  note n = printint_loop_numeral [OF assms]
  show "out_backwards (buf, i) = map ucast (numeral_of digits r x)"
    using n by (simp add: out_backwards_def rev_map flip: n [THEN conjunct2, THEN conjunct1])
  moreover have "map (\<lambda>k. ucast ((buf(i := c)) k)) (rev [0..<i]) = map (\<lambda>k. ucast (buf k) :: uint32) (rev [0..<i])"
    by (rule map_cong) auto
  ultimately show "out_backwards (buf(i := c), i + 1) = map ucast (c # numeral_of digits r x)"
    by (simp add: out_backwards_def)
  show "i = length (numeral_of digits r x)" using n by simp
qed

lemma printint_buf_parts:
  fixes xx :: uint64
  defines "neg \<equiv> \<lambda>sign. sign \<and> sint xx < 0"
  defines "x \<equiv> \<lambda>sign. unat (if neg sign then - xx else xx)"
  shows "out_backwards (printint_buf digits xx r sign) = map ucast ((if neg sign then [45] else []) @ numeral_of digits r (x sign))"
    "snd (printint_buf digits xx r sign) = (if neg sign then 1 else 0) + length (numeral_of digits r (x sign))"
proof -
  obtain buf i where l: "printint_loop digits r (x sign) (\<lambda>_. 0) 0 = (buf, i)" by (cases "printint_loop digits r (x sign) (\<lambda>_. 0) 0") auto
  note o = out_backwards_numeral [OF l]
  have b: "printint_buf digits xx r sign = (if neg sign then (buf(i := 45), i + 1) else (buf, i))"
    using l by (auto simp: printint_buf_def neg_def x_def Let_def)
  show "out_backwards (printint_buf digits xx r sign) = map ucast ((if neg sign then [45] else []) @ numeral_of digits r (x sign))"
    unfolding b using o(1,3) by simp
  show "snd (printint_buf digits xx r sign) = (if neg sign then 1 else 0) + length (numeral_of digits r (x sign))"
    unfolding b using o(2) by simp
qed

lemma sint_cases_64: "sint (x :: uint64) = (if sint x < 0 then uint x - 2 ^ 64 else uint x)"
proof -
  have u: "uint x < 2 ^ LENGTH(64)" "0 \<le> uint x" by (rule unsigned_less, rule unsigned_greater_eq)
  have "sint x = take_bit 64 (uint x) - 2 ^ 64 * of_bool (bit (uint x) 63)"
    by (simp add: sint_uint signed_take_bit_eq_take_bit_minus)
  moreover have "take_bit 64 (uint x) = uint x" using u by (simp add: take_bit_int_eq_self_iff)
  ultimately show ?thesis using u by (cases "bit (uint x) 63") auto
qed

lemma sint_64: "\<not> sint x < 0 \<Longrightarrow> sint (x :: uint64) = uint x" "sint x < 0 \<Longrightarrow> sint (x :: uint64) = uint x - 2 ^ 64"
  by (metis sint_cases_64)+

lemma sint_neg_unat:
  fixes xx :: uint64
  assumes "sint xx < 0" shows "unat (- xx) = nat (- sint xx)" "unat (- xx) \<le> 2 ^ 63"
proof -
  have s: "sint xx = uint xx - 2 ^ 64" using sint_cases_64 [of xx] assms by simp
  have b: "- (2 ^ 63) \<le> sint xx" using sint_ge [of xx] by simp
  then have "0 < uint xx" using s by simp
  moreover have "uint xx < 2 ^ LENGTH(64)" by (rule unsigned_less)
  ultimately have "uint (- xx) = - sint xx" using s by (simp add: uint_word_ariths zmod_zminus1_eq_if)
  then show "unat (- xx) = nat (- sint xx)" by (simp add: unat_eq_nat_uint)
  then show "unat (- xx) \<le> 2 ^ 63" using b by simp
qed

section \<open>Properties of printf\<close>

text \<open>
  C26: \<open>printint\<close> prints any 64-bit number, signed or unsigned and in either base, as its numeral with a
  minus sign if it is negative: the digits stand for the number. It never writes past the 20
  characters of its buffer, not for the least \<open>long long\<close> either.
\<close>

theorem printint_correct:
  fixes xx :: uint64 and sign :: bool
  defines "n \<equiv> if sign then nat \<bar>sint xx\<bar> else unat xx"
  shows "snd (printint_buf kdigits xx r sign) \<le> 20 \<and> value_of r (numeral_of kdigits r n) = n \<and>
    printint kdigits xx r sign = map ucast ((if sign \<and> sint xx < 0 then [45] else []) @ numeral_of kdigits r n)"
proof -
  let ?neg = "sign \<and> sint xx < 0" and ?x = "unat (if sign \<and> sint xx < 0 then - xx else xx)"
  have pos: "nat \<bar>sint xx\<bar> = unat xx" if "\<not> sint xx < 0"
    using sint_64(1) [OF that] by simp
  have x: "?x = n" using sint_neg_unat(1) [of xx] pos by (auto simp: n_def)
  have "unat (if ?neg then - xx else xx) < 2 ^ LENGTH(64)" by (rule unsigned_less)
  then have lt: "n < 2 ^ 64" unfolding x by simp
  have "length (numeral_of kdigits r n) \<le> (if ?neg then 19 else 20)"
  proof (cases r)
    case Dec
    have "n < base Dec ^ (if ?neg then Suc 18 else Suc 19)"
      using sint_neg_unat(2) [of xx] x lt by (auto simp: base_def)
    then show ?thesis using length_numeral_of [of n Dec 18 kdigits] length_numeral_of [of n Dec 19 kdigits] Dec by (auto split: if_splits)
  next
    case Hex
    have "n < base Hex ^ Suc 15" using lt by (simp add: base_def)
    then show ?thesis using length_numeral_of [of n Hex 15 kdigits] Hex by auto
  qed
  then have "snd (printint_buf kdigits xx r sign) \<le> 20" unfolding printint_buf_parts(2) x by (auto split: if_splits)
  moreover have "printint kdigits xx r sign = map ucast ((if ?neg then [45] else []) @ numeral_of kdigits r n)"
    unfolding printint_def printint_buf_parts(1) x ..
  ultimately show ?thesis using value_numeral_of [of r n] by simp
qed

text \<open>Where the magnitude fits into 32 bits, the user's \<open>printint\<close> does what the kernel's does.\<close>

lemma uprintint_eq:
  assumes "unat (if sg \<and> sint xx < 0 then - xx else xx) < 2 ^ 32"
  shows "uprintint xx r sg = map ucast (printint udigits xx r sg)"
proof -
  have "unat (ucast (if sg \<and> sint xx < 0 then - xx else xx) :: uint32) = unat (if sg \<and> sint xx < 0 then - xx else xx)"
    using assms by (simp add: unsigned_ucast_eq take_bit_nat_eq_self_iff)
  then have "uprintint_buf xx r sg = printint_buf udigits xx r sg" by (simp only: uprintint_buf_def printint_buf_def Let_def)
  then show ?thesis by (simp add: uprintint_def printint_def)
qed

lemma va_int_small:
  fixes v :: uint64
  assumes "unat v < 2 ^ 32"
  shows "unat (if sg \<and> sint (va_int long sg v) < 0 then - va_int long sg v else va_int long sg v) < 2 ^ 32"
proof -
  have "int (unat v) < int (2 ^ 32)" using assms by (simp only: of_nat_less_iff)
  then have u: "uint v < 2 ^ 32" by simp
  have nn: "\<not> sint v < 0" using sint_64(2) [of v] sint_ge [of v] u by auto
  show ?thesis
  proof (cases "\<not> long \<and> sg")
    case False
    have "unat (va_int long sg v) < 2 ^ 32" using assms False take_bit_nat_less_exp [of 32 "unat v"]
      by (auto simp: va_int_def unsigned_ucast_eq unsigned_take_bit_eq take_bit_nat_eq_self_iff)
    moreover have "sint (va_int long sg v) = sint v" if "long" using that by (simp add: va_int_def)
    ultimately show ?thesis using False nn by auto
  next
    case True
    let ?w = "ucast v :: 32 word" and ?x = "scast (ucast v :: 32 word) :: uint64"
    have b: "- (2 ^ 31) \<le> sint ?w" "sint ?w < 2 ^ 31" using sint_ge [of ?w] sint_lt [of ?w] by simp_all
    then have s: "sint ?x = sint ?w" by (simp add: signed_scast_eq signed_take_bit_int_eq_self_iff)
    have "unat ?x = nat (sint ?w)" if "\<not> sint ?x < 0" using s sint_64(1) [OF that] by (simp add: unat_eq_nat_uint)
    then show ?thesis using sint_neg_unat(1) [of ?x] s b True by (auto simp: va_int_def)
  qed
qed

text \<open>Otherwise it prints the lower 32 bits only.\<close>

lemma uprintint_truncates:
  assumes "\<not> sint xx < 0"
  shows "uprintint xx r sg = numeral_of udigits r (unat xx mod 2 ^ 32)"
proof -
  let ?x = "unat (ucast xx :: uint32)"
  obtain buf i where l: "printint_loop udigits r ?x (\<lambda>_. 0) 0 = (buf, i)" by (cases "printint_loop udigits r ?x (\<lambda>_. 0) 0") auto
  have "uprintint_buf xx r sg = (buf, i)" using assms l by (simp add: uprintint_buf_def Let_def)
  moreover have "?x = unat xx mod 2 ^ 32" by (simp add: unsigned_ucast_eq take_bit_eq_mod)
  moreover have "ucast (ucast b :: uint32) = b" for b :: byte by (rule bit_word_eqI) (simp add: bit_ucast_iff)
  ultimately show ?thesis using out_backwards_numeral(1) [OF l] by (simp add: uprintint_def comp_def)
qed



end
