(* ===== verification/Xv6_Grep.thy ===== *)
theory Xv6_Grep
  imports Xv6_String
begin

text \<open>
  \<open>grep\<close> (\<open>user/grep.c\<close>): the matcher for patterns with \<open>^\<close>, \<open>.\<close>, \<open>*\<close> and \<open>$\<close>, and the loop that
  prints the matching lines. C strings are their characters before the NUL.
\<close>

section \<open>The matcher\<close>

text \<open>The character that a \<open>c\<close> of the pattern stands for.\<close>

definition accepts :: "byte \<Rightarrow> byte \<Rightarrow> bool" where
  "accepts c x \<longleftrightarrow> c = 46 \<or> c = x"

function matchhere :: "byte list \<Rightarrow> byte list \<Rightarrow> bool"
  and matchstar :: "byte \<Rightarrow> byte list \<Rightarrow> byte list \<Rightarrow> bool" where
  "matchhere re tx =
     (if re = [] then True
      else if length re > 1 \<and> re ! 1 = 42 then matchstar (re ! 0) (drop 2 re) tx
      else if re = [36] then tx = []
      else if tx \<noteq> [] \<and> accepts (re ! 0) (tx ! 0) then matchhere (drop 1 re) (drop 1 tx)
      else False)"
| "matchstar c re tx =
     (if matchhere re tx then True
      else if tx \<noteq> [] \<and> accepts c (tx ! 0) then matchstar c re (drop 1 tx)
      else False)"
  by pat_completeness auto
termination
  by (relation "measures [\<lambda>x. case x of Inl (re, tx) \<Rightarrow> length re | Inr (c, re, tx) \<Rightarrow> length re,
      \<lambda>x. case x of Inl (re, tx) \<Rightarrow> length tx | Inr (c, re, tx) \<Rightarrow> length tx,
      \<lambda>x. case x of Inl _ \<Rightarrow> 0 | Inr _ \<Rightarrow> 1]") auto

declare matchhere.simps [simp del] matchstar.simps [simp del]

text \<open>The loop of \<open>match\<close> over the positions of the text, its end included.\<close>

fun match_from :: "byte list \<Rightarrow> byte list \<Rightarrow> bool" where
  "match_from re [] = matchhere re []"
| "match_from re (x # tx) = (matchhere re (x # tx) \<or> match_from re tx)"

definition match :: "byte list \<Rightarrow> byte list \<Rightarrow> bool" where
  "match re tx = (if re \<noteq> [] \<and> re ! 0 = 94 then matchhere (drop 1 re) tx else match_from re tx)"

section \<open>The loop over the lines\<close>

definition newline :: byte where "newline = 10"

text \<open>\<open>strchr(p, '\n')\<close> on a buffer: the position of a newline before the first NUL.\<close>

definition find_nl :: "byte list \<Rightarrow> nat option" where
  "find_nl p = (let c = takeWhile (\<lambda>x. x \<noteq> 0) p in if newline \<in> set c then Some (length (takeWhile (\<lambda>x. x \<noteq> newline) c)) else None)"

lemma length_takeWhile_mem: "x \<in> set xs \<Longrightarrow> \<not> P x \<Longrightarrow> length (takeWhile P xs) < length xs"
  by (induction xs) auto

lemma find_nl_less: "find_nl p = Some q \<Longrightarrow> q < length p"
proof -
  assume "find_nl p = Some q"
  then have "newline \<in> set (takeWhile (\<lambda>x. x \<noteq> 0) p)" "q = length (takeWhile (\<lambda>x. x \<noteq> newline) (takeWhile (\<lambda>x. x \<noteq> 0) p))"
    by (auto simp: find_nl_def Let_def split: if_splits)
  then have "q < length (takeWhile (\<lambda>x. x \<noteq> 0) p)" by (auto intro: length_takeWhile_mem)
  also have "\<dots> \<le> length p" by (rule length_takeWhile_le)
  finally show "q < length p" .
qed

text \<open>The inner loop: what is written for the lines in the buffer from \<open>p\<close> on, and what is left of it.\<close>

function grep_lines :: "byte list \<Rightarrow> byte list \<Rightarrow> byte list \<times> byte list" where
  "grep_lines pattern p =
     (case find_nl p of
        None \<Rightarrow> ([], p)
      | Some q \<Rightarrow>
          (let (out, rest) = grep_lines pattern (drop (q + 1) p)
           in (if match pattern (take q p) then take (q + 1) p @ out else out, rest)))"
  by pat_completeness auto
termination
  by (relation "measure (\<lambda>(pattern, p). length p)") (auto dest!: find_nl_less)

declare grep_lines.simps [simp del]

text \<open>
  \<open>read\<close> from a file of which \<open>inp\<close> is left delivers as many bytes as asked for or fewer, as \<open>k\<close> says,
  and none only at the end or if none are asked for.
\<close>

definition read_some :: "(byte list \<Rightarrow> nat) \<Rightarrow> byte list \<Rightarrow> nat \<Rightarrow> byte list" where
  "read_some k inp n = take (min n (max 1 (k inp))) inp"

function grep_loop :: "(byte list \<Rightarrow> nat) \<Rightarrow> byte list \<Rightarrow> byte list \<Rightarrow> byte list \<Rightarrow> byte list" where
  "grep_loop k pattern buf inp =
     (let chunk = read_some k inp (1024 - length buf - 1) in
      if chunk = [] then []
      else let (out, rest) = grep_lines pattern (buf @ chunk)
           in out @ grep_loop k pattern rest (drop (length chunk) inp))"
  by pat_completeness auto
termination
  by (relation "measure (\<lambda>(k, pattern, buf, inp). length inp)") (auto simp: read_some_def)

declare grep_loop.simps [simp del]

definition grep :: "(byte list \<Rightarrow> nat) \<Rightarrow> byte list \<Rightarrow> byte list \<Rightarrow> byte list" where
  "grep k pattern inp = grep_loop k pattern [] inp"

section \<open>The meaning of patterns\<close>

datatype ritem = One byte | Rep byte | Dollar

fun items :: "byte list \<Rightarrow> ritem list" where
  "items [] = []"
| "items [c] = [if c = 36 then Dollar else One c]"
| "items (c # d # re) = (if d = 42 then Rep c # items re else One c # items (d # re))"

fun item_word :: "ritem \<Rightarrow> byte list \<Rightarrow> bool" where
  "item_word (One c) w = (\<exists>x. w = [x] \<and> accepts c x)"
| "item_word (Rep c) w = list_all (accepts c) w"
| "item_word Dollar w = (w = [])"

text \<open>The text begins with words of the items one after the other; a \<open>$\<close> is only good at the end.\<close>

definition matches_at :: "ritem list \<Rightarrow> byte list \<Rightarrow> bool" where
  "matches_at its tx \<longleftrightarrow>
     (\<exists>ws rest. tx = concat ws @ rest \<and> list_all2 item_word its ws \<and> (Dollar \<in> set its \<longrightarrow> rest = []))"

lemma matches_at_Nil: "matches_at [] t"
  by (auto simp: matches_at_def)

lemma matches_at_One: "matches_at (One c # its) t \<longleftrightarrow> (t \<noteq> [] \<and> accepts c (t ! 0) \<and> matches_at its (drop 1 t))"
proof
  assume "matches_at (One c # its) t"
  then obtain ws rest where w: "t = concat ws @ rest" "list_all2 item_word (One c # its) ws" "Dollar \<in> set its \<longrightarrow> rest = []"
    by (auto simp: matches_at_def)
  then obtain x ws' where "ws = [x] # ws'" "accepts c x" "list_all2 item_word its ws'" by (auto simp: list_all2_Cons1)
  then show "t \<noteq> [] \<and> accepts c (t ! 0) \<and> matches_at its (drop 1 t)" using w by (auto simp: matches_at_def)
next
  assume a: "t \<noteq> [] \<and> accepts c (t ! 0) \<and> matches_at its (drop 1 t)"
  then obtain ws rest where w: "drop 1 t = concat ws @ rest" "list_all2 item_word its ws" "Dollar \<in> set its \<longrightarrow> rest = []"
    by (auto simp: matches_at_def)
  have "t = concat ([t ! 0] # ws) @ rest" using a w(1) by (cases t) auto
  then show "matches_at (One c # its) t" unfolding matches_at_def using w a by (intro exI [of _ "[t ! 0] # ws"] exI [of _ rest]) auto
qed

lemma matches_at_Rep:
  "matches_at (Rep c # its) t \<longleftrightarrow> matches_at its t \<or> (t \<noteq> [] \<and> accepts c (t ! 0) \<and> matches_at (Rep c # its) (drop 1 t))"
proof
  assume "matches_at (Rep c # its) t"
  then obtain w ws rest where w: "t = w @ concat ws @ rest" "list_all (accepts c) w" "list_all2 item_word its ws" "Dollar \<in> set its \<longrightarrow> rest = []"
    unfolding matches_at_def list_all2_Cons1 by fastforce
  show "matches_at its t \<or> (t \<noteq> [] \<and> accepts c (t ! 0) \<and> matches_at (Rep c # its) (drop 1 t))"
  proof (cases w)
    case Nil
    then show ?thesis using w by (auto simp: matches_at_def)
  next
    case (Cons x w')
    then have "matches_at (Rep c # its) (drop 1 t)" unfolding matches_at_def using w
      by (intro exI [of _ "w' # ws"] exI [of _ rest]) auto
    then show ?thesis using Cons w by auto
  qed
next
  assume "matches_at its t \<or> (t \<noteq> [] \<and> accepts c (t ! 0) \<and> matches_at (Rep c # its) (drop 1 t))"
  then show "matches_at (Rep c # its) t"
  proof
    assume "matches_at its t"
    then obtain ws rest where "t = concat ws @ rest" "list_all2 item_word its ws" "Dollar \<in> set its \<longrightarrow> rest = []" by (auto simp: matches_at_def)
    then show ?thesis unfolding matches_at_def by (intro exI [of _ "[] # ws"] exI [of _ rest]) auto
  next
    assume a: "t \<noteq> [] \<and> accepts c (t ! 0) \<and> matches_at (Rep c # its) (drop 1 t)"
    then obtain w ws rest where w: "drop 1 t = w @ concat ws @ rest" "list_all (accepts c) w" "list_all2 item_word its ws"
      "Dollar \<in> set its \<longrightarrow> rest = []" unfolding matches_at_def list_all2_Cons1 by fastforce
    have "t = concat ((t ! 0 # w) # ws) @ rest" using a w(1) by (cases t) auto
    then show ?thesis unfolding matches_at_def using w a by (intro exI [of _ "(t ! 0 # w) # ws"] exI [of _ rest]) auto
  qed
qed

lemma matches_at_Dollar: "matches_at [Dollar] t \<longleftrightarrow> t = []"
  by (auto simp: matches_at_def list_all2_Cons1)

lemma matchhere_eqs:
  "matchhere [] t" "matchhere [c] t = (if c = 36 then t = [] else t \<noteq> [] \<and> accepts c (t ! 0))"
  "matchhere (c # d # re) t = (if d = 42 then matchstar c re t else t \<noteq> [] \<and> accepts c (t ! 0) \<and> matchhere (d # re) (drop 1 t))"
proof -
  show e: "matchhere [] t" for t by (subst matchhere.simps) simp
  show "matchhere [c] t = (if c = 36 then t = [] else t \<noteq> [] \<and> accepts c (t ! 0))" by (subst matchhere.simps) (simp add: e)
  show "matchhere (c # d # re) t = (if d = 42 then matchstar c re t else t \<noteq> [] \<and> accepts c (t ! 0) \<and> matchhere (d # re) (drop 1 t))"
    by (subst matchhere.simps) simp
qed

lemma matchstar_spec:
  assumes "\<And>t. matchhere re t = matches_at its t"
  shows "matchstar c re t = matches_at (Rep c # its) t"
proof (induction t)
  case Nil
  show ?case by (subst matchstar.simps, subst matches_at_Rep) (simp add: assms)
next
  case (Cons x t)
  then show ?case by (subst matchstar.simps, subst matches_at_Rep) (simp add: assms)
qed

lemma matchhere_spec: "matchhere re t = matches_at (items re) t"
proof (induction re arbitrary: t rule: items.induct)
  case (3 c d re)
  then show ?case using matchstar_spec [of re "items re"] by (simp add: matchhere_eqs matches_at_One)
qed (simp_all add: matchhere_eqs matches_at_Nil matches_at_One matches_at_Dollar)

lemma match_from_spec: "match_from re tx \<longleftrightarrow> (\<exists>k \<le> length tx. matches_at (items re) (drop k tx))"
proof (induction tx)
  case (Cons x tx)
  have "(\<exists>k \<le> length (x # tx). matches_at (items re) (drop k (x # tx))) \<longleftrightarrow>
      matches_at (items re) (x # tx) \<or> (\<exists>k \<le> length tx. matches_at (items re) (drop k tx))"
    by (metis Suc_le_mono drop0 drop_Suc_Cons le0 length_Cons not0_implies_Suc)
  then show ?case using Cons by (simp add: matchhere_spec)
qed (simp add: matchhere_spec)

text \<open>The complete lines of a text, without their newlines, and what \<open>grep\<close> should print of them.\<close>

function lines_of :: "byte list \<Rightarrow> byte list list" where
  "lines_of inp = (if newline \<in> set inp then takeWhile (\<lambda>x. x \<noteq> newline) inp # lines_of (tl (dropWhile (\<lambda>x. x \<noteq> newline) inp)) else [])"
  by pat_completeness auto
termination
proof (relation "measure length")
  fix inp :: "byte list" assume "newline \<in> set inp"
  then have "dropWhile (\<lambda>x. x \<noteq> newline) inp \<noteq> []" by (auto simp: dropWhile_eq_Nil_conv)
  then have "length (tl (dropWhile (\<lambda>x. x \<noteq> newline) inp)) < length (dropWhile (\<lambda>x. x \<noteq> newline) inp)" by (cases "dropWhile (\<lambda>x. x \<noteq> newline) inp") auto
  also have "\<dots> \<le> length inp" by (rule length_dropWhile_le)
  finally show "(tl (dropWhile (\<lambda>x. x \<noteq> newline) inp), inp) \<in> measure length" by simp
qed simp

declare lines_of.simps [simp del]

definition printed :: "byte list \<Rightarrow> byte list \<Rightarrow> byte list" where
  "printed pattern inp = concat (map (\<lambda>l. l @ [newline]) (filter (match pattern) (lines_of inp)))"

lemma take_line:
  "newline \<notin> set l \<Longrightarrow> takeWhile (\<lambda>x. x \<noteq> newline) (l @ newline # inp) = l" "newline \<notin> set l \<Longrightarrow> dropWhile (\<lambda>x. x \<noteq> newline) (l @ newline # inp) = newline # inp"
  by (induction l) auto

lemma lines_of_line: "newline \<notin> set l \<Longrightarrow> lines_of (l @ newline # inp) = l # lines_of inp"
  by (subst lines_of.simps) (simp add: take_line)

lemma lines_of_rest: "newline \<notin> set l \<Longrightarrow> lines_of l = []"
  by (subst lines_of.simps) simp

lemma find_nl_cases:
  assumes "0 \<notin> set p"
  shows "find_nl p = None \<and> newline \<notin> set p \<or> (\<exists>l r. p = l @ newline # r \<and> newline \<notin> set l \<and> find_nl p = Some (length l))"
proof -
  have w: "takeWhile (\<lambda>x. x \<noteq> 0) p = p" using assms by (auto simp: takeWhile_eq_all_conv)
  show ?thesis
  proof (cases "newline \<in> set p")
    case True
    then obtain l r where "p = l @ newline # r" "newline \<notin> set l" using split_list_first by fastforce
    moreover then have "takeWhile (\<lambda>x. x \<noteq> newline) p = l" using take_line(1) by simp
    then have "find_nl p = Some (length l)" using True unfolding find_nl_def w by simp
    ultimately show ?thesis by blast
  qed (simp add: find_nl_def w)
qed

text \<open>The inner loop prints the matching lines of the buffer and keeps the unfinished one.\<close>

lemma grep_lines_spec:
  assumes "0 \<notin> set p"
  obtains fin rest where "p = fin @ rest" "newline \<notin> set rest" "fin = [] \<or> last fin = newline"
    "grep_lines pattern p = (printed pattern fin, rest)"
proof -
  have "\<exists>fin rest. p = fin @ rest \<and> newline \<notin> set rest \<and> (fin = [] \<or> last fin = newline) \<and> grep_lines pattern p = (printed pattern fin, rest)"
    using assms
  proof (induction "length p" arbitrary: p rule: less_induct)
    case less
    from find_nl_cases [OF less.prems] show ?case
    proof (elim disjE exE conjE)
      assume "find_nl p = None" "newline \<notin> set p"
      then show ?thesis by (intro exI [of _ "[]"] exI [of _ p]) (simp add: grep_lines.simps printed_def lines_of.simps)
    next
      fix l r assume p: "p = l @ newline # r" "newline \<notin> set l" "find_nl p = Some (length l)"
      then obtain fin rest where d: "r = fin @ rest" "newline \<notin> set rest" "fin = [] \<or> last fin = newline"
        "grep_lines pattern r = (printed pattern fin, rest)"
        using less.hyps [of r] less.prems by auto
      have "grep_lines pattern p = (printed pattern (l @ newline # fin), rest)"
        using p d(4) by (subst grep_lines.simps) (simp add: printed_def lines_of_line)
      then show ?thesis using p(1) d by (intro exI [of _ "l @ newline # fin"] exI [of _ rest]) auto
    qed
  qed
  then show ?thesis using that by blast
qed

lemma lines_of_append: "u = [] \<or> last u = newline \<Longrightarrow> lines_of (u @ x) = lines_of u @ lines_of x"
proof (induction "length u" arbitrary: u rule: less_induct)
  case less
  show ?case
  proof (cases "newline \<in> set u")
    case True
    then obtain l r where u: "u = l @ newline # r" "newline \<notin> set l" using split_list_first by fastforce
    then have "r = [] \<or> last r = newline" "length r < length u" using less.prems by (auto split: if_splits)
    then have "lines_of (r @ x) = lines_of r @ lines_of x" using less.hyps by blast
    then show ?thesis using u lines_of_line by simp
  next
    case False
    then have "u = []" using less.prems last_in_set by fastforce
    then show ?thesis by (simp add: lines_of_rest)
  qed
qed

lemma printed_append: "u = [] \<or> last u = newline \<Longrightarrow> printed pattern (u @ x) = printed pattern u @ printed pattern x"
  by (simp add: printed_def lines_of_append)

text \<open>Texts without lines that are too long for the buffer.\<close>

definition short_lines :: "byte list \<Rightarrow> bool" where
  "short_lines inp \<longleftrightarrow> (\<forall>u l v. inp = u @ l @ v \<longrightarrow> newline \<notin> set l \<longrightarrow> length l \<le> 1022)"

lemma grep_loop_spec:
  assumes "0 \<notin> set (buf @ inp)" "newline \<notin> set buf" "short_lines (buf @ inp)"
  shows "grep_loop k pattern buf inp = printed pattern (buf @ inp)"
  using assms
proof (induction "length inp" arbitrary: buf inp rule: less_induct)
  case less
  have b: "length buf \<le> 1022" using less.prems(2,3) unfolding short_lines_def by (metis append_Nil)
  show ?case
  proof (cases "inp = []")
    case True
    then show ?thesis using less.prems(2) by (subst grep_loop.simps) (simp add: read_some_def printed_def lines_of_rest)
  next
    case False
    let ?c = "read_some k inp (1024 - length buf - 1)" let ?i = "drop (length ?c) inp"
    have c: "?c \<noteq> []" "inp = ?c @ ?i" using b False by (auto simp: read_some_def min_def)
    have "set ?c \<subseteq> set inp" by (simp add: read_some_def set_take_subset)
    then have "0 \<notin> set (buf @ ?c)" using less.prems(1) by auto
    then obtain u rest where g: "buf @ ?c = u @ rest" "newline \<notin> set rest" "u = [] \<or> last u = newline" "grep_lines pattern (buf @ ?c) = (printed pattern u, rest)"
      by (rule grep_lines_spec)
    have all: "buf @ inp = u @ rest @ ?i" using g(1) c(2) by (metis append_assoc)
    have "grep_loop k pattern rest ?i = printed pattern (rest @ ?i)"
    proof (rule less.hyps)
      show "length ?i < length inp" using c by (metis length_append length_greater_0_conv less_add_same_cancel2)
      show "0 \<notin> set (rest @ ?i)" using less.prems(1) unfolding all by simp
      show "short_lines (rest @ ?i)" using less.prems(3) unfolding all short_lines_def by (metis append_assoc)
    qed (rule g(2))
    then have "grep_loop k pattern buf inp = printed pattern u @ printed pattern (rest @ ?i)"
      using c(1) g(4) by (subst grep_loop.simps) (simp add: Let_def)
    then show ?thesis unfolding all using printed_append [OF g(3)] by simp
  qed
qed

section \<open>Properties of grep\<close>

text \<open>
  C27: the matcher decides what patterns mean: a pattern matches a text iff the text, from its beginning if
  the pattern starts with \<open>^\<close> and from some position otherwise, is a sequence of words of the pattern's items,
  followed by anything, or by nothing if the pattern ends with \<open>$\<close>.
\<close>

theorem match_iff:
  "match re tx \<longleftrightarrow>
     (if re \<noteq> [] \<and> re ! 0 = 94 then matches_at (items (drop 1 re)) tx
      else \<exists>k \<le> length tx. matches_at (items re) (drop k tx))"
  by (simp add: match_def matchhere_spec match_from_spec)

theorem match_iff_witness: "match [97, 42, 98] [99, 97, 97, 98, 100]"
proof -
  have "matches_at [Rep 97, One 98] [97, 97, 98, 100]"
    unfolding matches_at_def by (intro exI [of _ "[[97, 97], [98]]"] exI [of _ "[100]"]) (simp add: accepts_def)
  then show ?thesis unfolding match_iff by (auto intro!: exI [of _ 1])
qed

text \<open>
  C28: \<open>grep\<close> prints exactly the lines that match, in order and each with its newline, however the
  system cuts the file into pieces, if no line is longer than 1022 characters and there are no NULs.
  An unfinished last line is not printed.
\<close>

theorem grep_correct:
  assumes "0 \<notin> set inp" "short_lines inp"
  shows "grep k pattern inp = concat (map (\<lambda>l. l @ [newline]) (filter (match pattern) (lines_of inp)))"
  using grep_loop_spec [of "[]" inp k pattern] assms by (simp add: grep_def printed_def)

theorem grep_correct_witness: "grep (\<lambda>_. 2) [98] [97, newline, 98, newline] = [98, newline]"
proof -
  have "length l \<le> 4" if "[97, newline, 98, newline] = u @ l @ v" for u l v
    using arg_cong [OF that, of length] by simp
  then have s: "short_lines [97, newline, 98, newline]" by (force simp: short_lines_def)
  have l: "lines_of [97, newline, 98, newline] = [[97], [98]]"
    using lines_of_line [of "[97]" "[98, newline]"] lines_of_line [of "[98]" "[]"] lines_of_rest [of "[]"] by (simp add: newline_def)
  have m: "\<not> match [98] [97]" "match [98] [98]" by (simp_all add: match_def matchhere_eqs accepts_def)
  show ?thesis using grep_correct [OF _ s, of "\<lambda>_. 2" "[98]"] m by (simp add: l) (simp add: newline_def)
qed

text \<open>
  A line that does not fit into the buffer ends the search: with 1023 characters in it and no
  newline, \<open>grep\<close> asks for 0 more bytes and takes the answer for the end of the file.
\<close>

lemma grep_long_line_stops:
  assumes "length l = 1023" "newline \<notin> set l" "0 \<notin> set l"
  shows "grep (\<lambda>_. 1023) pattern (l @ inp) = []"
proof -
  have c: "read_some (\<lambda>_. 1023) (l @ inp) (1024 - length ([] :: byte list) - 1) = l" using assms(1) by (simp add: read_some_def)
  have "grep_lines pattern l = ([], l)" using assms find_nl_cases [of l] by (subst grep_lines.simps) auto
  then have "grep (\<lambda>_. 1023) pattern (l @ inp) = grep_loop (\<lambda>_. 1023) pattern l inp"
    unfolding grep_def using c assms(1) by (subst grep_loop.simps) (auto simp: Let_def)
  also have "\<dots> = []" using assms(1) by (subst grep_loop.simps) (simp add: read_some_def)
  finally show ?thesis .
qed

end
