(* ===== verification/Spec2Isabelle.thy ===== *)
theory Spec2Isabelle
  imports Xv6_Trap Xv6_Inode Xv6_Pipe Xv6_Printf Xv6_Grep
begin

text \<open>
  A verification of the xv6 operating system for RISC-V.
\<close>

end
